(* ===== verification/Prelude.thy ===== *)
theory Prelude
  imports Main "HOL-Library.Word"
begin

text \<open>
  What every other theory shares: faults (undefined behaviour of the C++ code made a value), the
  sequencing of fallible operations, the memory of \<open>Order\<close> objects' addresses, and generic lemmas
  on lists that the price ladders, the queues and the logger use.
\<close>

section \<open>Collections of facts\<close>

named_theorems res_simps \<open>evaluation of fallible operations\<close>
named_theorems frame_simps \<open>what an operation leaves unchanged\<close>

section \<open>Faults and fallible results\<close>

text \<open>An address of an object in memory; a nullable pointer is an \<open>addr option\<close>.\<close>

type_synonym addr = nat

text \<open>
  The undefined behaviours that the modelled code could run into. An operation that may run into
  one returns a sum: \<open>Inl\<close> the fault, or \<open>Inr\<close> the result.
\<close>

datatype fault = Dangling addr | SignedOverflow | OutOfRange | Indeterminate

type_synonym 'a res = "fault + 'a"

definition andThen :: "'e + 'a \<Rightarrow> ('a \<Rightarrow> 'e + 'b) \<Rightarrow> 'e + 'b" where
  "andThen r f = (case r of Inl e \<Rightarrow> Inl e | Inr x \<Rightarrow> f x)"

lemma andThen_Inr [simp, res_simps]: "andThen (Inr x) f = f x"
  by (simp add: andThen_def)

lemma andThen_Inl [simp, res_simps]: "andThen (Inl e) f = Inl e"
  by (simp add: andThen_def)

lemma andThen_eq_Inr_iff: "andThen r f = Inr y \<longleftrightarrow> (\<exists>x. r = Inr x \<and> f x = Inr y)"
  by (cases r) simp_all

lemma andThen_eq_InrE:
  assumes "andThen r f = Inr y"
  obtains x where "r = Inr x" and "f x = Inr y"
  using assms by (auto simp: andThen_eq_Inr_iff)

lemma andThen_assoc: "andThen (andThen r f) g = andThen r (\<lambda>x. andThen (f x) g)"
  by (cases r) simp_all

text \<open>Reading through a pointer: a fault where no object lives at the address.\<close>

definition deref :: "(addr \<rightharpoonup> 'o) \<Rightarrow> addr \<Rightarrow> 'o res" where
  "deref h p = (case h p of None \<Rightarrow> Inl (Dangling p) | Some x \<Rightarrow> Inr x)"

lemma deref_Some [simp, res_simps]: "h p = Some x \<Longrightarrow> deref h p = Inr x"
  by (simp add: deref_def)

lemma deref_eq_Inr_iff: "deref h p = Inr x \<longleftrightarrow> h p = Some x"
  by (simp add: deref_def split: option.splits)

section \<open>Generic lemmas on lists\<close>

lemma filter_fst_concat_tag:
  "filter (\<lambda>x. P (fst x)) (concat (map (\<lambda>(k, v). map (Pair k) (f v)) xs)) =
   concat (map (\<lambda>(k, v). map (Pair k) (f v)) (filter (\<lambda>x. P (fst x)) xs))"
  by (induction xs) (auto simp: filter_map o_def)

lemma map_of_filter_fst:
  "map_of (filter (\<lambda>e. P (fst e)) xs) k = (if P k then map_of xs k else None)"
  by (induction xs) auto

lemma map_of_rev_distinct:
  assumes "distinct (map fst xs)"
  shows "map_of (rev xs) = map_of xs"
proof
  fix k
  have "map_of (rev xs) k = Some v \<longleftrightarrow> map_of xs k = Some v" for v
    using assms by (simp add: map_of_eq_Some_iff distinct_map)
  then show "map_of (rev xs) k = map_of xs k"
    by (metis option.exhaust)
qed

lemma distinct_remove1_removeAll_filter:
  "distinct xs \<Longrightarrow> remove1 x xs = filter (\<lambda>y. y \<noteq> x) xs"
  by (simp add: distinct_remove1_removeAll removeAll_filter_not_eq) metis

lemma filter_neq_notin: "x \<notin> set xs \<Longrightarrow> filter (\<lambda>y. y \<noteq> x) xs = xs"
  by (induction xs) auto

end
