(* ===== verification/Int64.thy ===== *)
theory Int64
  imports Prelude
begin

text \<open>
  The type \<open>int64_t\<close> of the code (\<open>Price\<close>, \<open>Timestamp\<close>): 64 bits read in two's complement. It is an
  own datatype, so that its order is the signed one. Signed arithmetic that leaves the range is
  undefined behaviour in C++, so the arithmetic operations return a fault there.
\<close>

datatype i64 = I64 (bits: "64 word")

definition ival :: "i64 \<Rightarrow> int" where
  "ival x = sint (bits x)"

definition i64_of :: "int \<Rightarrow> i64" where
  "i64_of n = I64 (word_of_int n)"

definition in_i64 :: "int \<Rightarrow> bool" where
  "in_i64 n \<longleftrightarrow> - (2 ^ 63) \<le> n \<and> n < 2 ^ 63"

lemma in_i64_ival [simp]: "in_i64 (ival x)"
  using sint_greater_eq [of "bits x"] sint_less [of "bits x"]
  by (simp add: in_i64_def ival_def)

lemma ival_i64_of [simp]: "in_i64 n \<Longrightarrow> ival (i64_of n) = n"
  unfolding in_i64_def ival_def i64_of_def
  by (simp add: sint_sbintrunc' signed_take_bit_int_eq_self)

lemma i64_of_ival [simp]: "i64_of (ival x) = x"
  by (cases x) (simp add: i64_of_def ival_def)

lemma ival_inject [simp]: "ival x = ival y \<longleftrightarrow> x = y"
  by (metis i64_of_ival)

section \<open>The signed order\<close>

instantiation i64 :: linorder
begin

definition less_eq_i64 :: "i64 \<Rightarrow> i64 \<Rightarrow> bool" where
  "x \<le> y \<longleftrightarrow> ival x \<le> ival y"

definition less_i64 :: "i64 \<Rightarrow> i64 \<Rightarrow> bool" where
  "x < y \<longleftrightarrow> ival x < ival y"

instance
  by standard (auto simp: less_eq_i64_def less_i64_def)

end

instantiation i64 :: zero
begin

definition zero_i64 :: i64 where
  "0 = I64 0"

instance ..

end

lemma ival_zero [simp]: "ival 0 = 0"
  by (simp add: ival_def zero_i64_def)

lemma ival_eq_zero_iff [simp]: "ival x = 0 \<longleftrightarrow> x = 0"
  using ival_inject [of x 0] by simp

lemmas i64_order_simps = less_eq_i64_def less_i64_def

section \<open>Checked arithmetic\<close>

definition i64_add :: "i64 \<Rightarrow> i64 \<Rightarrow> i64 res" where
  "i64_add x y =
     (if in_i64 (ival x + ival y) then Inr (i64_of (ival x + ival y)) else Inl SignedOverflow)"

definition i64_sub :: "i64 \<Rightarrow> i64 \<Rightarrow> i64 res" where
  "i64_sub x y =
     (if in_i64 (ival x - ival y) then Inr (i64_of (ival x - ival y)) else Inl SignedOverflow)"

definition i64_mul :: "i64 \<Rightarrow> i64 \<Rightarrow> i64 res" where
  "i64_mul x y =
     (if in_i64 (ival x * ival y) then Inr (i64_of (ival x * ival y)) else Inl SignedOverflow)"

text \<open>Division and remainder by a positive constant truncate towards zero.\<close>

definition i64_quot :: "i64 \<Rightarrow> int \<Rightarrow> i64" where
  "i64_quot x d = i64_of (if ival x < 0 then - ((- ival x) div d) else ival x div d)"

definition i64_rem :: "i64 \<Rightarrow> int \<Rightarrow> i64" where
  "i64_rem x d = i64_of (if ival x < 0 then - ((- ival x) mod d) else ival x mod d)"

lemma in_i64_small: "\<bar>n\<bar> \<le> 2 ^ 62 \<Longrightarrow> in_i64 n"
  by (simp add: in_i64_def abs_le_iff)

lemma ival_i64_quot:
  assumes "1 < d"
  shows "ival (i64_quot x d) = (if ival x < 0 then - ((- ival x) div d) else ival x div d)"
proof -
  have b: "- (2 ^ 63) \<le> ival x" "ival x < 2 ^ 63"
    using in_i64_ival [of x] by (simp_all add: in_i64_def)
  have shrink: "a div d \<le> a" "0 \<le> a div d" if "0 \<le> a" for a :: int
    using that assms zdiv_mono2 [of a 1 d] by (simp_all add: pos_imp_zdiv_nonneg_iff)
  have "in_i64 (if ival x < 0 then - ((- ival x) div d) else ival x div d)"
    using b shrink [of "ival x"] shrink [of "- ival x"] by (auto simp: in_i64_def)
  then show ?thesis by (simp add: i64_quot_def)
qed

end
