(* ===== verification/Orders.thy ===== *)
theory Orders
  imports Int64
begin

text \<open>
  \<open>include/order_matching/Order.hpp\<close>: the order record, its constructors, its getters and the two
  comparison operators. Field names are the source's, \<open>id\<close> being \<open>order_id\<close> here.
\<close>

type_synonym price = i64
type_synonym timestamp = i64
type_synonym order_ident = "32 word"
type_synonym qty = "32 word"

definition PRICE_SCALE :: i64 where
  "PRICE_SCALE = i64_of 1000000"

record order =
  order_id :: order_ident
  quantity :: qty
  price_scaled :: price
  timestamp_ns :: timestamp
  side :: "8 word"
  order_type :: "8 word"
  reserved :: "16 word"

text \<open>The default constructor zero-initialises; the other one encodes the side as 0 or 1.\<close>

definition Order_default :: order where
  "Order_default = \<lparr>order_id = 0, quantity = 0, price_scaled = 0, timestamp_ns = 0, side = 0,
     order_type = 0, reserved = 0\<rparr>"

definition Order_new ::
  "order_ident \<Rightarrow> bool \<Rightarrow> qty \<Rightarrow> price \<Rightarrow> timestamp \<Rightarrow> 8 word \<Rightarrow> order" where
  "Order_new ident isBuyOrder q pr ts ty =
     \<lparr>order_id = ident, quantity = q, price_scaled = pr, timestamp_ns = ts,
      side = (if isBuyOrder then 0 else 1), order_type = ty, reserved = 0\<rparr>"

definition isBuy :: "order \<Rightarrow> bool" where
  "isBuy o1 \<longleftrightarrow> side o1 = 0"

definition isSell :: "order \<Rightarrow> bool" where
  "isSell o1 \<longleftrightarrow> side o1 = 1"

text \<open>\<open>operator<\<close> and \<open>operator>\<close>.\<close>

definition order_less :: "order \<Rightarrow> order \<Rightarrow> bool" where
  "order_less a b =
     (if price_scaled a \<noteq> price_scaled b then price_scaled a < price_scaled b
      else timestamp_ns a < timestamp_ns b)"

definition order_greater :: "order \<Rightarrow> order \<Rightarrow> bool" where
  "order_greater a b =
     (if price_scaled a \<noteq> price_scaled b then price_scaled a > price_scaled b
      else timestamp_ns a < timestamp_ns b)"

section \<open>Both operators are comparators\<close>

text \<open>
  What the standard library requires of a comparator (a strict weak order): an interface, because
  both operators must meet it.
\<close>

locale comparator =
  fixes cmp :: "'a \<Rightarrow> 'a \<Rightarrow> bool"
  assumes cmp_asym: "cmp x y \<Longrightarrow> \<not> cmp y x"
    and cmp_cotrans: "cmp x z \<Longrightarrow> cmp x y \<or> cmp y z"
begin

lemma irrefl: "\<not> cmp x x"
  using cmp_asym by blast

lemma trans: "cmp x y \<Longrightarrow> cmp y z \<Longrightarrow> cmp x z"
  using cmp_asym cmp_cotrans by blast

lemma incomparable_trans:
  "\<not> cmp x y \<Longrightarrow> \<not> cmp y x \<Longrightarrow> \<not> cmp y z \<Longrightarrow> \<not> cmp z y \<Longrightarrow> \<not> cmp x z \<and> \<not> cmp z x"
  using cmp_cotrans by blast

end

interpretation less_cmp: comparator order_less
  by unfold_locales (auto simp: order_less_def split: if_splits)

interpretation greater_cmp: comparator order_greater
  by unfold_locales (auto simp: order_greater_def split: if_splits)

lemma isBuy_Order_new [simp]: "isBuy (Order_new i b q pr ts ty) = b"
  by (simp add: isBuy_def Order_new_def)

lemma isSell_Order_new [simp]: "isSell (Order_new i b q pr ts ty) = (\<not> b)"
  by (simp add: isSell_def Order_new_def)

lemma Order_new_sel [simp]:
  "order_id (Order_new i b q pr ts ty) = i"
  "quantity (Order_new i b q pr ts ty) = q"
  "price_scaled (Order_new i b q pr ts ty) = pr"
  "timestamp_ns (Order_new i b q pr ts ty) = ts"
  by (simp_all add: Order_new_def)

lemma isBuy_update [simp]:
  "isBuy (o1\<lparr>quantity := q\<rparr>) = isBuy o1"
  "isBuy (o1\<lparr>timestamp_ns := t\<rparr>) = isBuy o1"
  "isBuy (o1\<lparr>price_scaled := pr\<rparr>) = isBuy o1"
  by (simp_all add: isBuy_def)

text \<open>Both operators order orders consistently: neither relates an order to itself, both are transitive,
  and so is being unordered, as sorting needs. But \<open>operator>\<close> is not the converse of \<open>operator<\<close>: among
  orders of the same price the two agree, so that the earlier order is both less and greater.\<close>

theorem order_operators_strict_weak:
  "\<not> order_less a a \<and> \<not> order_greater a a \<and>
   (order_less a b \<and> order_less b c \<longrightarrow> order_less a c) \<and>
   (order_greater a b \<and> order_greater b c \<longrightarrow> order_greater a c) \<and>
   (\<not> order_less a b \<and> \<not> order_less b a \<and> \<not> order_less b c \<and> \<not> order_less c b \<longrightarrow>
      \<not> order_less a c \<and> \<not> order_less c a) \<and>
   (\<not> order_greater a b \<and> \<not> order_greater b a \<and> \<not> order_greater b c \<and> \<not> order_greater c b \<longrightarrow>
      \<not> order_greater a c \<and> \<not> order_greater c a) \<and>
   (price_scaled a = price_scaled b \<longrightarrow> order_less a b = order_greater a b)"
  using less_cmp.irrefl greater_cmp.irrefl less_cmp.trans [of a b c] greater_cmp.trans [of a b c]
    less_cmp.incomparable_trans [of a b c] greater_cmp.incomparable_trans [of a b c]
  by (simp add: order_less_def order_greater_def)

theorem order_operators_strict_weak_witness:
  "order_less (Order_new 1 True 5 (i64_of 100) (i64_of 1) 0) (Order_new 2 True 5 (i64_of 100) (i64_of 2) 0) \<and>
   order_greater (Order_new 1 True 5 (i64_of 100) (i64_of 1) 0) (Order_new 2 True 5 (i64_of 100) (i64_of 2) 0)"
proof -
  let ?a = "Order_new 1 True 5 (i64_of 100) (i64_of 1) 0" and ?b = "Order_new 2 True 5 (i64_of 100) (i64_of 2) 0"
  have "order_less ?a ?b" by (simp add: order_less_def less_i64_def in_i64_def)
  moreover have "price_scaled ?a = price_scaled ?b" by simp
  ultimately show ?thesis using order_operators_strict_weak [of ?a ?b ?b] by blast
qed

end
