(* ===== verification/Ladder.thy ===== *)
theory Ladder
  imports Prelude
begin

text \<open>
  \<open>std::map\<close> as the order book uses it: a sorted association list with \<open>find\<close>, insertion or
  assignment (\<open>operator[]\<close>), \<open>erase\<close>, \<open>begin\<close> and \<open>rbegin\<close>. The locale \<open>priority_ladder\<close> is the
  interface a side of the book relies on; it is interpreted twice, best price last (bids) and best
  price first (asks).
\<close>

type_synonym ('k, 'v) ladder = "('k \<times> 'v) list"

definition map_find :: "'k \<Rightarrow> ('k, 'v) ladder \<Rightarrow> 'v option" where
  "map_find k m = map_of m k"

fun map_put :: "'k :: linorder \<Rightarrow> 'v \<Rightarrow> ('k, 'v) ladder \<Rightarrow> ('k, 'v) ladder" where
  "map_put k v [] = [(k, v)]"
| "map_put k v (e # m) =
     (if k < fst e then (k, v) # e # m
      else if fst e < k then e # map_put k v m
      else (k, v) # m)"

definition map_erase :: "'k \<Rightarrow> ('k, 'v) ladder \<Rightarrow> ('k, 'v) ladder" where
  "map_erase k m = filter (\<lambda>e. fst e \<noteq> k) m"

definition map_begin :: "('k, 'v) ladder \<Rightarrow> ('k \<times> 'v) option" where
  "map_begin m = (case m of [] \<Rightarrow> None | e # _ \<Rightarrow> Some e)"

definition map_rbegin :: "('k, 'v) ladder \<Rightarrow> ('k \<times> 'v) option" where
  "map_rbegin m = (case m of [] \<Rightarrow> None | _ # _ \<Rightarrow> Some (last m))"

definition map_sorted :: "('k :: linorder, 'v) ladder \<Rightarrow> bool" where
  "map_sorted m \<longleftrightarrow> sorted_wrt (<) (map fst m)"

lemma map_put_filter:
  "map_sorted m \<Longrightarrow>
   map_put k v m = filter (\<lambda>e. fst e < k) m @ (k, v) # filter (\<lambda>e. k < fst e) m"
proof (induction m)
  case Nil
  then show ?case by simp
next
  case (Cons e m)
  then have *: "\<And>x. x \<in> set m \<Longrightarrow> fst e < fst x" and "map_sorted m"
    by (auto simp: map_sorted_def)
  have above: "filter (\<lambda>x. fst x < k) m = []" "filter (\<lambda>x. k < fst x) m = m" if "k \<le> fst e"
    using that * by (auto simp: filter_empty_conv filter_id_conv not_less intro: order.strict_trans1)
      (metis less_imp_le order.trans)
  show ?case
    using Cons.IH \<open>map_sorted m\<close> above by (cases "k < fst e"; cases "fst e < k") auto
qed

lemma map_sorted_filter: "map_sorted m \<Longrightarrow> map_sorted (filter P m)"
  unfolding map_sorted_def sorted_wrt_map by (rule sorted_wrt_filter)

lemma map_sorted_put: "map_sorted m \<Longrightarrow> map_sorted (map_put k v m)"
  using map_sorted_filter [of m "\<lambda>e. fst e < k"] map_sorted_filter [of m "\<lambda>e. k < fst e"]
  by (auto simp: map_put_filter map_sorted_def sorted_wrt_append)

lemma set_map_put: "set (map_put k v m) \<subseteq> insert (k, v) (set m)"
  by (induction m) auto

lemma map_sorted_erase: "map_sorted m \<Longrightarrow> map_sorted (map_erase k m)"
  by (simp add: map_erase_def map_sorted_filter)

lemma map_sorted_distinct: "map_sorted m \<Longrightarrow> distinct (map fst m)"
  by (simp add: map_sorted_def strict_sorted_iff)

lemma map_sorted_Nil [simp]: "map_sorted []"
  by (simp add: map_sorted_def)

section \<open>The interface of one side of the book\<close>

locale priority_ladder =
  fixes better :: "'k \<Rightarrow> 'k \<Rightarrow> bool"
    and invar :: "'m \<Rightarrow> bool"
    and levels :: "'m \<Rightarrow> ('k \<times> 'v) list"
    and find :: "'k \<Rightarrow> 'm \<Rightarrow> 'v option"
    and put :: "'k \<Rightarrow> 'v \<Rightarrow> 'm \<Rightarrow> 'm"
    and erase :: "'k \<Rightarrow> 'm \<Rightarrow> 'm"
    and best :: "'m \<Rightarrow> ('k \<times> 'v) option"
  assumes better_asym: "better a b \<Longrightarrow> \<not> better b a"
    and better_trans: "better a b \<Longrightarrow> better b c \<Longrightarrow> better a c"
    and better_total: "a \<noteq> b \<Longrightarrow> better a b \<or> better b a"
    and levels_sorted: "invar m \<Longrightarrow> sorted_wrt better (map fst (levels m))"
    and find_levels: "invar m \<Longrightarrow> find k m = map_of (levels m) k"
    and put_levels: "invar m \<Longrightarrow>
      levels (put k v m) =
        filter (\<lambda>e. better (fst e) k) (levels m) @ (k, v) # filter (\<lambda>e. better k (fst e)) (levels m)"
    and erase_levels: "levels (erase k m) = filter (\<lambda>e. fst e \<noteq> k) (levels m)"
    and best_levels: "best m = (case levels m of [] \<Rightarrow> None | e # _ \<Rightarrow> Some e)"
    and invar_put: "invar m \<Longrightarrow> invar (put k v m)"
    and invar_erase: "invar m \<Longrightarrow> invar (erase k m)"
begin

lemma better_irrefl [simp]: "\<not> better a a"
  using better_asym by blast

lemma better_neq: "better a b \<Longrightarrow> a \<noteq> b"
  by auto

lemma split_sorted:
  assumes "sorted_wrt better (map fst xs)"
  shows "xs = filter (\<lambda>e. better (fst e) k) xs @ filter (\<lambda>e. fst e = k) xs @
           filter (\<lambda>e. better k (fst e)) xs"
  using assms
proof (induction xs)
  case Nil
  then show ?case by simp
next
  case (Cons e xs)
  then have rest: "xs = filter (\<lambda>e. better (fst e) k) xs @ filter (\<lambda>e. fst e = k) xs @
      filter (\<lambda>e. better k (fst e)) xs"
    and tl: "\<And>x. x \<in> set xs \<Longrightarrow> better (fst e) (fst x)" by auto
  consider "better (fst e) k" | "fst e = k" | "better k (fst e)"
    using better_total by blast
  then show ?case
  proof cases
    case 1
    then show ?thesis using rest by (auto dest: better_asym)
  next
    case 2
    with tl have "filter (\<lambda>e. better (fst e) k) xs = []"
      by (auto simp: filter_empty_conv dest: better_asym)
    with 2 rest show ?thesis by auto
  next
    case 3
    with tl have "filter (\<lambda>e. better (fst e) k) xs = []" "filter (\<lambda>e. fst e = k) xs = []"
      by (auto simp: filter_empty_conv dest: better_asym better_trans)
    with 3 rest show ?thesis by (auto dest: better_asym)
  qed
qed

lemma distinct_levels: "invar m \<Longrightarrow> distinct (map fst (levels m))"
proof -
  have "sorted_wrt better ks \<Longrightarrow> distinct ks" for ks
    by (induction ks) (auto dest: better_neq)
  then show "invar m \<Longrightarrow> ?thesis" by (simp add: levels_sorted)
qed

lemma filter_key:
  assumes "invar m"
  shows "filter (\<lambda>e. fst e = k) (levels m) = (case find k m of None \<Rightarrow> [] | Some v \<Rightarrow> [(k, v)])"
proof -
  have "distinct (map fst xs) \<Longrightarrow>
    filter (\<lambda>e. fst e = k) xs = (case map_of xs k of None \<Rightarrow> [] | Some v \<Rightarrow> [(k, v)])" for xs
    by (induction xs) (auto simp: filter_empty_conv image_iff split: option.splits)
  from this [OF distinct_levels [OF assms]] show ?thesis using assms by (simp add: find_levels)
qed

lemma levels_split:
  assumes "invar m"
  shows "levels m = filter (\<lambda>e. better (fst e) k) (levels m) @
    (case find k m of None \<Rightarrow> [] | Some v \<Rightarrow> [(k, v)]) @ filter (\<lambda>e. better k (fst e)) (levels m)"
  using split_sorted [OF levels_sorted [OF assms], of k] filter_key [OF assms, of k] by simp

lemma find_put:
  assumes "invar m"
  shows "find q (put k v m) = (if q = k then Some v else find q m)"
proof -
  consider "q = k" | "better q k" | "better k q"
    using better_total by blast
  then show ?thesis
    using assms
    by cases (auto simp: find_levels invar_put put_levels map_add_def
        map_of_filter_fst [where P = "\<lambda>q. better q k"] map_of_filter_fst [where P = "better k"]
        dest: better_asym split: option.splits)
qed

lemma best_None_iff: "best m = None \<longleftrightarrow> levels m = []"
  by (simp add: best_levels split: list.splits)

lemma best_in_levels: "best m = Some (k, v) \<Longrightarrow> (k, v) \<in> set (levels m)"
  by (auto simp: best_levels split: list.splits)

lemma best_is_best:
  "invar m \<Longrightarrow> best m = Some (k, v) \<Longrightarrow> (q, w) \<in> set (levels m) \<Longrightarrow> q = k \<or> better k q"
  using levels_sorted [of m] by (force simp: best_levels split: list.splits)

lemma find_best: "invar m \<Longrightarrow> best m = Some (k, v) \<Longrightarrow> find k m = Some v"
  by (auto simp: best_levels find_levels split: list.splits)

end

section \<open>The priority queue that a ladder of queues amounts to\<close>

text \<open>
  All items of a ladder with their keys, in ladder order and, within a level, in queue order; and
  what it means for a new item to take its place by key first and arrival second.
\<close>

definition flat :: "('v \<Rightarrow> 'a list) \<Rightarrow> ('k \<times> 'v) list \<Rightarrow> ('k \<times> 'a) list" where
  "flat items ls = concat (map (\<lambda>(k, v). map (Pair k) (items v)) ls)"

definition enqueue :: "('k \<Rightarrow> 'k \<Rightarrow> bool) \<Rightarrow> 'k \<Rightarrow> 'a \<Rightarrow> ('k \<times> 'a) list \<Rightarrow> ('k \<times> 'a) list" where
  "enqueue better k x xs =
     filter (\<lambda>e. \<not> better k (fst e)) xs @ (k, x) # filter (\<lambda>e. better k (fst e)) xs"

lemma flat_simps [simp]:
  "flat items [] = []"
  "flat items ((k, v) # ls) = map (Pair k) (items v) @ flat items ls"
  "flat items (ls @ ls') = flat items ls @ flat items ls'"
  by (simp_all add: flat_def)

lemma flat_filter: "filter (\<lambda>e. P (fst e)) (flat items ls) = flat items (filter (\<lambda>e. P (fst e)) ls)"
  unfolding flat_def by (rule filter_fst_concat_tag)

lemma set_flat: "(k, x) \<in> set (flat items ls) \<longleftrightarrow> (\<exists>v. (k, v) \<in> set ls \<and> x \<in> set (items v))"
  by (auto simp: flat_def)

lemma set_flat_rev [simp]: "set (flat items (rev m)) = set (flat items m)"
  by (auto simp: set_flat)

lemma distinct_flat_rev: "distinct (map snd (flat items (rev m))) = distinct (map snd (flat items m))"
proof (induction m)
  case Nil
  then show ?case by simp
next
  case (Cons e m)
  moreover have "set (map snd (flat items (rev m))) = set (map snd (flat items m))" by simp
  ultimately show ?case by (cases e) (auto simp: distinct_append simp del: set_map)
qed

lemma set_enqueue [simp]: "set (enqueue better k x xs) = insert (k, x) (set xs)"
  by (auto simp: enqueue_def)

locale price_time_ladder = priority_ladder better invar levels find put erase best
  for better :: "'k \<Rightarrow> 'k \<Rightarrow> bool" and invar :: "'m \<Rightarrow> bool"
    and levels :: "'m \<Rightarrow> ('k \<times> 'v) list" and find :: "'k \<Rightarrow> 'm \<Rightarrow> 'v option"
    and put :: "'k \<Rightarrow> 'v \<Rightarrow> 'm \<Rightarrow> 'm" and erase :: "'k \<Rightarrow> 'm \<Rightarrow> 'm"
    and best :: "'m \<Rightarrow> ('k \<times> 'v) option" +
  fixes items :: "'v \<Rightarrow> 'a list"
begin

lemma flat_split:
  assumes "invar m"
  shows "flat items (levels m) =
    filter (\<lambda>e. better (fst e) k) (flat items (levels m)) @
    (case find k m of None \<Rightarrow> [] | Some v \<Rightarrow> map (Pair k) (items v)) @
    filter (\<lambda>e. better k (fst e)) (flat items (levels m))"
  by (subst levels_split [OF assms, of k])
    (simp add: flat_filter [where P = "\<lambda>q. better q k"] flat_filter [where P = "better k"]
      split: option.split)

lemma flat_put:
  assumes "invar m"
  shows "flat items (levels (put k v m)) =
    filter (\<lambda>e. better (fst e) k) (flat items (levels m)) @ map (Pair k) (items v) @
    filter (\<lambda>e. better k (fst e)) (flat items (levels m))"
  using assms by (simp add: put_levels flat_filter [where P = "\<lambda>q. better q k"]
      flat_filter [where P = "better k"])

lemma filter_not_better:
  assumes "invar m"
  shows "filter (\<lambda>e. \<not> better k (fst e)) (flat items (levels m)) =
    filter (\<lambda>e. better (fst e) k) (flat items (levels m)) @
    (case find k m of None \<Rightarrow> [] | Some v \<Rightarrow> map (Pair k) (items v))"
proof -
  let ?xs = "flat items (levels m)"
  have "filter (\<lambda>e. \<not> better k (fst e)) ?xs =
      filter (\<lambda>e. \<not> better k (fst e)) (filter (\<lambda>e. better (fst e) k) ?xs) @
      filter (\<lambda>e. \<not> better k (fst e)) (case find k m of None \<Rightarrow> [] | Some v \<Rightarrow> map (Pair k) (items v)) @
      filter (\<lambda>e. \<not> better k (fst e)) (filter (\<lambda>e. better k (fst e)) ?xs)"
    by (subst flat_split [OF assms, of k]) simp
  moreover have "filter (\<lambda>e. \<not> better k (fst e)) (filter (\<lambda>e. better (fst e) k) ?xs) =
      filter (\<lambda>e. better (fst e) k) ?xs"
    by (auto simp: filter_filter dest: better_asym intro!: filter_cong)
  ultimately show ?thesis
    by (simp add: filter_map o_def split: option.splits)
qed

text \<open>Appending to the queue of its level puts an item behind every item that is not worse.\<close>

lemma flat_put_append:
  assumes "invar m"
    and "items v' = (case find k m of None \<Rightarrow> [] | Some v \<Rightarrow> items v) @ [x]"
  shows "flat items (levels (put k v' m)) = enqueue better k x (flat items (levels m))"
  using assms by (simp add: flat_put enqueue_def filter_not_better split: option.split)

text \<open>Taking items out of one level takes them out of the whole queue.\<close>

lemma flat_put_filter:
  assumes "invar m" and "find k m = Some v"
    and "items v' = filter (\<lambda>x. P (k, x)) (items v)"
    and "\<And>e. e \<in> set (flat items (levels m)) \<Longrightarrow> fst e \<noteq> k \<Longrightarrow> P e"
  shows "flat items (levels (put k v' m)) = filter P (flat items (levels m))"
proof -
  let ?xs = "flat items (levels m)"
  have "filter P ?xs = filter P (filter (\<lambda>e. better (fst e) k) ?xs) @
      filter P (map (Pair k) (items v)) @ filter P (filter (\<lambda>e. better k (fst e)) ?xs)"
    using assms(2) by (subst flat_split [OF assms(1), of k]) simp
  moreover have "filter P (filter (\<lambda>e. better (fst e) k) ?xs) = filter (\<lambda>e. better (fst e) k) ?xs"
    "filter P (filter (\<lambda>e. better k (fst e)) ?xs) = filter (\<lambda>e. better k (fst e)) ?xs"
    using assms(4) by (auto simp: filter_filter dest: better_neq intro!: filter_cong)
  ultimately show ?thesis
    using assms(1,3) by (simp add: flat_put filter_map o_def)
qed

lemma flat_erase_empty:
  assumes "invar m" and "find k m = Some v" and "items v = []"
  shows "flat items (levels (erase k m)) = flat items (levels m)"
proof -
  have "(k, x) \<notin> set (flat items (levels m))" for x
  proof
    assume "(k, x) \<in> set (flat items (levels m))"
    then obtain w where "(k, w) \<in> set (levels m)" and x: "x \<in> set (items w)"
      by (auto simp: set_flat)
    then have "find k m = Some w"
      using assms(1) distinct_levels [OF assms(1)] by (simp add: find_levels)
    with assms(2,3) x show False by simp
  qed
  then have "filter (\<lambda>e. fst e \<noteq> k) (flat items (levels m)) = flat items (levels m)"
    by (auto simp: filter_id_conv)
  then show ?thesis
    by (simp add: erase_levels flat_filter [where P = "\<lambda>q. q \<noteq> k", symmetric])
qed

lemma best_head:
  "best m = Some (k, v) \<Longrightarrow> items v = x # xs \<Longrightarrow>
   \<exists>rest. flat items (levels m) = (k, x) # rest"
  by (auto simp: best_levels split: list.splits)

lemma in_flat_find:
  "invar m \<Longrightarrow> (k, x) \<in> set (flat items (levels m)) \<longleftrightarrow> (\<exists>v. find k m = Some v \<and> x \<in> set (items v))"
  by (auto simp: set_flat find_levels distinct_levels)

lemma flat_sorted: "invar m \<Longrightarrow> sorted_wrt (\<lambda>a b. \<not> better (fst b) (fst a)) (flat items (levels m))"
proof -
  have "sorted_wrt better (map fst ls) \<Longrightarrow>
    sorted_wrt (\<lambda>a b. \<not> better (fst b) (fst a)) (flat items ls)" for ls
  proof (induction ls)
    case Nil
    then show ?case by simp
  next
    case (Cons e ls)
    then show ?case
      by (cases e) (fastforce simp: sorted_wrt_append sorted_wrt_map set_flat dest: better_asym)
  qed
  then show "invar m \<Longrightarrow> ?thesis" by (simp add: levels_sorted)
qed

end

section \<open>The two sides of a book\<close>

text \<open>Asks are ordered as the map is, bids the other way round.\<close>

interpretation asks: priority_ladder "\<lambda>a b. (a :: 'k :: linorder) < b" map_sorted "\<lambda>m. m"
  map_find map_put map_erase map_begin
proof
  fix m :: "('k, 'v) ladder" and k v
  show "map_sorted m \<Longrightarrow> map_put k v m =
      filter (\<lambda>e. fst e < k) m @ (k, v) # filter (\<lambda>e. k < fst e) m"
    by (rule map_put_filter)
qed (auto simp: map_sorted_def map_find_def map_erase_def map_begin_def map_sorted_put
    map_sorted_erase map_sorted_filter simp flip: map_sorted_def)

interpretation bids: priority_ladder "\<lambda>a b. (a :: 'k :: linorder) > b" map_sorted rev
  map_find map_put map_erase map_rbegin
proof
  fix m :: "('k, 'v) ladder" and k v
  show "map_sorted m \<Longrightarrow> rev (map_put k v m) =
      filter (\<lambda>e. k < fst e) (rev m) @ (k, v) # filter (\<lambda>e. fst e < k) (rev m)"
    by (simp add: map_put_filter rev_filter)
  show "map_sorted m \<Longrightarrow> sorted_wrt (\<lambda>a b. b < a) (map fst (rev m))"
    by (simp add: map_sorted_def sorted_wrt_rev flip: rev_map)
  show "map_sorted m \<Longrightarrow> map_find k m = map_of (rev m) k"
    by (simp add: map_find_def map_of_rev_distinct map_sorted_distinct)
  show "map_rbegin m = (case rev m of [] \<Rightarrow> None | e # _ \<Rightarrow> Some e)"
    by (cases m rule: rev_cases) (auto simp: map_rbegin_def split: list.split dest: arg_cong [of _ _ last])
qed (auto simp: map_erase_def rev_filter map_sorted_put map_sorted_erase map_sorted_filter)

end
