(* ===== verification/Price_Level.thy ===== *)
theory Price_Level
  imports Orders Ladder
begin

text \<open>
  Class \<open>PriceLevel\<close> of \<open>include/order_matching/OrderBook.hpp\<close>: the queue of the orders at one price.
  The vector holds pointers, so the orders themselves live in the heap that the operations read.
\<close>

type_synonym heap = "addr \<rightharpoonup> order"

record price_level =
  orders :: "addr list"
  total_quantity :: qty
  order_count :: "64 word"

definition PriceLevel_new :: price_level where
  "PriceLevel_new = \<lparr>orders = [], total_quantity = 0, order_count = 0\<rparr>"

definition level_addOrder :: "heap \<Rightarrow> addr \<Rightarrow> price_level \<Rightarrow> price_level res" where
  "level_addOrder h p l =
     andThen (deref h p) (\<lambda>od.
       Inr (l\<lparr>orders := orders l @ [p],
              total_quantity := total_quantity l + quantity od,
              order_count := order_count l + 1\<rparr>))"

text \<open>
  The search loop of \<open>removeOrder\<close>: the first order with the id, read through its pointer, and the
  vector after \<open>erase\<close>; nothing where no order has the id.
\<close>

fun find_and_erase :: "heap \<Rightarrow> order_ident \<Rightarrow> addr list \<Rightarrow> (order \<times> addr list) option res" where
  "find_and_erase h i [] = Inr None"
| "find_and_erase h i (p # ps) =
     andThen (deref h p) (\<lambda>od.
       if order_id od = i then Inr (Some (od, ps))
       else andThen (find_and_erase h i ps) (\<lambda>r. Inr (map_option (\<lambda>(x, qs). (x, p # qs)) r)))"

definition level_removeOrder ::
  "heap \<Rightarrow> order_ident \<Rightarrow> price_level \<Rightarrow> (bool \<times> price_level) res" where
  "level_removeOrder h i l =
     andThen (find_and_erase h i (orders l)) (\<lambda>r.
       case r of
         None \<Rightarrow> Inr (False, l)
       | Some (od, ps) \<Rightarrow>
           Inr (True, l\<lparr>orders := ps, total_quantity := total_quantity l - quantity od,
                        order_count := order_count l - 1\<rparr>))"

definition getBestOrder :: "price_level \<Rightarrow> addr option" where
  "getBestOrder l = (case orders l of [] \<Rightarrow> None | p # _ \<Rightarrow> Some p)"

definition getTotalQuantity :: "price_level \<Rightarrow> qty" where
  "getTotalQuantity l = total_quantity l"

definition level_isEmpty :: "price_level \<Rightarrow> bool" where
  "level_isEmpty l \<longleftrightarrow> orders l = []"

definition getOrders :: "price_level \<Rightarrow> addr list" where
  "getOrders l = orders l"

section \<open>The queue of a level\<close>

lemma PriceLevel_new_sel [simp]:
  "orders PriceLevel_new = []" "total_quantity PriceLevel_new = 0" "order_count PriceLevel_new = 0"
  by (simp_all add: PriceLevel_new_def)

text \<open>The ids of the orders behind some pointers, all of which are live.\<close>

definition all_live :: "heap \<Rightarrow> addr list \<Rightarrow> bool" where
  "all_live h ps \<longleftrightarrow> (\<forall>p \<in> set ps. h p \<noteq> None)"

definition ident_at :: "heap \<Rightarrow> addr \<Rightarrow> order_ident" where
  "ident_at h p = order_id (the (h p))"

lemma find_and_erase_none:
  "all_live h ps \<Longrightarrow> i \<notin> ident_at h ` set ps \<Longrightarrow> find_and_erase h i ps = Inr None"
  by (induction ps) (auto simp: all_live_def ident_at_def)

text \<open>With distinct ids, erasing the first order with an id is filtering the id out.\<close>

lemma find_and_erase_some:
  assumes "all_live h ps" and "distinct (map (ident_at h) ps)" and "p \<in> set ps" and "h p = Some od"
  shows "find_and_erase h (order_id od) ps =
    Inr (Some (od, filter (\<lambda>q. ident_at h q \<noteq> order_id od) ps))"
  using assms
proof (induction ps)
  case Nil
  then show ?case by simp
next
  case (Cons q ps)
  then obtain oq where q: "h q = Some oq" by (auto simp: all_live_def)
  show ?case
  proof (cases "order_id oq = order_id od")
    case True
    with Cons.prems q have "order_id od \<notin> ident_at h ` set ps"
      by (force simp: ident_at_def)
    moreover from this Cons.prems have "p = q"
      by (auto simp: ident_at_def intro: rev_image_eqI)
    moreover from calculation(1) have "filter (\<lambda>r. ident_at h r \<noteq> order_id od) ps = ps"
      unfolding filter_id_conv by (metis imageI)
    ultimately show ?thesis
      using True q Cons.prems(4) by (simp add: ident_at_def)
  next
    case False
    with Cons.prems q have "p \<in> set ps" by auto
    with Cons.IH Cons.prems False q show ?thesis
      by (simp add: all_live_def ident_at_def)
  qed
qed

text \<open>The cached totals of a level agree with its queue.\<close>

definition level_count_ok :: "price_level \<Rightarrow> bool" where
  "level_count_ok l \<longleftrightarrow> order_count l = of_nat (length (orders l))"

definition level_total_ok :: "heap \<Rightarrow> price_level \<Rightarrow> bool" where
  "level_total_ok h l \<longleftrightarrow> total_quantity l = sum_list (map (\<lambda>p. quantity (the (h p))) (orders l))"

lemma level_addOrder_live:
  "h p = Some od \<Longrightarrow> level_addOrder h p l =
     Inr (l\<lparr>orders := orders l @ [p], total_quantity := total_quantity l + quantity od,
            order_count := order_count l + 1\<rparr>)"
  by (simp add: level_addOrder_def)

lemma level_addOrder_counts:
  "level_addOrder h p l = Inr l' \<Longrightarrow> level_count_ok l \<Longrightarrow> level_count_ok l'"
  "level_addOrder h p l = Inr l' \<Longrightarrow> level_total_ok h l \<Longrightarrow> level_total_ok h l'"
  by (auto simp: level_addOrder_def andThen_eq_Inr_iff deref_eq_Inr_iff level_count_ok_def
      level_total_ok_def)

lemma find_and_erase_sums:
  "find_and_erase h i ps = Inr (Some (od, qs)) \<Longrightarrow>
   length ps = Suc (length qs) \<and>
   sum_list (map (\<lambda>p. quantity (the (h p))) ps) =
     quantity od + sum_list (map (\<lambda>p. quantity (the (h p))) qs)"
proof (induction ps arbitrary: qs)
  case Nil
  then show ?case by simp
next
  case (Cons p ps)
  then show ?case
    by (auto simp: andThen_eq_Inr_iff deref_eq_Inr_iff algebra_simps split: if_splits)
qed

lemma level_removeOrder_counts:
  assumes "level_removeOrder h i l = Inr (b, l')"
  shows "level_count_ok l \<Longrightarrow> level_count_ok l'"
    and "level_total_ok h l \<Longrightarrow> level_total_ok h l'"
  using assms
  by (auto simp: level_removeOrder_def andThen_eq_Inr_iff level_count_ok_def level_total_ok_def
      split: option.splits dest!: find_and_erase_sums)

lemma level_removeOrder_found:
  assumes "all_live h (orders l)" and "distinct (map (ident_at h) (orders l))"
    and "p \<in> set (orders l)" and "h p = Some od"
  obtains l' where "level_removeOrder h (order_id od) l = Inr (True, l')"
    and "orders l' = filter (\<lambda>q. ident_at h q \<noteq> order_id od) (orders l)"
  using that find_and_erase_some [OF assms] by (simp add: level_removeOrder_def)

lemma find_and_erase_last:
  assumes "all_live h ps" and "order_id od \<notin> ident_at h ` set ps" and "h p = Some od"
  shows "find_and_erase h (order_id od) (ps @ [p]) = Inr (Some (od, ps))"
  using assms
proof (induction ps)
  case (Cons q ps)
  then obtain oq where "h q = Some oq" by (auto simp: all_live_def)
  with Cons show ?case by (auto simp: all_live_def ident_at_def)
qed simp

text \<open>A level counts right as long as its orders do not change: adding an order appends it and adds its
  quantity and 1 to the totals (modulo \<open>2 ^ 32\<close> and \<open>2 ^ 64\<close>), the totals stay those of the queue, and
  removing the order again by its id restores the level exactly.\<close>

theorem level_add_remove:
  assumes "all_live h (orders l)" and "h p = Some od" and "order_id od \<notin> ident_at h ` set (orders l)"
    and "level_count_ok l" and "level_total_ok h l"
  shows "\<exists>l'. level_addOrder h p l = Inr l' \<and> getOrders l' = getOrders l @ [p] \<and>
    getTotalQuantity l' = getTotalQuantity l + quantity od \<and>
    level_count_ok l' \<and> level_total_ok h l' \<and> level_removeOrder h (order_id od) l' = Inr (True, l)"
proof -
  let ?l = "l\<lparr>orders := orders l @ [p], total_quantity := total_quantity l + quantity od,
      order_count := order_count l + 1\<rparr>"
  have add: "level_addOrder h p l = Inr ?l" using assms(2) by (rule level_addOrder_live)
  have "level_removeOrder h (order_id od) ?l = Inr (True, l)"
    using find_and_erase_last [OF assms(1,3,2)] by (simp add: level_removeOrder_def)
  with add level_addOrder_counts [OF add] assms(4,5) show ?thesis
    by (simp add: getOrders_def getTotalQuantity_def)
qed

theorem level_add_remove_witness:
  "\<exists>l'. level_addOrder [7 \<mapsto> Order_new 1 True 5 0 0 0] 7 PriceLevel_new = Inr l' \<and> getTotalQuantity l' = 5 \<and>
     level_removeOrder [7 \<mapsto> Order_new 1 True 5 0 0 0] 1 l' = Inr (True, PriceLevel_new)"
proof -
  let ?h = "[7 \<mapsto> Order_new 1 True 5 0 0 0]"
  have "all_live ?h (orders PriceLevel_new)" "?h 7 = Some (Order_new 1 True 5 0 0 0)"
    "order_id (Order_new 1 True 5 0 0 0) \<notin> ident_at ?h ` set (orders PriceLevel_new)"
    "level_count_ok PriceLevel_new" "level_total_ok ?h PriceLevel_new"
    by (simp_all add: all_live_def level_count_ok_def level_total_ok_def)
  from level_add_remove [OF this] show ?thesis by (auto simp: getTotalQuantity_def)
qed

end
