(* ===== verification/Timestamp.thy ===== *)
theory Timestamp
  imports Int64
begin

unbundle bit_operations_syntax

text \<open>
  \<open>include/utils/Timestamp.hpp\<close>: the readings of the clocks and the timers on them. What
  \<open>clock_gettime\<close> and \<open>rdtsc\<close> answer is decided outside the program, so the state carries for every
  clock the sequence of its future readings and how many have been taken.
\<close>

record timespec =
  tv_sec :: i64
  tv_nsec :: i64

record clocks =
  realtime :: "nat \<Rightarrow> timespec"
  realtime_reads :: nat
  monotonic :: "nat \<Rightarrow> timespec"
  monotonic_reads :: nat
  tsc :: "nat \<Rightarrow> 64 word"
  tsc_reads :: nat

definition clock_gettime_realtime :: "clocks \<Rightarrow> timespec \<times> clocks" where
  "clock_gettime_realtime c =
     (realtime c (realtime_reads c), c\<lparr>realtime_reads := Suc (realtime_reads c)\<rparr>)"

definition clock_gettime_monotonic :: "clocks \<Rightarrow> timespec \<times> clocks" where
  "clock_gettime_monotonic c =
     (monotonic c (monotonic_reads c), c\<lparr>monotonic_reads := Suc (monotonic_reads c)\<rparr>)"

section \<open>Cycle counter\<close>

definition rdtsc :: "clocks \<Rightarrow> 64 word \<times> clocks" where
  "rdtsc c = (tsc c (tsc_reads c), c\<lparr>tsc_reads := Suc (tsc_reads c)\<rparr>)"

text \<open>The inline assembly leaves the counter in two 32-bit halves.\<close>

definition rdtsc_halves :: "32 word \<Rightarrow> 32 word \<Rightarrow> 64 word" where
  "rdtsc_halves lo hi = push_bit 32 (ucast hi) OR ucast lo"

text \<open>The serialising read returns the same counter; the processor number that comes with it is discarded.\<close>

definition rdtscp :: "clocks \<Rightarrow> 64 word \<times> clocks" where
  "rdtscp c = rdtsc c"

section \<open>Wall clock and monotonic clock\<close>

text \<open>\<open>ts.tv_sec * 1'000'000'000LL + ts.tv_nsec\<close>.\<close>

definition timespec_ns :: "timespec \<Rightarrow> i64 res" where
  "timespec_ns ts =
     andThen (i64_mul (tv_sec ts) (i64_of 1000000000)) (\<lambda>s. i64_add s (tv_nsec ts))"

definition getTimestampNs :: "clocks \<Rightarrow> (i64 \<times> clocks) res" where
  "getTimestampNs c =
     (let (ts, c') = clock_gettime_realtime c in andThen (timespec_ns ts) (\<lambda>t. Inr (t, c')))"

definition getTimestampUs :: "clocks \<Rightarrow> (i64 \<times> clocks) res" where
  "getTimestampUs c = andThen (getTimestampNs c) (\<lambda>(t, c'). Inr (i64_quot t 1000, c'))"

definition getMonotonicNs :: "clocks \<Rightarrow> (i64 \<times> clocks) res" where
  "getMonotonicNs c =
     (let (ts, c') = clock_gettime_monotonic c in andThen (timespec_ns ts) (\<lambda>t. Inr (t, c')))"

text \<open>Where there is no time-stamp counter, the monotonic clock stands in for it.\<close>

definition rdtsc_portable :: "clocks \<Rightarrow> (64 word \<times> clocks) res" where
  "rdtsc_portable c =
     (let (ts, c') = clock_gettime_monotonic c
      in andThen (timespec_ns ts) (\<lambda>t. Inr (word_of_int (ival t), c')))"

section \<open>Timers\<close>

record latency_timer_rdtsc =
  start_cycles :: "64 word"

definition LatencyTimerRDTSC_new :: "clocks \<Rightarrow> latency_timer_rdtsc \<times> clocks" where
  "LatencyTimerRDTSC_new c = (let (t, c') = rdtsc c in (\<lparr>start_cycles = t\<rparr>, c'))"

definition elapsedCycles :: "latency_timer_rdtsc \<Rightarrow> clocks \<Rightarrow> 64 word \<times> clocks" where
  "elapsedCycles tm c = (let (t, c') = rdtsc c in (t - start_cycles tm, c'))"

definition LatencyTimerRDTSC_reset ::
  "latency_timer_rdtsc \<Rightarrow> clocks \<Rightarrow> latency_timer_rdtsc \<times> clocks" where
  "LatencyTimerRDTSC_reset tm c = (let (t, c') = rdtsc c in (tm\<lparr>start_cycles := t\<rparr>, c'))"

record latency_timer =
  start_ns :: i64

definition LatencyTimer_new :: "clocks \<Rightarrow> (latency_timer \<times> clocks) res" where
  "LatencyTimer_new c = andThen (getMonotonicNs c) (\<lambda>(t, c'). Inr (\<lparr>start_ns = t\<rparr>, c'))"

definition elapsedNs :: "latency_timer \<Rightarrow> clocks \<Rightarrow> (i64 \<times> clocks) res" where
  "elapsedNs tm c =
     andThen (getMonotonicNs c) (\<lambda>(t, c'). andThen (i64_sub t (start_ns tm)) (\<lambda>d. Inr (d, c')))"

definition elapsedUs :: "latency_timer \<Rightarrow> clocks \<Rightarrow> (i64 \<times> clocks) res" where
  "elapsedUs tm c = andThen (elapsedNs tm c) (\<lambda>(d, c'). Inr (i64_quot d 1000, c'))"

definition LatencyTimer_reset :: "latency_timer \<Rightarrow> clocks \<Rightarrow> (latency_timer \<times> clocks) res" where
  "LatencyTimer_reset tm c = andThen (getMonotonicNs c) (\<lambda>(t, c'). Inr (tm\<lparr>start_ns := t\<rparr>, c'))"

section \<open>What the clocks promise\<close>

text \<open>
  POSIX: the nanoseconds are below one billion. The seconds are bounded so that the count of
  nanoseconds since the epoch fits into 63 bits, which holds until the year 2262.
\<close>

definition valid_timespec :: "timespec \<Rightarrow> bool" where
  "valid_timespec ts \<longleftrightarrow>
     0 \<le> ival (tv_sec ts) \<and> ival (tv_sec ts) \<le> 9223372035 \<and>
     0 \<le> ival (tv_nsec ts) \<and> ival (tv_nsec ts) < 1000000000"

definition clocks_ok :: "clocks \<Rightarrow> bool" where
  "clocks_ok c \<longleftrightarrow> (\<forall>n. valid_timespec (realtime c n)) \<and> (\<forall>n. valid_timespec (monotonic c n))"

definition timespec_value :: "timespec \<Rightarrow> int" where
  "timespec_value ts = ival (tv_sec ts) * 1000000000 + ival (tv_nsec ts)"

lemma timespec_value_bounds:
  "valid_timespec ts \<Longrightarrow> 0 \<le> timespec_value ts \<and> timespec_value ts < 2 ^ 63"
  by (simp add: valid_timespec_def timespec_value_def)

lemma timespec_ns_valid:
  assumes "valid_timespec ts"
  shows "timespec_ns ts = Inr (i64_of (timespec_value ts))"
proof -
  from assms have "in_i64 (ival (tv_sec ts) * 1000000000)"
    and "in_i64 (ival (tv_sec ts) * 1000000000 + ival (tv_nsec ts))"
    by (auto simp: valid_timespec_def in_i64_def)
  moreover have "ival (i64_of 1000000000) = 1000000000"
    by (simp add: in_i64_def)
  ultimately show ?thesis
    by (simp add: timespec_ns_def i64_mul_def i64_add_def timespec_value_def)
qed

lemma ival_timespec [simp]:
  "valid_timespec ts \<Longrightarrow> ival (i64_of (timespec_value ts)) = timespec_value ts"
  using timespec_value_bounds [of ts] by (simp add: in_i64_def)

text \<open>The wall-clock time that the next reading will give.\<close>

definition clock_now :: "clocks \<Rightarrow> i64" where
  "clock_now c = i64_of (timespec_value (realtime c (realtime_reads c)))"

lemma getTimestampNs_ok:
  "clocks_ok c \<Longrightarrow>
   getTimestampNs c =
     Inr (clock_now c, c\<lparr>realtime_reads := Suc (realtime_reads c)\<rparr>)"
  by (simp add: clock_now_def getTimestampNs_def clock_gettime_realtime_def clocks_ok_def timespec_ns_valid)

lemma getMonotonicNs_ok:
  "clocks_ok c \<Longrightarrow>
   getMonotonicNs c =
     Inr (i64_of (timespec_value (monotonic c (monotonic_reads c))),
          c\<lparr>monotonic_reads := Suc (monotonic_reads c)\<rparr>)"
  by (simp add: getMonotonicNs_def clock_gettime_monotonic_def clocks_ok_def timespec_ns_valid)

lemma clocks_ok_reads [simp]:
  "clocks_ok (c\<lparr>realtime_reads := n\<rparr>) = clocks_ok c"
  "clocks_ok (c\<lparr>monotonic_reads := n\<rparr>) = clocks_ok c"
  "clocks_ok (c\<lparr>tsc_reads := n\<rparr>) = clocks_ok c"
  by (simp_all add: clocks_ok_def)

lemma getTimestampNs_total:
  assumes "clocks_ok c"
  obtains t c' where "getTimestampNs c = Inr (t, c')" and "clocks_ok c'" and "0 \<le> ival t"
proof -
  have "valid_timespec (realtime c (realtime_reads c))"
    using assms by (simp add: clocks_ok_def)
  then show ?thesis
    using assms that timespec_value_bounds by (simp add: getTimestampNs_ok clock_now_def)
qed

section \<open>What the timers promise\<close>

text \<open>A clock set for examples: one second later at every reading, counters at 1000 cycles per reading.\<close>

definition tick_count :: "nat \<Rightarrow> int" where
  "tick_count n = int (min n 9000000000)"

definition ticking_clocks :: clocks where
  "ticking_clocks = \<lparr>
     realtime = (\<lambda>n. \<lparr>tv_sec = i64_of (tick_count n), tv_nsec = 0\<rparr>), realtime_reads = 0,
     monotonic = (\<lambda>n. \<lparr>tv_sec = i64_of (tick_count n), tv_nsec = 0\<rparr>), monotonic_reads = 0,
     tsc = (\<lambda>n. of_nat (1000 * n)), tsc_reads = 0\<rparr>"

lemma tick_count_bounds [simp]: "0 \<le> tick_count n" "tick_count n \<le> 9223372035"
  by (simp_all add: tick_count_def)

lemma ival_ticks [simp]: "ival (i64_of (tick_count n)) = tick_count n"
proof (rule ival_i64_of)
  show "in_i64 (tick_count n)"
    using tick_count_bounds [of n] unfolding in_i64_def by (intro conjI) (simp_all del: tick_count_bounds)
qed

lemma tick_count_mono: "m \<le> n \<Longrightarrow> tick_count m \<le> tick_count n"
  by (simp add: tick_count_def)

lemma ticking_clocks_ok: "clocks_ok ticking_clocks"
  unfolding clocks_ok_def ticking_clocks_def valid_timespec_def by simp

text \<open>A \<open>LatencyTimer\<close> on a monotonic clock measures the exact number of nanoseconds between its
  construction and the reading, however many other readings lie between; the result is never negative
  and no subtraction overflows.\<close>

theorem elapsedNs_exact:
  assumes "clocks_ok c" and "mono (\<lambda>n. timespec_value (monotonic c n))"
  shows "\<exists>tm c1 d c2. LatencyTimer_new c = Inr (tm, c1) \<and>
    elapsedNs tm (c1\<lparr>monotonic_reads := monotonic_reads c1 + k\<rparr>) = Inr (d, c2) \<and>
    ival d = timespec_value (monotonic c (monotonic_reads c + 1 + k)) -
      timespec_value (monotonic c (monotonic_reads c)) \<and> 0 \<le> ival d"
proof -
  let ?c1 = "c\<lparr>monotonic_reads := Suc (monotonic_reads c)\<rparr>"
  let ?t = "\<lambda>n. timespec_value (monotonic c n)"
  have v: "valid_timespec (monotonic c n)" for n using assms(1) by (simp add: clocks_ok_def)
  have le: "?t (monotonic_reads c) \<le> ?t (monotonic_reads c + 1 + k)" using assms(2) by (rule monoD) simp
  have b: "0 \<le> ?t n" "?t n < 2 ^ 63" for n using timespec_value_bounds [OF v, of n] by simp_all
  have r: "in_i64 (?t (Suc (monotonic_reads c + k)) - ?t (monotonic_reads c))"
    using le b [of "monotonic_reads c"] b [of "Suc (monotonic_reads c + k)"] by (simp add: in_i64_def)
  have "LatencyTimer_new c = Inr (\<lparr>start_ns = i64_of (?t (monotonic_reads c))\<rparr>, ?c1)"
    using assms(1) by (simp add: LatencyTimer_new_def getMonotonicNs_ok)
  moreover have "elapsedNs \<lparr>start_ns = i64_of (?t (monotonic_reads c))\<rparr>
      (?c1\<lparr>monotonic_reads := monotonic_reads ?c1 + k\<rparr>) =
    Inr (i64_of (?t (Suc (monotonic_reads c + k)) - ?t (monotonic_reads c)),
      c\<lparr>monotonic_reads := Suc (Suc (monotonic_reads c + k))\<rparr>)"
    using assms(1) r v by (simp add: elapsedNs_def getMonotonicNs_ok i64_sub_def)
  ultimately show ?thesis using r le by simp
qed

theorem elapsedNs_exact_witness:
  "\<exists>tm c1 d c2. LatencyTimer_new ticking_clocks = Inr (tm, c1) \<and>
    elapsedNs tm (c1\<lparr>monotonic_reads := monotonic_reads c1 + 4\<rparr>) = Inr (d, c2) \<and> ival d = 5000000000"
proof -
  have "mono (\<lambda>n. timespec_value (monotonic ticking_clocks n))"
    by (rule monoI) (simp add: timespec_value_def ticking_clocks_def tick_count_mono)
  from elapsedNs_exact [OF ticking_clocks_ok this, of 4] show ?thesis
    by (auto simp: timespec_value_def ticking_clocks_def) (simp add: tick_count_def)
qed

text \<open>\<open>LatencyTimerRDTSC\<close> counts cycles correctly across a wrap-around of the 64-bit counter: when the
  counter shows the true cycle count modulo \<open>2 ^ 64\<close> and fewer than \<open>2 ^ 64\<close> cycles have passed, the
  difference of the two readings is the number of cycles passed.\<close>

theorem elapsedCycles_wraps_correctly:
  assumes "\<And>n. tsc c n = of_nat (cycles n)" and "mono cycles"
    and "cycles (tsc_reads c + 1 + k) - cycles (tsc_reads c) < 2 ^ 64"
  shows "let (tm, c1) = LatencyTimerRDTSC_new c in
    unat (fst (elapsedCycles tm (c1\<lparr>tsc_reads := tsc_reads c1 + k\<rparr>))) =
      cycles (tsc_reads c + 1 + k) - cycles (tsc_reads c)"
proof -
  have le: "cycles (tsc_reads c) \<le> cycles (Suc (tsc_reads c + k))" using assms(2) by (rule monoD) simp
  then have "(of_nat (cycles (Suc (tsc_reads c + k))) - of_nat (cycles (tsc_reads c)) :: 64 word) =
      of_nat (cycles (Suc (tsc_reads c + k)) - cycles (tsc_reads c))"
    by (simp add: of_nat_diff)
  moreover have "unat (of_nat (cycles (Suc (tsc_reads c + k)) - cycles (tsc_reads c)) :: 64 word) =
      cycles (Suc (tsc_reads c + k)) - cycles (tsc_reads c)"
    using assms(3) by (simp add: unat_of_nat)
  ultimately show ?thesis
    by (simp add: LatencyTimerRDTSC_new_def elapsedCycles_def rdtsc_def assms(1))
qed

theorem elapsedCycles_wraps_correctly_witness:
  "let (tm, c1) = LatencyTimerRDTSC_new (ticking_clocks\<lparr>tsc := \<lambda>n. of_nat (2 ^ 64 - 500 + 1000 * n)\<rparr>) in
    unat (fst (elapsedCycles tm (c1\<lparr>tsc_reads := tsc_reads c1 + 2\<rparr>))) = 3000"
proof -
  let ?cycles = "\<lambda>n. 2 ^ 64 - 500 + 1000 * n :: nat"
  have "mono ?cycles" by (rule monoI) simp
  moreover have "?cycles (0 + 1 + 2) - ?cycles 0 = 3000" by simp
  ultimately show ?thesis
    using elapsedCycles_wraps_correctly [of "ticking_clocks\<lparr>tsc := \<lambda>n. of_nat (?cycles n)\<rparr>" ?cycles 2]
    by (simp add: ticking_clocks_def)
qed

text \<open>The two 32-bit halves that the time-stamp instruction leaves in registers are put together to the
  64-bit count without loss.\<close>

theorem rdtsc_halves_value: "unat (rdtsc_halves lo hi) = unat hi * 2 ^ 32 + unat lo"
proof -
  have lo: "unat lo < 2 ^ 32" and hi: "unat hi < 2 ^ 32"
    using unsigned_less [of lo, where 'a = nat] unsigned_less [of hi, where 'a = nat] by simp_all
  have h: "unat (push_bit 32 (ucast hi :: 64 word)) = unat hi * 2 ^ 32"
  proof -
    have "unat (ucast hi :: 64 word) = unat hi"
      using hi by (simp add: unsigned_ucast_eq take_bit_nat_eq_self)
    moreover have "push_bit 32 (ucast hi :: 64 word) = ucast hi * 2 ^ 32" by (simp add: push_bit_eq_mult)
    ultimately show ?thesis using hi by (simp add: unat_word_ariths)
  qed
  have l: "unat (ucast lo :: 64 word) = unat lo"
    using lo by (simp add: unsigned_ucast_eq take_bit_nat_eq_self)
  have "push_bit 32 (ucast hi :: 64 word) AND ucast lo = 0"
    by (rule bit_word_eqI) (auto simp: bit_simps dest: bit_imp_le_length)
  then have "rdtsc_halves lo hi = push_bit 32 (ucast hi) + ucast lo"
    by (simp add: rdtsc_halves_def disjunctive_add_eq_or)
  moreover have "unat (push_bit 32 (ucast hi :: 64 word)) + unat (ucast lo :: 64 word) < 2 ^ 64"
    using lo hi unfolding h l by simp
  ultimately show ?thesis using h l by (simp add: unat_word_ariths)
qed

end
