(* ===== verification/Order_Book.thy ===== *)
theory Order_Book
  imports Price_Level Timestamp
begin

text \<open>
  Class \<open>OrderBook\<close> of \<open>include/order_matching/OrderBook.hpp\<close>. The book holds pointers to orders that
  the caller owns; the memory of the program (the orders' heap and the clocks) is a separate record
  that \<open>addOrder\<close> and \<open>modifyOrder\<close> change.
\<close>

record memory =
  heap :: heap
  clock :: clocks

record order_book =
  buy_levels :: "(price, price_level) ladder"
  sell_levels :: "(price, price_level) ladder"
  order_map :: "order_ident \<rightharpoonup> addr"
  best_bid_price :: price
  best_ask_price :: price

definition OrderBook_new :: order_book where
  "OrderBook_new = \<lparr>buy_levels = [], sell_levels = [], order_map = (\<lambda>_. None),
     best_bid_price = 0, best_ask_price = 0\<rparr>"

definition updateBestBid :: "order_book \<Rightarrow> order_book" where
  "updateBestBid bk =
     (case map_rbegin (buy_levels bk) of
        None \<Rightarrow> bk\<lparr>best_bid_price := 0\<rparr>
      | Some (pr, _) \<Rightarrow> bk\<lparr>best_bid_price := pr\<rparr>)"

definition updateBestAsk :: "order_book \<Rightarrow> order_book" where
  "updateBestAsk bk =
     (case map_begin (sell_levels bk) of
        None \<Rightarrow> bk\<lparr>best_ask_price := 0\<rparr>
      | Some (pr, _) \<Rightarrow> bk\<lparr>best_ask_price := pr\<rparr>)"

text \<open>\<open>auto& level = levels[price]; level.addOrder(order)\<close>: a missing level is created empty.\<close>

definition add_to_ladder ::
  "heap \<Rightarrow> addr \<Rightarrow> price \<Rightarrow> (price, price_level) ladder \<Rightarrow> (price, price_level) ladder res" where
  "add_to_ladder h p pr m =
     andThen (level_addOrder h p (case map_find pr m of None \<Rightarrow> PriceLevel_new | Some l \<Rightarrow> l))
       (\<lambda>l'. Inr (map_put pr l' m))"

definition stamp_if_unset :: "addr \<Rightarrow> memory \<Rightarrow> memory res" where
  "stamp_if_unset p mem =
     andThen (deref (heap mem) p) (\<lambda>od.
       if timestamp_ns od = 0
       then andThen (getTimestampNs (clock mem)) (\<lambda>(t, c).
              Inr (mem\<lparr>heap := (heap mem)(p \<mapsto> od\<lparr>timestamp_ns := t\<rparr>), clock := c\<rparr>))
       else Inr mem)"

definition addOrder ::
  "addr option \<Rightarrow> order_book \<Rightarrow> memory \<Rightarrow> (bool \<times> order_book \<times> memory) res" where
  "addOrder ptr bk mem =
     (case ptr of
        None \<Rightarrow> Inr (False, bk, mem)
      | Some p \<Rightarrow>
          andThen (deref (heap mem) p) (\<lambda>od.
            if quantity od = 0 then Inr (False, bk, mem)
            else
              andThen (stamp_if_unset p mem) (\<lambda>mem'.
                let bk' = bk\<lparr>order_map := (order_map bk)(order_id od \<mapsto> p)\<rparr>; pr = price_scaled od in
                if isBuy od
                then andThen (add_to_ladder (heap mem') p pr (buy_levels bk')) (\<lambda>m.
                       Inr (True, updateBestBid (bk'\<lparr>buy_levels := m\<rparr>), mem'))
                else andThen (add_to_ladder (heap mem') p pr (sell_levels bk')) (\<lambda>m.
                       Inr (True, updateBestAsk (bk'\<lparr>sell_levels := m\<rparr>), mem')))))"

text \<open>
  The body of \<open>cancelOrder\<close> on one side: remove from the level at the price, and the level itself
  once it is empty. Nothing where the ladder has no such level.
\<close>

definition remove_from_ladder ::
  "heap \<Rightarrow> order_ident \<Rightarrow> price \<Rightarrow> (price, price_level) ladder \<Rightarrow>
   (bool \<times> (price, price_level) ladder) option res" where
  "remove_from_ladder h i pr m =
     (case map_find pr m of
        None \<Rightarrow> Inr None
      | Some l \<Rightarrow>
          andThen (level_removeOrder h i l) (\<lambda>(removed, l').
            let m' = map_put pr l' m in
            Inr (Some (removed, if level_isEmpty l' then map_erase pr m' else m'))))"

definition cancelOrder :: "order_ident \<Rightarrow> order_book \<Rightarrow> heap \<Rightarrow> (bool \<times> order_book) res" where
  "cancelOrder i bk h =
     (case order_map bk i of
        None \<Rightarrow> Inr (False, bk)
      | Some p \<Rightarrow>
          andThen (deref h p) (\<lambda>od.
            let pr = price_scaled od in
            andThen
              (if isBuy od
               then andThen (remove_from_ladder h i pr (buy_levels bk)) (\<lambda>r.
                      case r of None \<Rightarrow> Inr (False, bk)
                      | Some (removed, m) \<Rightarrow>
                          Inr (removed, updateBestBid (bk\<lparr>buy_levels := m\<rparr>)))
               else andThen (remove_from_ladder h i pr (sell_levels bk)) (\<lambda>r.
                      case r of None \<Rightarrow> Inr (False, bk)
                      | Some (removed, m) \<Rightarrow>
                          Inr (removed, updateBestAsk (bk\<lparr>sell_levels := m\<rparr>))))
              (\<lambda>(removed, bk').
                Inr (removed,
                  if removed then bk'\<lparr>order_map := (order_map bk')(i := None)\<rparr> else bk'))))"

definition modifyOrder ::
  "order_ident \<Rightarrow> price \<Rightarrow> qty \<Rightarrow> order_book \<Rightarrow> memory \<Rightarrow> (bool \<times> order_book \<times> memory) res" where
  "modifyOrder i new_price new_quantity bk mem =
     (case order_map bk i of
        None \<Rightarrow> Inr (False, bk, mem)
      | Some p \<Rightarrow>
          andThen (cancelOrder i bk (heap mem)) (\<lambda>(_, bk').
            andThen (deref (heap mem) p) (\<lambda>od.
              andThen (getTimestampNs (clock mem)) (\<lambda>(t, c).
                addOrder (Some p) bk'
                  (mem\<lparr>heap := (heap mem)(p \<mapsto>
                      od\<lparr>price_scaled := new_price, quantity := new_quantity, timestamp_ns := t\<rparr>),
                    clock := c\<rparr>)))))"

definition getBestBid :: "order_book \<Rightarrow> addr option" where
  "getBestBid bk =
     (case map_rbegin (buy_levels bk) of None \<Rightarrow> None | Some (_, l) \<Rightarrow> getBestOrder l)"

definition getBestAsk :: "order_book \<Rightarrow> addr option" where
  "getBestAsk bk =
     (case map_begin (sell_levels bk) of None \<Rightarrow> None | Some (_, l) \<Rightarrow> getBestOrder l)"

definition getBestBidPrice :: "order_book \<Rightarrow> price" where
  "getBestBidPrice bk = best_bid_price bk"

definition getBestAskPrice :: "order_book \<Rightarrow> price" where
  "getBestAskPrice bk = best_ask_price bk"

definition getSpread :: "order_book \<Rightarrow> price res" where
  "getSpread bk =
     (if best_bid_price bk = 0 \<or> best_ask_price bk = 0 then Inr 0
      else i64_sub (best_ask_price bk) (best_bid_price bk))"

definition hasMatch :: "order_book \<Rightarrow> bool" where
  "hasMatch bk \<longleftrightarrow>
     0 < best_bid_price bk \<and> 0 < best_ask_price bk \<and> best_ask_price bk \<le> best_bid_price bk"

definition getOrder :: "order_ident \<Rightarrow> order_book \<Rightarrow> addr option" where
  "getOrder i bk = order_map bk i"

end
