(* ===== verification/Book_Invariant.thy ===== *)
theory Book_Invariant
  imports Order_Book
begin

text \<open>
  The representation invariant of the order book, the priority queue that each side of a book
  stands for, and the effect of the ladder operations on both.
\<close>

interpretation ask_ladder: price_time_ladder "\<lambda>a b. (a :: price) < b" map_sorted "\<lambda>m. m"
  map_find map_put map_erase map_begin orders
  by unfold_locales

interpretation bid_ladder: price_time_ladder "\<lambda>a b. (a :: price) > b" map_sorted rev
  map_find map_put map_erase map_rbegin orders
  by unfold_locales

section \<open>Definitions\<close>

text \<open>An order in a ladder: live, on this side, at this price, and found under its id.\<close>

definition order_at ::
  "bool \<Rightarrow> heap \<Rightarrow> (order_ident \<rightharpoonup> addr) \<Rightarrow> price \<Rightarrow> addr \<Rightarrow> bool" where
  "order_at buy h om k p \<longleftrightarrow>
     (case h p of None \<Rightarrow> False
      | Some od \<Rightarrow> isBuy od = buy \<and> price_scaled od = k \<and> om (order_id od) = Some p)"

definition level_ok ::
  "bool \<Rightarrow> heap \<Rightarrow> (order_ident \<rightharpoonup> addr) \<Rightarrow> price \<Rightarrow> price_level \<Rightarrow> bool" where
  "level_ok buy h om k l \<longleftrightarrow>
     orders l \<noteq> [] \<and> distinct (orders l) \<and> level_count_ok l \<and> (\<forall>p \<in> set (orders l). order_at buy h om k p)"

definition ladder_ok ::
  "bool \<Rightarrow> heap \<Rightarrow> (order_ident \<rightharpoonup> addr) \<Rightarrow> (price, price_level) ladder \<Rightarrow> bool" where
  "ladder_ok buy h om m \<longleftrightarrow> map_sorted m \<and> (\<forall>e \<in> set m. level_ok buy h om (fst e) (snd e))"

definition registered :: "heap \<Rightarrow> order_book \<Rightarrow> order_ident \<Rightarrow> addr \<Rightarrow> bool" where
  "registered h bk i p \<longleftrightarrow>
     (case h p of None \<Rightarrow> False
      | Some od \<Rightarrow> order_id od = i \<and>
          (price_scaled od, p) \<in> set (flat orders (if isBuy od then buy_levels bk else sell_levels bk)))"

definition best_key :: "('k \<times> 'v) option \<Rightarrow> 'k \<Rightarrow> 'k" where
  "best_key e k0 = (case e of None \<Rightarrow> k0 | Some (k, _) \<Rightarrow> k)"

definition book_wf :: "order_book \<Rightarrow> heap \<Rightarrow> bool" where
  "book_wf bk h \<longleftrightarrow>
     ladder_ok True h (order_map bk) (buy_levels bk) \<and>
     ladder_ok False h (order_map bk) (sell_levels bk) \<and>
     (\<forall>i p. order_map bk i = Some p \<longrightarrow> registered h bk i p) \<and>
     best_bid_price bk = best_key (map_rbegin (buy_levels bk)) 0 \<and>
     best_ask_price bk = best_key (map_begin (sell_levels bk)) 0"

text \<open>The two sides of a book as one queue each, best order first.\<close>

definition bid_queue :: "order_book \<Rightarrow> addr list" where
  "bid_queue bk = map snd (flat orders (rev (buy_levels bk)))"

definition ask_queue :: "order_book \<Rightarrow> addr list" where
  "ask_queue bk = map snd (flat orders (sell_levels bk))"

text \<open>No order in the book is empty: the invariant between operations.\<close>

definition all_positive :: "heap \<Rightarrow> addr list \<Rightarrow> bool" where
  "all_positive h ps \<longleftrightarrow> (\<forall>p \<in> set ps. case h p of None \<Rightarrow> False | Some od \<Rightarrow> quantity od \<noteq> 0)"

definition book_ok :: "order_book \<Rightarrow> heap \<Rightarrow> bool" where
  "book_ok bk h \<longleftrightarrow> book_wf bk h \<and> all_positive h (bid_queue bk) \<and> all_positive h (ask_queue bk)"

section \<open>Single orders\<close>

lemma order_atE:
  assumes "order_at buy h om k p"
  obtains od where "h p = Some od" "isBuy od = buy" "price_scaled od = k" "om (order_id od) = Some p"
  using assms by (auto simp: order_at_def split: option.splits)

lemma order_atI:
  "h p = Some od \<Longrightarrow> isBuy od = buy \<Longrightarrow> price_scaled od = k \<Longrightarrow> om (order_id od) = Some p \<Longrightarrow>
   order_at buy h om k p"
  by (simp add: order_at_def)

lemma order_at_inj:
  "order_at buy h om k p \<Longrightarrow> order_at buy' h om k' q \<Longrightarrow> ident_at h p = ident_at h q \<Longrightarrow> p = q"
  by (auto simp: ident_at_def elim!: order_atE)

text \<open>What may change of an order without its place in a book changing: quantity and timestamp.\<close>

definition same_place :: "order option \<Rightarrow> order option \<Rightarrow> bool" where
  "same_place x y \<longleftrightarrow>
     map_option order_id x = map_option order_id y \<and> map_option isBuy x = map_option isBuy y \<and>
     map_option price_scaled x = map_option price_scaled y"

lemma same_place_refl [simp]: "same_place x x"
  by (simp add: same_place_def)

lemma same_place_SomeD:
  "same_place (Some x) y \<Longrightarrow>
   \<exists>z. y = Some z \<and> order_id z = order_id x \<and> isBuy z = isBuy x \<and> price_scaled z = price_scaled x"
  by (cases y) (auto simp: same_place_def)

lemma order_at_frame:
  assumes "order_at buy h om k p" and "same_place (h p) (h' p)"
    and "om' (ident_at h p) = om (ident_at h p)"
  shows "order_at buy h' om' k p"
proof -
  obtain od where od: "h p = Some od" "isBuy od = buy" "price_scaled od = k" "om (order_id od) = Some p"
    using assms(1) by (rule order_atE)
  then obtain od' where "h' p = Some od'" "order_id od' = order_id od" "isBuy od' = isBuy od"
    "price_scaled od' = price_scaled od"
    using assms(2) by (auto dest!: same_place_SomeD)
  with od assms(3) show ?thesis by (simp add: order_at_def ident_at_def)
qed

section \<open>Ladders\<close>

lemma ladder_okD:
  assumes "ladder_ok buy h om m" and "map_find k m = Some l"
  shows "level_ok buy h om k l" and "(k, l) \<in> set m"
  using assms by (force simp: ladder_ok_def map_find_def dest: map_of_SomeD)+

lemma ladder_ok_sorted: "ladder_ok buy h om m \<Longrightarrow> map_sorted m"
  by (simp add: ladder_ok_def)

lemma ladder_ok_flat:
  "ladder_ok buy h om m \<Longrightarrow> (k, p) \<in> set (flat orders m) \<Longrightarrow> order_at buy h om k p"
  by (force simp: set_flat ladder_ok_def level_ok_def)

lemma ladder_ok_frame:
  assumes "ladder_ok buy h om m"
    and "\<And>k p. (k, p) \<in> set (flat orders m) \<Longrightarrow>
      same_place (h p) (h' p) \<and> om' (ident_at h p) = om (ident_at h p)"
  shows "ladder_ok buy h' om' m"
proof -
  have "level_ok buy h' om' k l" if "(k, l) \<in> set m" for k l
    using assms that order_at_frame
    by (fastforce simp: ladder_ok_def level_ok_def set_flat)
  then show ?thesis using assms(1) by (auto simp: ladder_ok_def)
qed

lemma ladder_ok_put:
  assumes "ladder_ok buy h om m" and "level_ok buy h om k l"
  shows "ladder_ok buy h om (map_put k l m)"
  using assms set_map_put [of k l m] by (auto simp: ladder_ok_def map_sorted_put)

lemma distinct_flat:
  assumes "ladder_ok buy h om m"
  shows "distinct (map snd (flat orders m))"
proof -
  have "map_sorted m \<Longrightarrow> (\<forall>e \<in> set m. level_ok buy h om (fst e) (snd e)) \<Longrightarrow> ?thesis"
  proof (induction m)
    case Nil
    then show ?case by simp
  next
    case (Cons e m)
    obtain k l where e: "e = (k, l)" by (cases e)
    have "map_sorted m" and less: "\<And>x. x \<in> set m \<Longrightarrow> k < fst x"
      using Cons.prems(1) e by (auto simp: map_sorted_def)
    moreover have "p \<notin> set (map snd (flat orders m))" if "p \<in> set (orders l)" for p
    proof
      assume "p \<in> set (map snd (flat orders m))"
      then obtain q l' where "(q, l') \<in> set m" "p \<in> set (orders l')" by (auto simp: set_flat)
      then have "order_at buy h om q p" "order_at buy h om k p" "k < q"
        using Cons.prems(2) that e less by (force simp: level_ok_def)+
      then show False by (auto elim!: order_atE)
    qed
    ultimately show ?case
      using Cons e by (auto simp: level_ok_def comp_def)
  qed
  with assms show ?thesis by (simp add: ladder_ok_def)
qed

text \<open>Adding a fresh order.\<close>

lemma ladder_add:
  assumes ok: "ladder_ok buy h om m" and p: "h p = Some od" and side: "isBuy od = buy"
    and fresh: "om (order_id od) = None"
  obtains m' where "add_to_ladder h p (price_scaled od) m = Inr m'"
    and "ladder_ok buy h (om(order_id od \<mapsto> p)) m'"
    and "flat orders m' = enqueue (<) (price_scaled od) p (flat orders m)"
    and "flat orders (rev m') = enqueue (>) (price_scaled od) p (flat orders (rev m))"
proof -
  let ?k = "price_scaled od" and ?om = "om(order_id od \<mapsto> p)"
  define l where "l = (case map_find ?k m of None \<Rightarrow> PriceLevel_new | Some l \<Rightarrow> l)"
  define l' where "l' = l\<lparr>orders := orders l @ [p], total_quantity := total_quantity l + quantity od,
      order_count := order_count l + 1\<rparr>"
  have srt: "map_sorted m" using ok by (rule ladder_ok_sorted)
  have ok': "ladder_ok buy h ?om m"
    using ok fresh by (rule_tac ladder_ok_frame) (auto simp: ident_at_def dest!: ladder_ok_flat elim!: order_atE)
  have "order_at buy h om ?k q" if "q \<in> set (orders l)" for q
    using ladder_okD [OF ok] that by (auto simp: l_def level_ok_def split: option.splits)
  from this [of p] have "p \<notin> set (orders l)" using fresh p by (auto simp: order_at_def)
  moreover have "level_count_ok l" "distinct (orders l)"
    "\<And>q. q \<in> set (orders l) \<Longrightarrow> order_at buy h ?om ?k q"
    using ladder_okD [OF ok'] by (auto simp: l_def level_ok_def level_count_ok_def split: option.splits)
  moreover have "order_at buy h ?om ?k p" using p side by (simp add: order_at_def)
  ultimately have "level_ok buy h ?om ?k l'"
    by (auto simp: l'_def level_ok_def level_count_ok_def)
  moreover have "add_to_ladder h p ?k m = Inr (map_put ?k l' m)"
    using p by (simp add: add_to_ladder_def level_addOrder_live l'_def l_def split: option.split)
  moreover have "orders l' = (case map_find ?k m of None \<Rightarrow> [] | Some l \<Rightarrow> orders l) @ [p]"
    by (simp add: l'_def l_def split: option.split)
  ultimately show thesis
    using that [of "map_put ?k l' m"] ok' srt
    by (simp add: ladder_ok_put ask_ladder.flat_put_append bid_ladder.flat_put_append
        split: option.splits)
qed

text \<open>Removing an order.\<close>

lemma ladder_remove:
  assumes ok: "ladder_ok buy h om m" and p: "h p = Some od" and side: "isBuy od = buy"
    and inq: "(price_scaled od, p) \<in> set (flat orders m)"
  obtains m' where "remove_from_ladder h (order_id od) (price_scaled od) m = Inr (Some (True, m'))"
    and "ladder_ok buy h (om(order_id od := None)) m'"
    and "flat orders m' = filter (\<lambda>e. snd e \<noteq> p) (flat orders m)"
    and "flat orders (rev m') = filter (\<lambda>e. snd e \<noteq> p) (flat orders (rev m))"
proof -
  let ?k = "price_scaled od" and ?om = "om(order_id od := None)"
  have srt: "map_sorted m" using ok by (rule ladder_ok_sorted)
  obtain l where found: "map_find ?k m = Some l" "p \<in> set (orders l)"
    using inq ask_ladder.in_flat_find [OF srt] by blast
  have lok: "level_ok buy h om ?k l" using ladder_okD [OF ok found(1)] by blast
  then have at: "order_at buy h om ?k q" if "q \<in> set (orders l)" for q
    using that by (simp add: level_ok_def)
  have atp: "order_at buy h om ?k p" by (rule at [OF found(2)])
  have ident: "ident_at h q = order_id od \<longleftrightarrow> q = p" if "q \<in> set (orders l)" for q
    using order_at_inj [OF at [OF that] atp] p by (auto simp: ident_at_def)
  have "all_live h (orders l)" by (auto simp: all_live_def dest!: at elim!: order_atE)
  moreover have "distinct (map (ident_at h) (orders l))"
    using lok order_at_inj [OF at at] by (auto simp: distinct_map level_ok_def intro: inj_onI)
  ultimately obtain l' where l': "level_removeOrder h (order_id od) l = Inr (True, l')"
    and "orders l' = filter (\<lambda>q. ident_at h q \<noteq> order_id od) (orders l)"
    using found(2) p by (rule level_removeOrder_found)
  then have ords: "orders l' = filter (\<lambda>q. q \<noteq> p) (orders l)"
    using ident by (auto intro!: filter_cong)
  define m1 where "m1 = map_put ?k l' m"
  define m' where "m' = (if level_isEmpty l' then map_erase ?k m1 else m1)"
  have find1: "map_find q m1 = (if q = ?k then Some l' else map_find q m)" for q
    using srt by (simp add: m1_def asks.find_put)
  have srt1: "map_sorted m1" using srt by (simp add: m1_def map_sorted_put)
  have elsewhere: "snd e \<noteq> p" if "e \<in> set (flat orders m)" "fst e \<noteq> ?k" for e
    using that ladder_ok_flat [OF ok, of "fst e" "snd e"] p by (auto simp: order_at_def)
  have flat1: "flat orders m1 = filter (\<lambda>e. snd e \<noteq> p) (flat orders m)"
    "flat orders (rev m1) = filter (\<lambda>e. snd e \<noteq> p) (flat orders (rev m))"
    unfolding m1_def
    using elsewhere ask_ladder.flat_put_filter [OF srt found(1), of l' "\<lambda>e. snd e \<noteq> p"]
      bid_ladder.flat_put_filter [OF srt found(1), of l' "\<lambda>e. snd e \<noteq> p"]
    by (auto simp: ords)
  have flat': "flat orders m' = flat orders m1" "flat orders (rev m') = flat orders (rev m1)"
    using ask_ladder.flat_erase_empty [OF srt1, of ?k l'] bid_ladder.flat_erase_empty [OF srt1, of ?k l']
      find1 by (simp_all add: m'_def level_isEmpty_def)
  have "remove_from_ladder h (order_id od) ?k m = Inr (Some (True, m'))"
    using l' found(1) by (simp add: remove_from_ladder_def m'_def m1_def)
  moreover have "ladder_ok buy h ?om m'"
  proof (rule ladder_ok_frame)
    have "level_ok buy h om ?k l'" if "orders l' \<noteq> []"
      using that lok level_removeOrder_counts(1) [OF l'] by (auto simp: level_ok_def ords)
    moreover have "set m' \<subseteq> insert (?k, l') (set m)" "(?k, l') \<in> set m' \<Longrightarrow> orders l' \<noteq> []"
      using set_map_put [of ?k l' m] by (auto simp: m'_def m1_def level_isEmpty_def map_erase_def)
    moreover have "map_sorted m'" using srt1 by (simp add: m'_def map_sorted_erase)
    ultimately show "ladder_ok buy h om m'" using ok by (fastforce simp: ladder_ok_def)
    fix k q
    assume "(k, q) \<in> set (flat orders m')"
    then have "(k, q) \<in> set (flat orders m)" "q \<noteq> p" by (auto simp: flat' flat1)
    then show "same_place (h q) (h q) \<and> ?om (ident_at h q) = om (ident_at h q)"
      using order_at_inj [OF ladder_ok_flat [OF ok] atp] p by (auto simp: ident_at_def)
  qed
  ultimately show thesis by (intro that [of m']) (simp_all add: flat' flat1)
qed

end
