(* ===== verification/Book_Operations.thy ===== *)
theory Book_Operations
  imports Book_Invariant
begin

text \<open>
  What \<open>addOrder\<close>, \<open>cancelOrder\<close> and \<open>modifyOrder\<close> do to a well-formed book, stated on the abstract
  book: two lists of orders, each in the order in which the matcher will reach them.
\<close>

section \<open>The abstract book\<close>

type_synonym abs_book = "order list \<times> order list"

definition view :: "order_book \<Rightarrow> heap \<Rightarrow> abs_book" where
  "view bk h = (map (\<lambda>p. the (h p)) (bid_queue bk), map (\<lambda>p. the (h p)) (ask_queue bk))"

text \<open>
  A new order goes behind every order whose price is at least as good and in front of the others.
\<close>

definition insert_order :: "(price \<Rightarrow> price \<Rightarrow> bool) \<Rightarrow> order \<Rightarrow> order list \<Rightarrow> order list" where
  "insert_order better od xs =
     filter (\<lambda>x. \<not> better (price_scaled od) (price_scaled x)) xs @
     od # filter (\<lambda>x. better (price_scaled od) (price_scaled x)) xs"

definition spec_add :: "order \<Rightarrow> abs_book \<Rightarrow> abs_book" where
  "spec_add od v =
     (if isBuy od then (insert_order (>) od (fst v), snd v) else (fst v, insert_order (<) od (snd v)))"

definition spec_cancel :: "order_ident \<Rightarrow> abs_book \<Rightarrow> abs_book" where
  "spec_cancel i v =
     (filter (\<lambda>x. order_id x \<noteq> i) (fst v), filter (\<lambda>x. order_id x \<noteq> i) (snd v))"

lemma map_enqueue:
  assumes "f p = od" and "price_scaled od = k"
    and "\<And>q x. (q, x) \<in> set xs \<Longrightarrow> price_scaled (f x) = q"
  shows "map f (map snd (enqueue better k p xs)) = insert_order better od (map f (map snd xs))"
proof -
  have "map f (map snd (filter (\<lambda>e. Q (fst e)) xs)) =
      filter (\<lambda>x. Q (price_scaled x)) (map f (map snd xs))" for Q
  proof -
    have "\<forall>e \<in> set xs. price_scaled (f (snd e)) = fst e" using assms(3) by auto
    then show ?thesis by (induction xs) auto
  qed
  note this [of "better k"] this [of "\<lambda>q. \<not> better k q"]
  then show ?thesis using assms(1,2) by (simp add: enqueue_def insert_order_def)
qed

section \<open>Orders in a well-formed book\<close>

lemma book_wf_ladders:
  assumes "book_wf bk h"
  shows "ladder_ok True h (order_map bk) (buy_levels bk)"
    and "ladder_ok False h (order_map bk) (sell_levels bk)"
    and "map_sorted (buy_levels bk)" and "map_sorted (sell_levels bk)"
  using assms by (auto simp: book_wf_def dest: ladder_ok_sorted)

lemma bid_queue_at:
  "book_wf bk h \<Longrightarrow> p \<in> set (bid_queue bk) \<Longrightarrow> \<exists>k. order_at True h (order_map bk) k p"
  by (force simp: bid_queue_def dest: book_wf_ladders ladder_ok_flat)

lemma ask_queue_at:
  "book_wf bk h \<Longrightarrow> p \<in> set (ask_queue bk) \<Longrightarrow> \<exists>k. order_at False h (order_map bk) k p"
  by (force simp: ask_queue_def dest: book_wf_ladders ladder_ok_flat)

lemma in_queue_iff:
  assumes "book_wf bk h"
  shows "p \<in> set (bid_queue bk) \<union> set (ask_queue bk) \<longleftrightarrow> (\<exists>i. order_map bk i = Some p)"
proof
  assume "p \<in> set (bid_queue bk) \<union> set (ask_queue bk)"
  then show "\<exists>i. order_map bk i = Some p"
    using bid_queue_at [OF assms] ask_queue_at [OF assms] by (blast elim: order_atE)
next
  assume "\<exists>i. order_map bk i = Some p"
  then obtain i where "registered h bk i p" using assms by (auto simp: book_wf_def)
  then show "p \<in> set (bid_queue bk) \<union> set (ask_queue bk)"
    by (force simp: registered_def bid_queue_def ask_queue_def split: option.splits if_splits)
qed

lemma registered_live:
  assumes "book_wf bk h" and "order_map bk i = Some p"
  obtains od where "h p = Some od" and "order_id od = i"
proof -
  have "registered h bk i p" using assms by (simp add: book_wf_def)
  then show thesis using that by (auto simp: registered_def split: option.splits)
qed

lemma registered_mono:
  assumes "registered h bk i p"
    and "\<And>k. (k, p) \<in> set (flat orders (buy_levels bk)) \<Longrightarrow> (k, p) \<in> set (flat orders (buy_levels bk'))"
    and "\<And>k. (k, p) \<in> set (flat orders (sell_levels bk)) \<Longrightarrow> (k, p) \<in> set (flat orders (sell_levels bk'))"
  shows "registered h bk' i p"
  using assms by (auto simp: registered_def split: option.splits)

lemma distinct_queues:
  "book_wf bk h \<Longrightarrow> distinct (bid_queue bk)"
  "book_wf bk h \<Longrightarrow> distinct (ask_queue bk)"
  using distinct_flat [of True h "order_map bk" "buy_levels bk"]
    distinct_flat [of False h "order_map bk" "sell_levels bk"]
  by (auto simp: bid_queue_def ask_queue_def book_wf_def distinct_flat_rev)

lemma book_wf_frame:
  assumes "book_wf bk h"
    and "\<And>p. p \<in> set (bid_queue bk) \<union> set (ask_queue bk) \<Longrightarrow> same_place (h p) (h' p)"
  shows "book_wf bk h'"
proof -
  have "registered h' bk i p" if "order_map bk i = Some p" for i p
  proof -
    from assms(1) that have r: "registered h bk i p" by (simp add: book_wf_def)
    moreover have "same_place (h p) (h' p)" using assms that in_queue_iff by blast
    ultimately show ?thesis
      by (auto simp: registered_def split: option.splits dest!: same_place_SomeD)
  qed
  moreover have "ladder_ok True h' (order_map bk) (buy_levels bk)"
    "ladder_ok False h' (order_map bk) (sell_levels bk)"
    using assms(2) book_wf_ladders [OF assms(1)]
    by (rule_tac ladder_ok_frame; force simp: bid_queue_def ask_queue_def)+
  ultimately show ?thesis using assms(1) by (simp add: book_wf_def)
qed

lemma view_cong:
  "(\<And>p. p \<in> set (bid_queue bk) \<union> set (ask_queue bk) \<Longrightarrow> h' p = h p) \<Longrightarrow> view bk h' = view bk h"
  by (simp add: view_def)

lemma book_wf_new: "book_wf OrderBook_new h"
  by (simp add: book_wf_def OrderBook_new_def ladder_ok_def best_key_def map_rbegin_def map_begin_def)

lemma view_new [simp]: "view OrderBook_new h = ([], [])"
  by (simp add: view_def OrderBook_new_def bid_queue_def ask_queue_def)

section \<open>Cached best prices\<close>

lemma updateBest_sel [simp]:
  "buy_levels (updateBestBid bk) = buy_levels bk" "sell_levels (updateBestBid bk) = sell_levels bk"
  "order_map (updateBestBid bk) = order_map bk" "best_ask_price (updateBestBid bk) = best_ask_price bk"
  "best_bid_price (updateBestBid bk) = best_key (map_rbegin (buy_levels bk)) 0"
  "buy_levels (updateBestAsk bk) = buy_levels bk" "sell_levels (updateBestAsk bk) = sell_levels bk"
  "order_map (updateBestAsk bk) = order_map bk" "best_bid_price (updateBestAsk bk) = best_bid_price bk"
  "best_ask_price (updateBestAsk bk) = best_key (map_begin (sell_levels bk)) 0"
  by (auto simp: updateBestBid_def updateBestAsk_def best_key_def split: option.splits)

lemma queues_updateBest [simp]:
  "bid_queue (updateBestBid bk) = bid_queue bk" "ask_queue (updateBestBid bk) = ask_queue bk"
  "bid_queue (updateBestAsk bk) = bid_queue bk" "ask_queue (updateBestAsk bk) = ask_queue bk"
  by (simp_all add: bid_queue_def ask_queue_def)

section \<open>cancelOrder\<close>

lemma cancelOrder_unknown: "order_map bk i = None \<Longrightarrow> cancelOrder i bk h = Inr (False, bk)"
  by (simp add: cancelOrder_def)

lemma ladder_ok_unregister:
  assumes "ladder_ok buy h om m" and "h p = Some od" and "om (order_id od) = Some p"
    and "isBuy od = (\<not> buy)"
  shows "ladder_ok buy h (om(order_id od := None)) m"
proof (rule ladder_ok_frame [OF assms(1)])
  fix k q
  assume "(k, q) \<in> set (flat orders m)"
  then have "order_at buy h om k q" by (rule ladder_ok_flat [OF assms(1)])
  then show "same_place (h q) (h q) \<and> (om(order_id od := None)) (ident_at h q) = om (ident_at h q)"
    using assms(2-4) by (auto simp: ident_at_def elim!: order_atE)
qed

lemma cancelOrder_registered:
  assumes wf: "book_wf bk h" and reg: "order_map bk i = Some p"
  obtains bk' where "cancelOrder i bk h = Inr (True, bk')"
    and "book_wf bk' h" and "order_map bk' = (order_map bk)(i := None)"
    and "bid_queue bk' = filter (\<lambda>q. q \<noteq> p) (bid_queue bk)"
    and "ask_queue bk' = filter (\<lambda>q. q \<noteq> p) (ask_queue bk)"
proof -
  have r: "registered h bk i p" using wf reg by (simp add: book_wf_def)
  then obtain od where od: "h p = Some od" "order_id od = i"
    by (auto simp: registered_def split: option.splits)
  note lad = book_wf_ladders [OF wf]
  have rest: "registered h bk j q" "q \<noteq> p" if "j \<noteq> i" "order_map bk j = Some q" for j q
  proof -
    from that(2) show "registered h bk j q" using wf by (simp add: book_wf_def)
    from wf that(2) obtain oq where "h q = Some oq" "order_id oq = j" by (rule registered_live)
    with od that(1) show "q \<noteq> p" by auto
  qed
  show thesis
  proof (cases "isBuy od")
    case True
    then have "(price_scaled od, p) \<in> set (flat orders (buy_levels bk))"
      using r od by (simp add: registered_def)
    moreover have "isBuy od = True" using True by simp
    ultimately obtain m where
      m: "remove_from_ladder h (order_id od) (price_scaled od) (buy_levels bk) = Inr (Some (True, m))"
      "ladder_ok True h ((order_map bk)(order_id od := None)) m"
      "flat orders m = filter (\<lambda>e. snd e \<noteq> p) (flat orders (buy_levels bk))"
      "flat orders (rev m) = filter (\<lambda>e. snd e \<noteq> p) (flat orders (rev (buy_levels bk)))"
      using ladder_remove [OF lad(1) od(1)] by metis
    let ?bk = "(updateBestBid (bk\<lparr>buy_levels := m\<rparr>))\<lparr>order_map := (order_map bk)(i := None)\<rparr>"
    have "p \<notin> set (ask_queue bk)"
      using ask_queue_at [OF wf] od(1) True by (force elim: order_atE)
    moreover have "registered h ?bk j q" if "order_map ?bk j = Some q" for j q
      using rest [of j q] that m(3) by (auto intro: registered_mono split: if_splits)
    moreover have "ladder_ok False h ((order_map bk)(i := None)) (sell_levels bk)"
      using ladder_ok_unregister [OF lad(2) od(1)] od(2) reg True by simp
    ultimately have "p \<notin> set (ask_queue bk) \<and> book_wf ?bk h"
      using wf m(2) od(2) by (simp add: book_wf_def)
    then show thesis
      using that [of ?bk] od reg m True filter_neq_notin [of p "ask_queue bk"]
      by (simp add: cancelOrder_def bid_queue_def ask_queue_def filter_map o_def)
  next
    case False
    then have "(price_scaled od, p) \<in> set (flat orders (sell_levels bk))"
      using r od by (simp add: registered_def)
    moreover have "isBuy od = False" using False by simp
    ultimately obtain m where
      m: "remove_from_ladder h (order_id od) (price_scaled od) (sell_levels bk) = Inr (Some (True, m))"
      "ladder_ok False h ((order_map bk)(order_id od := None)) m"
      "flat orders m = filter (\<lambda>e. snd e \<noteq> p) (flat orders (sell_levels bk))"
      using ladder_remove [OF lad(2) od(1)] by metis
    let ?bk = "(updateBestAsk (bk\<lparr>sell_levels := m\<rparr>))\<lparr>order_map := (order_map bk)(i := None)\<rparr>"
    have "p \<notin> set (bid_queue bk)"
      using bid_queue_at [OF wf] od(1) False by (force elim: order_atE)
    moreover have "registered h ?bk j q" if "order_map ?bk j = Some q" for j q
      using rest [of j q] that m(3) by (auto intro: registered_mono split: if_splits)
    moreover have "ladder_ok True h ((order_map bk)(i := None)) (buy_levels bk)"
      using ladder_ok_unregister [OF lad(1) od(1)] od(2) reg False by simp
    ultimately have "p \<notin> set (bid_queue bk) \<and> book_wf ?bk h"
      using wf m(2) od(2) by (simp add: book_wf_def)
    then show thesis
      using that [of ?bk] od reg m False filter_neq_notin [of p "bid_queue bk"]
      by (simp add: cancelOrder_def bid_queue_def ask_queue_def filter_map o_def)
  qed
qed

text \<open>On the abstract book: the order with the id disappears, all others keep their places.\<close>

lemma view_filter:
  assumes "book_wf bk h" and "order_map bk i = Some p"
    and "bid_queue bk' = filter (\<lambda>q. q \<noteq> p) (bid_queue bk)"
    and "ask_queue bk' = filter (\<lambda>q. q \<noteq> p) (ask_queue bk)"
  shows "view bk' h = spec_cancel i (view bk h)"
proof -
  obtain od where od: "h p = Some od" "order_id od = i" using assms(1,2) by (rule registered_live)
  have "q \<noteq> p \<longleftrightarrow> order_id (the (h q)) \<noteq> i" if "q \<in> set (bid_queue bk) \<union> set (ask_queue bk)" for q
  proof -
    from that obtain j where "order_map bk j = Some q" unfolding in_queue_iff [OF assms(1)] ..
    from assms(1) this obtain oq where "h q = Some oq" "order_id oq = j" by (rule registered_live)
    with od assms(2) \<open>order_map bk j = Some q\<close> show ?thesis by (cases "q = p") auto
  qed
  then have "filter (\<lambda>q. q \<noteq> p) (bid_queue bk) = filter (\<lambda>q. order_id (the (h q)) \<noteq> i) (bid_queue bk)"
    "filter (\<lambda>q. q \<noteq> p) (ask_queue bk) = filter (\<lambda>q. order_id (the (h q)) \<noteq> i) (ask_queue bk)"
    by (auto intro!: filter_cong)
  then show ?thesis by (simp add: view_def spec_cancel_def assms(3,4) filter_map o_def)
qed

section \<open>addOrder\<close>

lemma addOrder_null: "addOrder None bk mem = Inr (False, bk, mem)"
  by (simp add: addOrder_def)

lemma addOrder_empty:
  "heap mem p = Some od \<Longrightarrow> quantity od = 0 \<Longrightarrow> addOrder (Some p) bk mem = Inr (False, bk, mem)"
  by (simp add: addOrder_def)

text \<open>The order as \<open>addOrder\<close> leaves it: with the current time where it had none.\<close>

definition stamp :: "clocks \<Rightarrow> order \<Rightarrow> order" where
  "stamp c od = (if timestamp_ns od = 0 then od\<lparr>timestamp_ns := clock_now c\<rparr> else od)"

lemma stamp_sel [simp]:
  "order_id (stamp c od) = order_id od" "quantity (stamp c od) = quantity od"
  "price_scaled (stamp c od) = price_scaled od" "isBuy (stamp c od) = isBuy od"
  by (simp_all add: stamp_def)

lemma stamp_if_unset_ok:
  assumes "clocks_ok (clock mem)" and "heap mem p = Some od"
  obtains mem' where "stamp_if_unset p mem = Inr mem'"
    and "heap mem' = (heap mem)(p \<mapsto> stamp (clock mem) od)" and "clocks_ok (clock mem')"
proof (cases "timestamp_ns od = 0")
  case True
  with assms show ?thesis
    by (simp add: that stamp_if_unset_def stamp_def getTimestampNs_ok)
next
  case False
  with assms show ?thesis
    by (intro that [of mem]) (auto simp: stamp_if_unset_def stamp_def)
qed

lemma fresh_not_queued:
  "book_wf bk h \<Longrightarrow> h p = Some od \<Longrightarrow> order_map bk (order_id od) = None \<Longrightarrow>
   p \<notin> set (bid_queue bk) \<union> set (ask_queue bk)"
  using in_queue_iff registered_live by (metis option.distinct(1) option.inject)

lemma ladder_ok_register:
  assumes "ladder_ok buy h om m" and "om i = None"
  shows "ladder_ok buy h (om(i \<mapsto> p)) m"
  using assms(1)
proof (rule ladder_ok_frame)
  fix k q
  assume "(k, q) \<in> set (flat orders m)"
  with assms(1) have "order_at buy h om k q" by (rule ladder_ok_flat)
  with assms(2) show "same_place (h q) (h q) \<and> (om(i \<mapsto> p)) (ident_at h q) = om (ident_at h q)"
    by (auto simp: ident_at_def elim!: order_atE)
qed

lemma flat_prices:
  "ladder_ok buy h om m \<Longrightarrow> (k, p) \<in> set (flat orders m) \<Longrightarrow> price_scaled (the (h p)) = k"
  by (auto dest!: ladder_ok_flat elim!: order_atE)

lemma addOrder_fresh:
  assumes wf: "book_wf bk (heap mem)" and clk: "clocks_ok (clock mem)"
    and p: "heap mem p = Some od" and pos: "quantity od \<noteq> 0"
    and fresh: "order_map bk (order_id od) = None"
  obtains bk' mem' where "addOrder (Some p) bk mem = Inr (True, bk', mem')"
    and "heap mem' = (heap mem)(p \<mapsto> stamp (clock mem) od)" and "clocks_ok (clock mem')"
    and "book_wf bk' (heap mem')" and "order_map bk' = (order_map bk)(order_id od \<mapsto> p)"
    and "view bk' (heap mem') = spec_add (stamp (clock mem) od) (view bk (heap mem))"
proof -
  let ?od = "stamp (clock mem) od" and ?om = "(order_map bk)(order_id od \<mapsto> p)"
  obtain mem' where mem': "stamp_if_unset p mem = Inr mem'" "heap mem' = (heap mem)(p \<mapsto> ?od)"
    "clocks_ok (clock mem')"
    using clk p by (rule stamp_if_unset_ok)
  let ?h = "heap mem'"
  have p': "?h p = Some ?od" and fresh': "order_map bk (order_id ?od) = None"
    using mem'(2) fresh by simp_all
  have notin: "p \<notin> set (bid_queue bk) \<union> set (ask_queue bk)"
    using wf p fresh by (rule fresh_not_queued)
  have wf': "book_wf bk ?h"
    using wf by (rule book_wf_frame) (use notin mem'(2) in auto)
  have vw: "view bk ?h = view bk (heap mem)"
    by (rule view_cong) (use notin mem'(2) in auto)
  note lad = book_wf_ladders [OF wf']
  have reg: "registered ?h bk j q" "j \<noteq> order_id od" if "order_map bk j = Some q" for j q
    using wf' that fresh by (auto simp: book_wf_def)
  show thesis
  proof (cases "isBuy od")
    case True
    then have "isBuy ?od = True" by simp
    with lad(1) p' fresh' obtain m where
      m: "add_to_ladder ?h p (price_scaled od) (buy_levels bk) = Inr m"
      "ladder_ok True ?h ?om m"
      "flat orders m = enqueue (<) (price_scaled od) p (flat orders (buy_levels bk))"
      "flat orders (rev m) = enqueue (>) (price_scaled od) p (flat orders (rev (buy_levels bk)))"
      using ladder_add [OF lad(1) p'] by (metis stamp_sel(1,3))
    let ?bk = "updateBestBid (bk\<lparr>order_map := ?om, buy_levels := m\<rparr>)"
    have "registered ?h ?bk j q" if "?om j = Some q" for j q
    proof (cases "j = order_id od")
      case True
      with that p' m(3) \<open>isBuy od\<close> show ?thesis by (simp add: registered_def)
    next
      case False
      with that have "registered ?h bk j q" by (auto intro: reg(1))
      with m(3) show ?thesis by (auto intro: registered_mono)
    qed
    then have "book_wf ?bk ?h"
      using wf' m(2) ladder_ok_register [OF lad(2) fresh] by (simp add: book_wf_def)
    moreover have "view ?bk ?h = spec_add ?od (view bk ?h)"
      using True p' flat_prices [OF lad(1)] map_enqueue [of "\<lambda>p. the (?h p)" p ?od "price_scaled od"
          "flat orders (rev (buy_levels bk))" "(>)"]
      by (simp add: view_def spec_add_def bid_queue_def ask_queue_def m(4))
    ultimately show thesis
      using that [of ?bk mem'] mem' p pos m(1) True vw by (simp add: addOrder_def Let_def)
  next
    case False
    then have "isBuy ?od = False" by simp
    with lad(2) p' fresh' obtain m where
      m: "add_to_ladder ?h p (price_scaled od) (sell_levels bk) = Inr m"
      "ladder_ok False ?h ?om m"
      "flat orders m = enqueue (<) (price_scaled od) p (flat orders (sell_levels bk))"
      using ladder_add [OF lad(2) p'] by (metis stamp_sel(1,3))
    let ?bk = "updateBestAsk (bk\<lparr>order_map := ?om, sell_levels := m\<rparr>)"
    have "registered ?h ?bk j q" if "?om j = Some q" for j q
    proof (cases "j = order_id od")
      case True
      with that p' m(3) \<open>\<not> isBuy od\<close> show ?thesis by (simp add: registered_def)
    next
      case False
      with that have "registered ?h bk j q" by (auto intro: reg(1))
      with m(3) show ?thesis by (auto intro: registered_mono)
    qed
    then have "book_wf ?bk ?h"
      using wf' m(2) ladder_ok_register [OF lad(1) fresh] by (simp add: book_wf_def)
    moreover have "view ?bk ?h = spec_add ?od (view bk ?h)"
      using False p' flat_prices [OF lad(2)] map_enqueue [of "\<lambda>p. the (?h p)" p ?od "price_scaled od"
          "flat orders (sell_levels bk)" "(<)"]
      by (simp add: view_def spec_add_def bid_queue_def ask_queue_def m(3))
    ultimately show thesis
      using that [of ?bk mem'] mem' p pos m(1) False vw by (simp add: addOrder_def Let_def)
  qed
qed

section \<open>modifyOrder\<close>

lemma modifyOrder_unknown:
  "order_map bk i = None \<Longrightarrow> modifyOrder i pr q bk mem = Inr (False, bk, mem)"
  by (simp add: modifyOrder_def)

text \<open>The order after the field updates of \<open>modifyOrder\<close>, and the clocks it leaves.\<close>

definition modified :: "clocks \<Rightarrow> price \<Rightarrow> qty \<Rightarrow> order \<Rightarrow> order" where
  "modified c pr q od = od\<lparr>price_scaled := pr, quantity := q, timestamp_ns := clock_now c\<rparr>"

definition tick_realtime :: "clocks \<Rightarrow> clocks" where
  "tick_realtime c = c\<lparr>realtime_reads := Suc (realtime_reads c)\<rparr>"

lemma modified_sel [simp]:
  "order_id (modified c pr q od) = order_id od" "quantity (modified c pr q od) = q"
  "price_scaled (modified c pr q od) = pr" "isBuy (modified c pr q od) = isBuy od"
  by (simp_all add: modified_def isBuy_def)

lemma clocks_ok_tick [simp]: "clocks_ok (tick_realtime c) = clocks_ok c"
  by (simp add: tick_realtime_def)

lemma view_dropped:
  assumes "book_wf bk h" and "order_map bk i = Some p" and "h p = Some od"
    and "cancelOrder i bk h = Inr (True, bk')"
  shows "view bk' (h(p \<mapsto> x)) = spec_cancel i (view bk h)" and "book_wf bk' (h(p \<mapsto> x))"
    and "order_map bk' = (order_map bk)(i := None)"
proof -
  from assms(1,2) obtain bk'' where c: "cancelOrder i bk h = Inr (True, bk'')" "book_wf bk'' h"
    "order_map bk'' = (order_map bk)(i := None)"
    "bid_queue bk'' = filter (\<lambda>q. q \<noteq> p) (bid_queue bk)"
    "ask_queue bk'' = filter (\<lambda>q. q \<noteq> p) (ask_queue bk)"
    by (rule cancelOrder_registered)
  then have eq: "bk' = bk''" using assms(4) by simp
  then show "order_map bk' = (order_map bk)(i := None)" using c(3) by simp
  have "view bk' (h(p \<mapsto> x)) = view bk' h"
    by (rule view_cong) (auto simp: eq c(4,5))
  then show "view bk' (h(p \<mapsto> x)) = spec_cancel i (view bk h)"
    using view_filter [OF assms(1,2) c(4,5)] eq by simp
  show "book_wf bk' (h(p \<mapsto> x))"
    using c(2) unfolding eq by (rule book_wf_frame) (auto simp: c(4,5))
qed

lemma modifyOrder_registered:
  assumes wf: "book_wf bk (heap mem)" and clk: "clocks_ok (clock mem)"
    and reg: "order_map bk i = Some p" and p: "heap mem p = Some od" and q: "q \<noteq> 0"
  obtains bk' mem' where "modifyOrder i pr q bk mem = Inr (True, bk', mem')"
    and "heap mem' = (heap mem)(p \<mapsto> stamp (tick_realtime (clock mem)) (modified (clock mem) pr q od))"
    and "clocks_ok (clock mem')" and "book_wf bk' (heap mem')" and "order_map bk' = order_map bk"
    and "view bk' (heap mem') =
      spec_add (stamp (tick_realtime (clock mem)) (modified (clock mem) pr q od))
        (spec_cancel i (view bk (heap mem)))"
proof -
  let ?od = "modified (clock mem) pr q od"
  let ?mem = "mem\<lparr>heap := (heap mem)(p \<mapsto> ?od), clock := tick_realtime (clock mem)\<rparr>"
  have ident: "order_id od = i" using registered_live [OF wf reg] p by (metis option.inject)
  obtain bk1 where c: "cancelOrder i bk (heap mem) = Inr (True, bk1)"
    using wf reg by (rule cancelOrder_registered)
  note dropped = view_dropped [OF wf reg p c]
  obtain bk' mem' where a: "addOrder (Some p) bk1 ?mem = Inr (True, bk', mem')"
    "heap mem' = (heap ?mem)(p \<mapsto> stamp (clock ?mem) ?od)" "clocks_ok (clock mem')"
    "book_wf bk' (heap mem')" "order_map bk' = (order_map bk1)(order_id ?od \<mapsto> p)"
    "view bk' (heap mem') = spec_add (stamp (clock ?mem) ?od) (view bk1 (heap ?mem))"
    by (rule addOrder_fresh [of bk1 ?mem p ?od])
      (use dropped clk q ident in \<open>simp_all add: reg\<close>)
  have "modifyOrder i pr q bk mem = Inr (True, bk', mem')"
    using reg c p clk a(1)
    by (simp add: modifyOrder_def getTimestampNs_ok tick_realtime_def modified_def)
  then show thesis
    using that [of bk' mem'] a dropped(1) [of ?od] dropped(3) ident reg by (simp add: fun_upd_idem)
qed

text \<open>With a zero quantity the order is taken out and not put back, although the result is False.\<close>

lemma modifyOrder_zero:
  assumes wf: "book_wf bk (heap mem)" and clk: "clocks_ok (clock mem)"
    and reg: "order_map bk i = Some p" and p: "heap mem p = Some od"
  obtains bk' mem' where "modifyOrder i pr 0 bk mem = Inr (False, bk', mem')"
    and "book_wf bk' (heap mem')" and "order_map bk' = (order_map bk)(i := None)"
    and "view bk' (heap mem') = spec_cancel i (view bk (heap mem))" and "clocks_ok (clock mem')"
proof -
  let ?od = "modified (clock mem) pr 0 od"
  let ?mem = "mem\<lparr>heap := (heap mem)(p \<mapsto> ?od), clock := tick_realtime (clock mem)\<rparr>"
  obtain bk1 where c: "cancelOrder i bk (heap mem) = Inr (True, bk1)"
    using wf reg by (rule cancelOrder_registered)
  note dropped = view_dropped [OF wf reg p c]
  have "addOrder (Some p) bk1 ?mem = Inr (False, bk1, ?mem)"
    using addOrder_empty [where mem = ?mem and p = p and od = ?od] by simp
  then have "modifyOrder i pr 0 bk mem = Inr (False, bk1, ?mem)"
    using reg c p clk
    by (simp add: modifyOrder_def getTimestampNs_ok tick_realtime_def modified_def)
  then show thesis
    using that [of bk1 ?mem] dropped(1,2) [of ?od] dropped(3) clk by simp
qed

section \<open>The invariant with positive quantities\<close>

lemma queue_live:
  "book_wf bk h \<Longrightarrow> p \<in> set (bid_queue bk) \<union> set (ask_queue bk) \<Longrightarrow> \<exists>od. h p = Some od"
  using bid_queue_at [of bk h p] ask_queue_at [of bk h p] by (auto simp: order_at_def split: option.splits)

lemma all_positive_alt:
  "(\<And>p. p \<in> set ps \<Longrightarrow> \<exists>od. h p = Some od) \<Longrightarrow>
   all_positive h ps \<longleftrightarrow> (\<forall>p \<in> set ps. quantity (the (h p)) \<noteq> 0)"
  by (auto simp: all_positive_def split: option.splits)

lemma book_ok_view:
  "book_ok bk h \<longleftrightarrow>
     book_wf bk h \<and> (\<forall>x \<in> set (fst (view bk h)) \<union> set (snd (view bk h)). quantity x \<noteq> 0)"
proof (cases "book_wf bk h")
  case True
  then have "all_positive h (bid_queue bk) = (\<forall>p \<in> set (bid_queue bk). quantity (the (h p)) \<noteq> 0)"
    "all_positive h (ask_queue bk) = (\<forall>p \<in> set (ask_queue bk). quantity (the (h p)) \<noteq> 0)"
    using queue_live by (auto intro!: all_positive_alt)
  then show ?thesis by (auto simp: book_ok_def view_def)
qed (simp add: book_ok_def)

lemma set_insert_order [simp]: "set (insert_order better od xs) = insert od (set xs)"
  by (auto simp: insert_order_def)

lemma set_spec_add:
  "set (fst (spec_add od v)) \<union> set (snd (spec_add od v)) = insert od (set (fst v) \<union> set (snd v))"
  by (auto simp: spec_add_def)

lemma set_spec_cancel:
  "set (fst (spec_cancel i v)) \<union> set (snd (spec_cancel i v)) \<subseteq> set (fst v) \<union> set (snd v)"
  by (auto simp: spec_cancel_def)

lemma book_ok_wf: "book_ok bk h \<Longrightarrow> book_wf bk h"
  by (simp add: book_ok_def)

lemma book_ok_new: "book_ok OrderBook_new h"
  by (simp add: book_ok_view book_wf_new)

section \<open>Best orders and best prices\<close>

lemma flat_head:
  assumes "ladder_ok buy h om m"
  shows "(case map_begin m of None \<Rightarrow> None | Some (k, l) \<Rightarrow> getBestOrder l) =
      (case map snd (flat orders m) of [] \<Rightarrow> None | p # _ \<Rightarrow> Some p)"
    and "best_key (map_begin m) k0 = (case flat orders m of [] \<Rightarrow> k0 | e # _ \<Rightarrow> fst e)"
    and "(case map_rbegin m of None \<Rightarrow> None | Some (k, l) \<Rightarrow> getBestOrder l) =
      (case map snd (flat orders (rev m)) of [] \<Rightarrow> None | p # _ \<Rightarrow> Some p)"
    and "best_key (map_rbegin m) k0 = (case flat orders (rev m) of [] \<Rightarrow> k0 | e # _ \<Rightarrow> fst e)"
proof -
  have ne: "orders (snd e) \<noteq> []" if "e \<in> set m" for e
    using assms that by (auto simp: ladder_ok_def level_ok_def)
  show "(case map_begin m of None \<Rightarrow> None | Some (k, l) \<Rightarrow> getBestOrder l) =
      (case map snd (flat orders m) of [] \<Rightarrow> None | p # _ \<Rightarrow> Some p)"
    "best_key (map_begin m) k0 = (case flat orders m of [] \<Rightarrow> k0 | e # _ \<Rightarrow> fst e)"
    using ne [of "hd m"]
    by (cases m; auto simp: map_begin_def getBestOrder_def best_key_def neq_Nil_conv)+
  show "(case map_rbegin m of None \<Rightarrow> None | Some (k, l) \<Rightarrow> getBestOrder l) =
      (case map snd (flat orders (rev m)) of [] \<Rightarrow> None | p # _ \<Rightarrow> Some p)"
    "best_key (map_rbegin m) k0 = (case flat orders (rev m) of [] \<Rightarrow> k0 | e # _ \<Rightarrow> fst e)"
    using ne [of "last m"]
    by (cases m rule: rev_cases;
        auto simp: bids.best_levels getBestOrder_def best_key_def neq_Nil_conv)+
qed

lemma getBest_queue:
  assumes "book_wf bk h"
  shows "getBestBid bk = (case bid_queue bk of [] \<Rightarrow> None | p # _ \<Rightarrow> Some p)"
    and "getBestAsk bk = (case ask_queue bk of [] \<Rightarrow> None | p # _ \<Rightarrow> Some p)"
  unfolding getBestBid_def getBestAsk_def bid_queue_def ask_queue_def
  using flat_head(3) [OF book_wf_ladders(1) [OF assms]] flat_head(1) [OF book_wf_ladders(2) [OF assms]]
  by simp_all

definition best_price :: "order list \<Rightarrow> price" where
  "best_price xs = (case xs of [] \<Rightarrow> 0 | x # _ \<Rightarrow> price_scaled x)"

lemma best_price_view:
  assumes "book_wf bk h"
  shows "best_bid_price bk = best_price (fst (view bk h))"
    and "best_ask_price bk = best_price (snd (view bk h))"
proof -
  note lad = book_wf_ladders [OF assms]
  have "best_bid_price bk = best_key (map_rbegin (buy_levels bk)) 0"
    "best_ask_price bk = best_key (map_begin (sell_levels bk)) 0"
    using assms by (auto simp: book_wf_def)
  then show "best_bid_price bk = best_price (fst (view bk h))"
    "best_ask_price bk = best_price (snd (view bk h))"
    using flat_prices [OF lad(1)] flat_prices [OF lad(2)]
    by (auto simp: flat_head(4) [OF lad(1)] flat_head(2) [OF lad(2)] view_def bid_queue_def
        ask_queue_def best_price_def split: list.splits)
      (metis list.set_intros(1) set_flat_rev)+
qed

text \<open>Both sides are sorted by price priority.\<close>

lemma view_sorted:
  assumes "book_wf bk h"
  shows "sorted_wrt (\<lambda>x y. price_scaled y \<le> price_scaled x) (fst (view bk h))"
    and "sorted_wrt (\<lambda>x y. price_scaled x \<le> price_scaled y) (snd (view bk h))"
proof -
  note lad = book_wf_ladders [OF assms]
  have "sorted_wrt (\<lambda>x y. R (price_scaled x) (price_scaled y)) (map (\<lambda>p. the (h p)) (map snd xs))"
    if "sorted_wrt (\<lambda>a b. R (fst a) (fst b)) xs" "\<And>k p. (k, p) \<in> set xs \<Longrightarrow> price_scaled (the (h p)) = k"
    for R and xs :: "(price \<times> addr) list"
  proof -
    from that(2) have "\<forall>e \<in> set xs. price_scaled (the (h (snd e))) = fst e" by auto
    with that(1) show ?thesis by (induction xs) auto
  qed
  note this [of "\<lambda>a b. b \<le> a" "flat orders (rev (buy_levels bk))"]
    this [of "\<lambda>a b. a \<le> b" "flat orders (sell_levels bk)"]
  then show "sorted_wrt (\<lambda>x y. price_scaled y \<le> price_scaled x) (fst (view bk h))"
    "sorted_wrt (\<lambda>x y. price_scaled x \<le> price_scaled y) (snd (view bk h))"
    using bid_ladder.flat_sorted [OF lad(3)] ask_ladder.flat_sorted [OF lad(4)]
    by (simp_all add: view_def bid_queue_def ask_queue_def not_less flat_prices [OF lad(1)]
        flat_prices [OF lad(2)])
qed

end
