(* ===== verification/Bounded_Queue.thy ===== *)
theory Bounded_Queue
  imports Prelude
begin

text \<open>
  The interface of a bounded first-in first-out queue with non-blocking \<open>push\<close> and \<open>pop\<close>, as the
  logger and the demonstration program rely on it, and the loop that empties a queue.
\<close>

text \<open>\<open>while (queue.pop(msg)) write(msg);\<close>: the loop ends when \<open>pop\<close> fails.\<close>

partial_function (option) drain ::
  "('q \<Rightarrow> 'a option \<times> 'q) \<Rightarrow> ('a \<Rightarrow> 's \<Rightarrow> 's) \<Rightarrow> 'q \<Rightarrow> 's \<Rightarrow> ('q \<times> 's) option" where
  "drain pop write q s =
     (case pop q of
        (None, q') \<Rightarrow> Some (q', s)
      | (Some x, q') \<Rightarrow> drain pop write q' (write x s))"

primrec push_all :: "('a \<Rightarrow> 'q \<Rightarrow> bool \<times> 'q) \<Rightarrow> 'a list \<Rightarrow> 'q \<Rightarrow> 'q" where
  "push_all push [] q = q"
| "push_all push (x # xs) q = push_all push xs (snd (push x q))"

locale bounded_queue =
  fixes invar :: "'q \<Rightarrow> bool"
    and contents :: "'q \<Rightarrow> 'a list"
    and capacity :: nat
    and push :: "'a \<Rightarrow> 'q \<Rightarrow> bool \<times> 'q"
    and pop :: "'q \<Rightarrow> 'a option \<times> 'q"
  assumes within_capacity: "invar q \<Longrightarrow> length (contents q) \<le> capacity"
    and push_full: "invar q \<Longrightarrow> length (contents q) = capacity \<Longrightarrow> push x q = (False, q)"
    and push_room: "invar q \<Longrightarrow> length (contents q) < capacity \<Longrightarrow>
      fst (push x q) \<and> contents (snd (push x q)) = contents q @ [x]"
    and push_invar: "invar q \<Longrightarrow> invar (snd (push x q))"
    and pop_empty: "invar q \<Longrightarrow> contents q = [] \<Longrightarrow> pop q = (None, q)"
    and pop_some: "invar q \<Longrightarrow> contents q = x # xs \<Longrightarrow>
      fst (pop q) = Some x \<and> contents (snd (pop q)) = xs"
    and pop_invar: "invar q \<Longrightarrow> invar (snd (pop q))"
begin

lemma push_contents:
  "invar q \<Longrightarrow> contents (snd (push x q)) = (if fst (push x q) then contents q @ [x] else contents q)"
  using push_full push_room within_capacity
  by (metis fst_conv le_neq_implies_less snd_conv)

lemma push_succeeds_iff: "invar q \<Longrightarrow> fst (push x q) \<longleftrightarrow> length (contents q) < capacity"
  using push_full push_room within_capacity by (metis fst_conv le_neq_implies_less less_irrefl)

lemma pop_fails_iff: "invar q \<Longrightarrow> fst (pop q) = None \<longleftrightarrow> contents q = []"
  using pop_empty pop_some by (cases "contents q") fastforce+

text \<open>Emptying a queue ends, and hands over what was in it, oldest first.\<close>

lemma drain_contents:
  "invar q \<Longrightarrow>
   \<exists>q'. drain pop write q s = Some (q', fold write (contents q) s) \<and> invar q' \<and> contents q' = []"
proof (induction "contents q" arbitrary: q s)
  case Nil
  then show ?case by (simp add: drain.simps pop_empty)
next
  case (Cons x xs)
  then have x: "fst (pop q) = Some x" "contents (snd (pop q)) = xs" "invar (snd (pop q))"
    using pop_some [of q x xs] pop_invar [of q] by simp_all
  obtain q' where "drain pop write (snd (pop q)) (write x s) = Some (q', fold write xs (write x s))"
    "invar q'" "contents q' = []"
    using Cons.hyps(1) [of "snd (pop q)" "write x s"] x by blast
  moreover have "drain pop write q s = drain pop write (snd (pop q)) (write x s)"
    using x(1) by (subst drain.simps) (simp add: split_beta split: option.split)
  ultimately show ?case using Cons.hyps(2) by (metis fold_simps(2))
qed

lemma push_all_room:
  "invar q \<Longrightarrow> length (contents q) + length xs \<le> capacity \<Longrightarrow>
   invar (push_all push xs q) \<and> contents (push_all push xs q) = contents q @ xs"
proof (induction xs arbitrary: q)
  case Nil
  then show ?case by simp
next
  case (Cons x xs)
  then have "contents (snd (push x q)) = contents q @ [x]" "invar (snd (push x q))"
    using push_room [of q x] push_invar by simp_all
  with Cons show ?case by simp
qed

text \<open>A full queue loses every further item, and nothing else.\<close>

lemma push_all_full:
  "invar q \<Longrightarrow> length (contents q) = capacity \<Longrightarrow> push_all push xs q = q"
  by (induction xs) (simp_all add: push_full)

lemma push_all_drops:
  assumes "invar q"
  shows "contents (push_all push xs q) = contents q @ take (capacity - length (contents q)) xs"
    and "invar (push_all push xs q)"
proof -
  let ?n = "capacity - length (contents q)"
  have split: "push_all push xs q = push_all push (drop ?n xs) (push_all push (take ?n xs) q)"
    for xs :: "'a list"
  proof -
    have "push_all push (ys @ zs) q = push_all push zs (push_all push ys q)" for ys zs and q :: 'q
      by (induction ys arbitrary: q) simp_all
    from this [of "take ?n xs" "drop ?n xs"] show ?thesis by simp
  qed
  have room: "length (contents q) + length (take ?n xs) \<le> capacity"
    using within_capacity [OF assms] by simp
  note filled = push_all_room [OF assms room]
  have "push_all push (drop ?n xs) (push_all push (take ?n xs) q) = push_all push (take ?n xs) q"
  proof (cases "?n \<le> length xs")
    case True
    then show ?thesis
      using filled within_capacity [OF assms] by (intro push_all_full) auto
  qed simp
  with filled show "contents (push_all push xs q) = contents q @ take ?n xs"
    "invar (push_all push xs q)"
    by (simp_all add: split [of xs])
qed

end

end
