(* ===== verification/SPSC_Queue.thy ===== *)
theory SPSC_Queue
  imports Bounded_Queue
begin

unbundle bit_operations_syntax

text \<open>
  \<open>include/utils/SPSCQueue.hpp\<close>, one operation at a time (the interleaving of the producer's and the
  consumer's accesses is in \<open>SPSC_Concurrent\<close>). Positions are \<open>size_t\<close>, 64-bit words; \<open>sz\<close> is the
  template argument \<open>Size\<close>. The buffer is a function on all indices, of which the code may only use
  those below \<open>sz\<close>: the invariant keeps both positions there.
\<close>

record 'a spsc =
  write_pos :: "64 word"
  buffer :: "64 word \<Rightarrow> 'a"
  read_pos :: "64 word"

text \<open>The \<open>static_assert\<close> on the template argument.\<close>

definition valid_size :: "64 word \<Rightarrow> bool" where
  "valid_size sz \<longleftrightarrow> 1 < sz \<and> sz AND (sz - 1) = 0"

definition spsc_new :: "(64 word \<Rightarrow> 'a) \<Rightarrow> 'a spsc" where
  "spsc_new b = \<lparr>write_pos = 0, buffer = b, read_pos = 0\<rparr>"

definition next_pos :: "64 word \<Rightarrow> 64 word \<Rightarrow> 64 word" where
  "next_pos sz i = (i + 1) AND (sz - 1)"

definition spsc_push :: "64 word \<Rightarrow> 'a \<Rightarrow> 'a spsc \<Rightarrow> bool \<times> 'a spsc" where
  "spsc_push sz item q =
     (let current_write = write_pos q;
          next_write = next_pos sz current_write
      in if next_write = read_pos q then (False, q)
         else (True, q\<lparr>buffer := (buffer q)(current_write := item), write_pos := next_write\<rparr>))"

definition spsc_try_push :: "64 word \<Rightarrow> 'a \<Rightarrow> 'a spsc \<Rightarrow> bool \<times> 'a spsc" where
  "spsc_try_push sz item q = spsc_push sz item q"

definition spsc_pop :: "64 word \<Rightarrow> 'a spsc \<Rightarrow> 'a option \<times> 'a spsc" where
  "spsc_pop sz q =
     (let current_read = read_pos q
      in if current_read = write_pos q then (None, q)
         else (Some (buffer q current_read), q\<lparr>read_pos := next_pos sz current_read\<rparr>))"

definition spsc_try_pop :: "64 word \<Rightarrow> 'a spsc \<Rightarrow> 'a option \<times> 'a spsc" where
  "spsc_try_pop sz q = spsc_pop sz q"

definition spsc_empty :: "'a spsc \<Rightarrow> bool" where
  "spsc_empty q \<longleftrightarrow> read_pos q = write_pos q"

definition spsc_full :: "64 word \<Rightarrow> 'a spsc \<Rightarrow> bool" where
  "spsc_full sz q \<longleftrightarrow> next_pos sz (write_pos q) = read_pos q"

definition spsc_size :: "64 word \<Rightarrow> 'a spsc \<Rightarrow> 64 word" where
  "spsc_size sz q =
     (let w = write_pos q; r = read_pos q in if r \<le> w then w - r else sz - r + w)"

definition spsc_capacity :: "64 word \<Rightarrow> 64 word" where
  "spsc_capacity sz = sz - 1"

text \<open>
  The partial specialisation for pointers repeats the code for \<open>T*\<close>, a nullable pointer here.
\<close>

definition spsc_ptr_new :: "(64 word \<Rightarrow> addr option) \<Rightarrow> addr option spsc" where
  "spsc_ptr_new b = \<lparr>write_pos = 0, buffer = b, read_pos = 0\<rparr>"

definition spsc_ptr_push ::
  "64 word \<Rightarrow> addr option \<Rightarrow> addr option spsc \<Rightarrow> bool \<times> addr option spsc" where
  "spsc_ptr_push sz item q =
     (let current_write = write_pos q;
          next_write = (current_write + 1) AND (sz - 1)
      in if next_write = read_pos q then (False, q)
         else (True, q\<lparr>buffer := (buffer q)(current_write := item), write_pos := next_write\<rparr>))"

definition spsc_ptr_pop :: "64 word \<Rightarrow> addr option spsc \<Rightarrow> addr option option \<times> addr option spsc" where
  "spsc_ptr_pop sz q =
     (let current_read = read_pos q
      in if current_read = write_pos q then (None, q)
         else (Some (buffer q current_read),
               q\<lparr>read_pos := (current_read + 1) AND (sz - 1)\<rparr>))"

definition spsc_ptr_empty :: "addr option spsc \<Rightarrow> bool" where
  "spsc_ptr_empty q \<longleftrightarrow> read_pos q = write_pos q"

definition spsc_ptr_size :: "64 word \<Rightarrow> addr option spsc \<Rightarrow> 64 word" where
  "spsc_ptr_size sz q =
     (let w = write_pos q; r = read_pos q in if r \<le> w then w - r else sz - r + w)"

definition spsc_ptr_capacity :: "64 word \<Rightarrow> 64 word" where
  "spsc_ptr_capacity sz = sz - 1"

lemma spsc_ptr_generic:
  "spsc_ptr_push = spsc_push" "spsc_ptr_pop = spsc_pop" "spsc_ptr_empty = spsc_empty"
  "spsc_ptr_size = spsc_size" "spsc_ptr_new = spsc_new" "spsc_ptr_capacity = spsc_capacity"
  by (simp_all add: fun_eq_iff spsc_ptr_push_def spsc_push_def spsc_ptr_pop_def spsc_pop_def
      next_pos_def spsc_ptr_empty_def spsc_empty_def spsc_ptr_size_def spsc_size_def spsc_ptr_new_def spsc_new_def
      spsc_ptr_capacity_def spsc_capacity_def Let_def)

section \<open>Masking with a power of two is reduction modulo it\<close>

lemma and_pred_zero_pow2: "0 < n \<Longrightarrow> n AND (n - 1) = 0 \<Longrightarrow> \<exists>k. n = 2 ^ k" for n :: nat
proof (induction n rule: less_induct)
  case (less n)
  show ?case
  proof (cases "even n")
    case True
    then obtain m where m: "n = 2 * m" by blast
    with less.prems have "0 < m" by simp
    then have pred: "n - 1 = 1 + 2 * (m - 1)" using m by simp
    have "m AND (m - 1) = 0"
      using less.prems(2) and_rec [of n "n - 1"] unfolding pred unfolding m by simp
    then obtain k where "m = 2 ^ k" using less.IH [of m] \<open>0 < m\<close> m by auto
    with m have "n = 2 ^ Suc k" by simp
    then show ?thesis by blast
  next
    case False
    then obtain m where m: "n = 2 * m + 1" by (blast elim: oddE)
    have "n AND (n - 1) = 2 * m"
      unfolding m by (simp add: and_rec [of "Suc (2 * m)" "2 * m"])
    with less.prems m have "n = 2 ^ 0" by simp
    then show ?thesis by blast
  qed
qed

lemma valid_size_pow2:
  assumes "valid_size sz"
  obtains k where "0 < k" and "k < 64" and "sz = 2 ^ k" and "unat sz = 2 ^ k"
proof -
  have "1 < unat sz" using assms by (simp add: valid_size_def word_less_nat_alt)
  moreover have "unat sz AND (unat sz - 1) = 0"
  proof -
    have "unat (sz - 1) = unat sz - 1"
      using \<open>1 < unat sz\<close> by (simp add: unat_sub_if')
    moreover have "unat (sz AND (sz - 1)) = unat sz AND unat (sz - 1)"
      by (simp add: unsigned_and_eq)
    ultimately show ?thesis using assms by (simp add: valid_size_def)
  qed
  ultimately obtain k where k: "unat sz = 2 ^ k" using and_pred_zero_pow2 [of "unat sz"] by auto
  moreover have "unat sz < 2 ^ 64" using unsigned_less [of sz] by simp
  moreover from this k have "k < 64" by (simp add: power_strict_increasing_iff [of 2 k 64, symmetric] del: power_strict_increasing_iff)
  moreover have "0 < k" using k \<open>1 < unat sz\<close> by (cases k) auto
  moreover have "sz = 2 ^ k"
  proof -
    have "unat (2 ^ k :: 64 word) = 2 ^ k"
      using \<open>unat sz < 2 ^ 64\<close> unat_of_nat [of "2 ^ k", where 'a = 64] by (simp add: k)
    then show ?thesis using k by (simp add: word_unat_eq_iff)
  qed
  ultimately show thesis using that by blast
qed

lemma unat_mask:
  assumes "valid_size sz"
  shows "unat (x AND (sz - 1)) = unat x mod unat sz"
proof -
  obtain k where k: "k < 64" "sz = 2 ^ k" "unat sz = 2 ^ k" using assms by (rule valid_size_pow2)
  have "x AND (sz - 1) = take_bit k x"
    using k by (simp add: take_bit_eq_mask mask_eq_exp_minus_1)
  then have "unat (x AND (sz - 1)) = take_bit k (unat x)" by (simp only: unsigned_take_bit_eq)
  then show ?thesis by (simp only: take_bit_eq_mod k(3))
qed

lemma valid_size_gt: "valid_size sz \<Longrightarrow> 1 < unat sz"
  by (simp add: valid_size_def word_less_nat_alt)

lemma unat_next_pos:
  assumes "valid_size sz" and "i < sz"
  shows "unat (next_pos sz i) = (unat i + 1) mod unat sz"
proof -
  have "unat i < unat sz" using assms(2) by (simp add: word_less_nat_alt)
  moreover have "unat sz < 2 ^ 64" using unsigned_less [of sz] by simp
  ultimately have "unat (i + 1) = unat i + 1" by (simp add: unat_word_ariths)
  then show ?thesis by (simp add: next_pos_def unat_mask [OF assms(1)])
qed

section \<open>The queue that a ring holds\<close>

definition spsc_count :: "64 word \<Rightarrow> 'a spsc \<Rightarrow> nat" where
  "spsc_count sz q = (unat (write_pos q) + unat sz - unat (read_pos q)) mod unat sz"

definition spsc_contents :: "64 word \<Rightarrow> 'a spsc \<Rightarrow> 'a list" where
  "spsc_contents sz q =
     map (\<lambda>i. buffer q (of_nat ((unat (read_pos q) + i) mod unat sz))) [0..<spsc_count sz q]"

definition spsc_wf :: "64 word \<Rightarrow> 'a spsc \<Rightarrow> bool" where
  "spsc_wf sz q \<longleftrightarrow> write_pos q < sz \<and> read_pos q < sz"

lemma length_spsc_contents [simp]: "length (spsc_contents sz q) = spsc_count sz q"
  by (simp add: spsc_contents_def)

lemma spsc_new_wf: "valid_size sz \<Longrightarrow> spsc_wf sz (spsc_new b)"
  by (auto simp: spsc_wf_def spsc_new_def valid_size_def intro: order.strict_trans [of 0 1])

lemma spsc_new_contents: "spsc_contents sz (spsc_new b) = []"
  by (simp add: spsc_contents_def spsc_count_def spsc_new_def)

text \<open>Arithmetic on ring positions, over natural numbers.\<close>

lemma ring_full_iff:
  fixes w r n :: nat
  assumes "w < n" and "r < n" and "1 < n"
  shows "(w + 1) mod n = r \<longleftrightarrow> (w + n - r) mod n = n - 1"
proof (cases "r \<le> w")
  case True
  with assms have "(w + n - r) mod n = w - r" by (simp add: mod_if)
  with True assms show ?thesis by (auto simp: mod_if)
next
  case False
  with assms have "(w + n - r) mod n = w + n - r" by simp
  with False assms show ?thesis by (auto simp: mod_if)
qed

lemma ring_empty_iff:
  fixes w r n :: nat
  assumes "w < n" and "r < n"
  shows "(w + n - r) mod n = 0 \<longleftrightarrow> w = r"
  using assms by (cases "r \<le> w") (auto simp: mod_if)

lemma ring_push_count:
  fixes w r n :: nat
  assumes "w < n" and "r < n" and "(w + 1) mod n \<noteq> r"
  shows "((w + 1) mod n + n - r) mod n = (w + n - r) mod n + 1"
  using assms by (cases "r \<le> w"; cases "w + 1 = n") (auto simp: mod_if)

lemma ring_pop_count:
  fixes w r n :: nat
  assumes "w < n" and "r < n" and "w \<noteq> r"
  shows "(w + n - r) mod n = (w + n - (r + 1) mod n) mod n + 1"
  using assms by (cases "r \<le> w"; cases "r + 1 = n") (auto simp: mod_if)

lemma ring_ahead:
  fixes w r n :: nat
  assumes "r \<le> w" and "w < n"
  shows "(w + n - r) mod n = w - r"
proof -
  have "(w + n - r) mod n = ((w - r) + n) mod n"
    using assms(1) by (intro arg_cong [of _ _ "\<lambda>i. i mod n"]) simp
  also have "\<dots> = w - r" using assms(2) by simp
  finally show ?thesis .
qed

lemma ring_distinct:
  fixes r i c n :: nat
  assumes "i < c" and "c < n"
  shows "(r + i) mod n \<noteq> (r + c) mod n"
proof
  assume eq: "(r + i) mod n = (r + c) mod n"
  have "(r + c) mod n = (r + i) mod n \<longleftrightarrow> n dvd (r + c) - (r + i)"
    using assms(1) by (intro mod_eq_dvd_iff_nat) simp
  then have "n dvd (r + c) - (r + i)" using eq [symmetric] by blast
  then have "n dvd c - i" by simp
  with assms show False using dvd_imp_le [of n "c - i"] by simp
qed

lemma ring_last:
  fixes w r n :: nat
  assumes "w < n" and "r < n"
  shows "(r + (w + n - r) mod n) mod n = w"
  using assms by (cases "r \<le> w") (auto simp: mod_if)

section \<open>push and pop\<close>

lemma spsc_positions:
  "spsc_wf sz q \<Longrightarrow> unat (write_pos q) < unat sz \<and> unat (read_pos q) < unat sz"
  by (simp add: spsc_wf_def word_less_nat_alt)

lemma of_nat_mod_pos [simp]: "i < sz \<Longrightarrow> unat i < unat sz" for i sz :: "64 word"
  by (simp add: word_less_nat_alt)

lemma next_pos_eq_iff:
  assumes "valid_size sz" and "spsc_wf sz q"
  shows "next_pos sz (write_pos q) = read_pos q \<longleftrightarrow> spsc_count sz q = unat sz - 1"
proof -
  note b = spsc_positions [OF assms(2)]
  have "next_pos sz (write_pos q) = read_pos q \<longleftrightarrow> (unat (write_pos q) + 1) mod unat sz = unat (read_pos q)"
    using assms unat_next_pos [of sz "write_pos q"] by (auto simp: spsc_wf_def word_unat_eq_iff)
  then show ?thesis
    using ring_full_iff [of "unat (write_pos q)" "unat sz" "unat (read_pos q)"] b valid_size_gt [OF assms(1)]
    by (simp add: spsc_count_def)
qed

lemma count_zero_iff:
  assumes "spsc_wf sz q"
  shows "spsc_count sz q = 0 \<longleftrightarrow> read_pos q = write_pos q"
  using ring_empty_iff [of "unat (write_pos q)" "unat sz" "unat (read_pos q)"] spsc_positions [OF assms]
  by (auto simp: spsc_count_def word_unat_eq_iff)

lemma next_pos_less: "valid_size sz \<Longrightarrow> i < sz \<Longrightarrow> next_pos sz i < sz"
  using unat_next_pos [of sz i] valid_size_gt [of sz] by (simp add: word_less_nat_alt)

lemma spsc_push_wf: "valid_size sz \<Longrightarrow> spsc_wf sz q \<Longrightarrow> spsc_wf sz (snd (spsc_push sz x q))"
  by (auto simp: spsc_push_def Let_def spsc_wf_def next_pos_less)

lemma spsc_pop_wf: "valid_size sz \<Longrightarrow> spsc_wf sz q \<Longrightarrow> spsc_wf sz (snd (spsc_pop sz q))"
  by (auto simp: spsc_pop_def Let_def spsc_wf_def next_pos_less)

lemma spsc_count_less: "valid_size sz \<Longrightarrow> spsc_count sz q \<le> unat sz - 1"
proof -
  assume "valid_size sz"
  then have "1 < unat sz" by (rule valid_size_gt)
  then have "spsc_count sz q < unat sz" by (simp add: spsc_count_def)
  then show "spsc_count sz q \<le> unat sz - 1" by linarith
qed

lemma spsc_push_room:
  assumes v: "valid_size sz" and wf: "spsc_wf sz q" and room: "spsc_count sz q < unat sz - 1"
  shows "fst (spsc_push sz x q)"
    and "spsc_contents sz (snd (spsc_push sz x q)) = spsc_contents sz q @ [x]"
proof -
  let ?w = "unat (write_pos q)" and ?r = "unat (read_pos q)" and ?n = "unat sz"
  let ?q = "snd (spsc_push sz x q)"
  note b = spsc_positions [OF wf]
  have room': "next_pos sz (write_pos q) \<noteq> read_pos q" using next_pos_eq_iff [OF v wf] room by simp
  then have q': "spsc_push sz x q =
      (True, q\<lparr>buffer := (buffer q)(write_pos q := x), write_pos := next_pos sz (write_pos q)\<rparr>)"
    by (simp add: spsc_push_def Let_def)
  then show "fst (spsc_push sz x q)" by simp
  have w': "unat (next_pos sz (write_pos q)) = (?w + 1) mod ?n"
    using unat_next_pos [OF v] wf by (simp add: spsc_wf_def)
  then have "(?w + 1) mod ?n \<noteq> ?r" using room' by (metis word_unat_eq_iff)
  then have cnt: "spsc_count sz ?q = spsc_count sz q + 1"
    using ring_push_count b by (simp add: spsc_count_def q' w')
  have last: "(?r + spsc_count sz q) mod ?n = ?w"
    using ring_last b by (simp add: spsc_count_def)
  have old: "(of_nat ((?r + i) mod ?n) :: 64 word) \<noteq> write_pos q" if "i < spsc_count sz q" for i
  proof
    assume "(of_nat ((?r + i) mod ?n) :: 64 word) = write_pos q"
    then have "unat (of_nat ((?r + i) mod ?n) :: 64 word) = ?w" by simp
    moreover have "(?r + i) mod ?n < 2 ^ 64"
      using mod_less_divisor [of ?n "?r + i"] valid_size_gt [OF v] unsigned_less [of sz, where 'a = nat]
      by (auto intro: less_trans simp del: mod_less_divisor)
    ultimately have "(?r + i) mod ?n = (?r + spsc_count sz q) mod ?n"
      using last by (simp add: unat_of_nat)
    moreover have "spsc_count sz q < ?n" using spsc_count_less [OF v, of q] valid_size_gt [OF v] by simp
    ultimately show False
      using ring_distinct that by blast
  qed
  have "spsc_contents sz ?q = map (\<lambda>i. ((buffer q)(write_pos q := x)) (of_nat ((?r + i) mod ?n)))
      ([0..<spsc_count sz q] @ [spsc_count sz q])"
    by (simp add: spsc_contents_def cnt) (simp add: q')
  also have "\<dots> = spsc_contents sz q @ [x]"
    using old last by (simp add: spsc_contents_def)
  finally show "spsc_contents sz ?q = spsc_contents sz q @ [x]" .
qed

lemma spsc_pop_some:
  assumes v: "valid_size sz" and wf: "spsc_wf sz q" and c: "spsc_contents sz q = x # xs"
  shows "fst (spsc_pop sz q) = Some x"
    and "spsc_contents sz (snd (spsc_pop sz q)) = xs"
proof -
  let ?w = "unat (write_pos q)" and ?r = "unat (read_pos q)" and ?n = "unat sz"
  let ?q = "snd (spsc_pop sz q)"
  note b = spsc_positions [OF wf]
  have "spsc_count sz q \<noteq> 0" using c by (metis length_0_conv length_spsc_contents list.distinct(1))
  then have ne: "read_pos q \<noteq> write_pos q" using count_zero_iff [OF wf] by simp
  then have q': "spsc_pop sz q =
      (Some (buffer q (read_pos q)), q\<lparr>read_pos := next_pos sz (read_pos q)\<rparr>)"
    by (simp add: spsc_pop_def Let_def)
  have r': "unat (next_pos sz (read_pos q)) = (?r + 1) mod ?n"
    using unat_next_pos [OF v] wf by (simp add: spsc_wf_def)
  have cnt: "spsc_count sz q = Suc (spsc_count sz ?q)"
    using ring_pop_count [of ?w ?n ?r] b ne by (simp add: spsc_count_def q' r' word_unat_eq_iff)
  have "spsc_contents sz q = buffer q (read_pos q) #
      map (\<lambda>i. buffer q (of_nat ((?r + Suc i) mod ?n))) [0..<spsc_count sz ?q]"
    using b by (simp add: spsc_contents_def cnt upt_conv_Cons map_Suc_upt [symmetric] del: upt_Suc)
  moreover have "((?r + 1) mod ?n + i) mod ?n = (?r + Suc i) mod ?n" for i
    by (simp add: mod_add_left_eq)
  then have "spsc_contents sz ?q = map (\<lambda>i. buffer q (of_nat ((?r + Suc i) mod ?n))) [0..<spsc_count sz ?q]"
    unfolding spsc_contents_def by (simp add: q' r')
  ultimately show "fst (spsc_pop sz q) = Some x" "spsc_contents sz ?q = xs"
    using c q' by simp_all
qed

lemma spsc_bounded_queue:
  assumes v: "valid_size sz"
  shows "bounded_queue (spsc_wf sz) (spsc_contents sz) (unat sz - 1) (spsc_push sz) (spsc_pop sz)"
proof
  fix q :: "'a spsc" and x xs
  assume wf: "spsc_wf sz q"
  show "length (spsc_contents sz q) \<le> unat sz - 1" using spsc_count_less [OF v] by simp
  show "spsc_push sz x q = (False, q)" if "length (spsc_contents sz q) = unat sz - 1"
    using that next_pos_eq_iff [OF v wf] by (simp add: spsc_push_def Let_def)
  show "fst (spsc_push sz x q) \<and> spsc_contents sz (snd (spsc_push sz x q)) = spsc_contents sz q @ [x]"
    if "length (spsc_contents sz q) < unat sz - 1"
    using spsc_push_room [OF v wf] that by simp
  show "spsc_pop sz q = (None, q)" if "spsc_contents sz q = []"
    using that count_zero_iff [OF wf] by (simp add: spsc_pop_def Let_def flip: length_0_conv)
  show "fst (spsc_pop sz q) = Some x \<and> spsc_contents sz (snd (spsc_pop sz q)) = xs"
    if "spsc_contents sz q = x # xs"
    using spsc_pop_some [OF v wf that] by simp
qed (simp_all add: v spsc_push_wf spsc_pop_wf)

section \<open>Monitoring\<close>

lemma spsc_empty_iff: "spsc_wf sz q \<Longrightarrow> spsc_empty q \<longleftrightarrow> spsc_contents sz q = []"
  using count_zero_iff [of sz q] by (simp add: spsc_empty_def flip: length_0_conv)

lemma spsc_full_iff:
  "valid_size sz \<Longrightarrow> spsc_wf sz q \<Longrightarrow> spsc_full sz q \<longleftrightarrow> length (spsc_contents sz q) = unat sz - 1"
  by (simp add: spsc_full_def next_pos_eq_iff)

lemma spsc_size_eq:
  assumes "spsc_wf sz q"
  shows "unat (spsc_size sz q) = length (spsc_contents sz q)"
proof -
  note b = spsc_positions [OF assms]
  show ?thesis
  proof (cases "read_pos q \<le> write_pos q")
    case True
    then have le: "unat (read_pos q) \<le> unat (write_pos q)" by (simp add: word_le_nat_alt)
    then have "(unat (write_pos q) + unat sz - unat (read_pos q)) mod unat sz =
        unat (write_pos q) - unat (read_pos q)"
      using b by (simp add: ring_ahead)
    with True le show ?thesis by (simp add: spsc_size_def Let_def spsc_count_def unat_sub_if')
  next
    case False
    then have lt: "unat (write_pos q) < unat (read_pos q)" by (simp add: word_le_nat_alt)
    have "unat (sz - read_pos q) = unat sz - unat (read_pos q)" using b by (simp add: unat_sub_if')
    moreover have "unat sz < 2 ^ 64" using unsigned_less [of sz] by simp
    ultimately have "unat (sz - read_pos q + write_pos q) = unat sz - unat (read_pos q) + unat (write_pos q)"
      using b lt by (simp add: unat_word_ariths)
    moreover have "unat (write_pos q) + unat sz - unat (read_pos q) < unat sz" using b lt by linarith
    ultimately show ?thesis using False b lt by (simp add: spsc_size_def Let_def spsc_count_def)
  qed
qed

section \<open>What the queue promises, one call at a time\<close>

lemma spsc_push_result:
  assumes "valid_size sz" and "spsc_wf sz q"
  shows "fst (spsc_push sz x q) \<longleftrightarrow> length (spsc_contents sz q) < unat sz - 1"
    and "spsc_contents sz (snd (spsc_push sz x q)) =
      (if length (spsc_contents sz q) < unat sz - 1 then spsc_contents sz q @ [x] else spsc_contents sz q)"
proof -
  note queue = spsc_bounded_queue [OF assms(1)]
  show iff: "fst (spsc_push sz x q) \<longleftrightarrow> length (spsc_contents sz q) < unat sz - 1"
    by (rule bounded_queue.push_succeeds_iff [OF queue assms(2)])
  show "spsc_contents sz (snd (spsc_push sz x q)) =
      (if length (spsc_contents sz q) < unat sz - 1 then spsc_contents sz q @ [x] else spsc_contents sz q)"
    using bounded_queue.push_contents [OF queue assms(2), of x] iff by simp
qed

lemma spsc_pop_result:
  assumes "valid_size sz" and "spsc_wf sz q"
  shows "fst (spsc_pop sz q) = (case spsc_contents sz q of [] \<Rightarrow> None | x # _ \<Rightarrow> Some x)"
    and "spsc_contents sz (snd (spsc_pop sz q)) = drop 1 (spsc_contents sz q)"
proof -
  note queue = spsc_bounded_queue [OF assms(1)]
  have "fst (spsc_pop sz q) = (case spsc_contents sz q of [] \<Rightarrow> None | x # _ \<Rightarrow> Some x) \<and>
    spsc_contents sz (snd (spsc_pop sz q)) = drop 1 (spsc_contents sz q)"
  proof (cases "spsc_contents sz q")
    case Nil
    then show ?thesis using bounded_queue.pop_empty [OF queue assms(2)] by simp
  next
    case (Cons x xs)
    then show ?thesis using bounded_queue.pop_some [OF queue assms(2), of x xs] by simp
  qed
  then show "fst (spsc_pop sz q) = (case spsc_contents sz q of [] \<Rightarrow> None | x # _ \<Rightarrow> Some x)"
    "spsc_contents sz (snd (spsc_pop sz q)) = drop 1 (spsc_contents sz q)" by blast+
qed

text \<open>C24: For every power-of-two size the ring is a bounded queue: \<open>push\<close> appends and returns true unless
  \<open>Size - 1\<close> items are in it, when it changes nothing and returns false; \<open>pop\<close> takes the oldest item,
  and fails on an empty queue only; \<open>try_push\<close> and \<open>try_pop\<close> are the same; the positions stay inside
  the buffer.\<close>

theorem spsc_is_bounded_fifo:
  assumes "valid_size sz" and "spsc_wf sz q"
  shows "(fst (spsc_push sz x q) \<longleftrightarrow> length (spsc_contents sz q) < unat sz - 1) \<and>
    spsc_contents sz (snd (spsc_push sz x q)) =
      (if length (spsc_contents sz q) < unat sz - 1 then spsc_contents sz q @ [x] else spsc_contents sz q) \<and>
    fst (spsc_pop sz q) = (case spsc_contents sz q of [] \<Rightarrow> None | y # _ \<Rightarrow> Some y) \<and>
    spsc_contents sz (snd (spsc_pop sz q)) = drop 1 (spsc_contents sz q) \<and>
    spsc_wf sz (snd (spsc_push sz x q)) \<and> spsc_wf sz (snd (spsc_pop sz q)) \<and>
    spsc_try_push sz x q = spsc_push sz x q \<and> spsc_try_pop sz q = spsc_pop sz q"
  using spsc_push_result [OF assms] spsc_pop_result [OF assms] spsc_push_wf [OF assms] spsc_pop_wf [OF assms]
  by (simp add: spsc_try_push_def spsc_try_pop_def)

theorem spsc_is_bounded_fifo_witness:
  "spsc_contents 4 (snd (spsc_push 4 CHR ''a'' (spsc_new (\<lambda>_. CHR ''-'')))) = ''a''"
proof -
  have "valid_size 4" by (simp add: valid_size_def)
  from spsc_is_bounded_fifo [OF this spsc_new_wf [OF this], of "CHR ''a''" "\<lambda>_. CHR ''-''"]
  show ?thesis by (simp add: spsc_count_def spsc_new_def spsc_contents_def)
qed

text \<open>The monitoring calls are exact while no other thread is active: \<open>size\<close> is the number of items,
  \<open>empty\<close> and \<open>full\<close> say when a pop and a push would fail, and \<open>size\<close> never exceeds \<open>capacity\<close>.\<close>

theorem spsc_monitoring_exact:
  assumes "valid_size sz" and "spsc_wf sz q"
  shows "unat (spsc_size sz q) = length (spsc_contents sz q) \<and>
    (spsc_empty q \<longleftrightarrow> fst (spsc_pop sz q) = None) \<and> (spsc_full sz q \<longleftrightarrow> \<not> fst (spsc_push sz x q)) \<and>
    (spsc_full sz q \<longleftrightarrow> spsc_size sz q = spsc_capacity sz) \<and> spsc_size sz q \<le> spsc_capacity sz"
proof -
  have cap: "unat (spsc_capacity sz) = unat sz - 1"
    using valid_size_gt [OF assms(1)] by (simp add: spsc_capacity_def unat_sub_if')
  have len: "length (spsc_contents sz q) \<le> unat sz - 1" using spsc_count_less [OF assms(1)] by simp
  show ?thesis
    using spsc_size_eq [OF assms(2)] spsc_empty_iff [OF assms(2)] spsc_full_iff [OF assms] cap len
      spsc_pop_result(1) [OF assms] spsc_push_result(1) [OF assms, of x]
    by (auto simp: word_unat_eq_iff word_le_nat_alt split: list.splits)
qed

theorem spsc_monitoring_exact_witness:
  "spsc_size 8 \<lparr>write_pos = 2, buffer = (\<lambda>_. ()), read_pos = 7\<rparr> = 3 \<and>
   unat (spsc_size 8 \<lparr>write_pos = 2, buffer = (\<lambda>_. ()), read_pos = 7\<rparr>) =
     length (spsc_contents 8 \<lparr>write_pos = 2, buffer = (\<lambda>_. ()), read_pos = 7\<rparr>)"
proof -
  have "valid_size 8" "spsc_wf 8 \<lparr>write_pos = 2, buffer = (\<lambda>_. ()), read_pos = 7\<rparr>"
    by (simp_all add: valid_size_def spsc_wf_def)
  from spsc_monitoring_exact [OF this] show ?thesis by (simp add: spsc_size_def)
qed

text \<open>What goes in comes out: pushing any items that fit into a new queue and popping until it is empty
  returns exactly these items in their order; of more items, those beyond \<open>Size - 1\<close> are lost.\<close>

theorem spsc_round_trip:
  assumes "valid_size sz"
  shows "map_option snd (drain (spsc_pop sz) (\<lambda>x out. out @ [x])
      (push_all (spsc_push sz) xs (spsc_new b)) []) = Some (take (unat sz - 1) xs)"
proof -
  note queue = spsc_bounded_queue [OF assms]
  let ?q = "push_all (spsc_push sz) xs (spsc_new b)"
  have c: "spsc_contents sz ?q = take (unat sz - 1) xs" and wf: "spsc_wf sz ?q"
    using bounded_queue.push_all_drops [OF queue spsc_new_wf [OF assms], of xs]
    by (simp_all add: spsc_new_contents)
  have "fold (\<lambda>x out. out @ [x]) ys out = out @ ys" for ys out :: "'a list"
    by (induction ys arbitrary: out) simp_all
  with bounded_queue.drain_contents [OF queue wf, of "\<lambda>x out. out @ [x]" "[]"] c show ?thesis
    by auto
qed

theorem spsc_round_trip_witness:
  "map_option snd (drain (spsc_pop 4) (\<lambda>x out. out @ [x])
      (push_all (spsc_push 4) ''abcde'' (spsc_new (\<lambda>_. CHR ''-''))) []) = Some ''abc''"
proof -
  have v: "valid_size 4" by (simp add: valid_size_def)
  have n: "unat (4 :: 64 word) - 1 = 3" by simp
  have "take 3 ''abcde'' = ''abc''" by (simp add: take_Cons')
  with spsc_round_trip [OF v, of "''abcde''" "\<lambda>_. CHR ''-''"] show ?thesis unfolding n by (rule_tac trans) simp_all
qed

end
