(* ===== verification/Cformat.thy ===== *)
theory Cformat
  imports Int64
begin

text \<open>
  The part of the C library's formatted output that the code uses: decimal conversions \<open>%u\<close>, \<open>%d\<close>,
  \<open>%ld\<close> and \<open>%0Nd\<close>, the truncation of \<open>snprintf\<close> to its buffer, and C strings, which end at the first
  NUL. A string in a fixed \<open>char\<close> array is modelled by the characters before its NUL.
\<close>

definition digit_char :: "nat \<Rightarrow> char" where
  "digit_char d = char_of (48 + d)"

fun digits :: "nat \<Rightarrow> string" where
  "digits n = (if n < 10 then [digit_char n] else digits (n div 10) @ [digit_char (n mod 10)])"

declare digits.simps [simp del]

definition show_unsigned :: "nat \<Rightarrow> string" where
  "show_unsigned n = digits n"

definition show_signed :: "int \<Rightarrow> string" where
  "show_signed n = (if n < 0 then ''-'' else []) @ digits (nat \<bar>n\<bar>)"

text \<open>\<open>%0Nd\<close>: the sign first, then zeros up to the width \<open>N\<close>.\<close>

definition show_padded :: "nat \<Rightarrow> int \<Rightarrow> string" where
  "show_padded w n =
     (let sgn = (if n < 0 then ''-'' else []); ds = digits (nat \<bar>n\<bar>)
      in sgn @ replicate (w - (length sgn + length ds)) (CHR ''0'') @ ds)"

definition snprintf :: "nat \<Rightarrow> string \<Rightarrow> string" where
  "snprintf bufsz text = take (bufsz - 1) text"

definition c_str :: "string \<Rightarrow> string" where
  "c_str s = takeWhile (\<lambda>c. c \<noteq> CHR 0x00) s"

section \<open>Lengths\<close>

lemma digits_nonempty [simp]: "digits n \<noteq> []"
  by (subst digits.simps) simp

lemma length_digits_le: "n < 10 ^ k \<Longrightarrow> 0 < k \<Longrightarrow> length (digits n) \<le> k"
proof (induction n arbitrary: k rule: digits.induct)
  case (1 n)
  show ?case
  proof (cases "n < 10")
    case True
    with "1.prems" show ?thesis by (subst digits.simps) simp
  next
    case False
    with "1.prems" obtain j where j: "k = Suc j" "0 < j"
      by (cases k; cases "k = 1") auto
    with "1.prems" have "n div 10 < 10 ^ j" by (simp add: less_mult_imp_div_less mult.commute)
    with "1.IH" False j have "length (digits (n div 10)) \<le> j" by simp
    with False j show ?thesis by (subst digits.simps) simp
  qed
qed

lemma length_show_padded:
  assumes "0 \<le> n" and "n < 10 ^ w" and "0 < w"
  shows "length (show_padded w n) = w"
proof -
  have "nat \<bar>n\<bar> < 10 ^ w" using assms(1,2) by (simp add: nat_less_iff)
  then have "length (digits (nat \<bar>n\<bar>)) \<le> w" using assms(3) by (rule length_digits_le)
  with assms(1) show ?thesis by (simp add: show_padded_def Let_def)
qed

lemma length_show_unsigned_u32: "length (show_unsigned (unat (w :: 32 word))) \<le> 10"
proof -
  have "unat w < 2 ^ 32" using unsigned_less [of w] by simp
  then show ?thesis by (simp add: show_unsigned_def length_digits_le)
qed

lemma length_show_signed_i64: "length (show_signed (ival x)) \<le> 20"
proof -
  have "nat \<bar>ival x\<bar> < 10 ^ 19"
    using in_i64_ival [of x] by (auto simp: in_i64_def)
  then have "length (digits (nat \<bar>ival x\<bar>)) \<le> 19"
    by (rule length_digits_le) simp
  then show ?thesis by (auto simp: show_signed_def intro: le_SucI)
qed

lemma length_snprintf: "length (snprintf bufsz text) \<le> bufsz - 1"
  by (simp add: snprintf_def)

lemma snprintf_fits: "length text < bufsz \<Longrightarrow> snprintf bufsz text = text"
  by (simp add: snprintf_def)

section \<open>No digit is a NUL\<close>

lemma digit_char_ne_NUL [simp]: "d < 10 \<Longrightarrow> digit_char d \<noteq> CHR 0x00"
proof
  assume "d < 10" and "digit_char d = CHR 0x00"
  then have "of_char (digit_char d) = (0 :: nat)" by simp
  with \<open>d < 10\<close> show False by (simp add: digit_char_def of_char_of take_bit_eq_mod)
qed

lemma NUL_ne_digit_char [simp]: "d < 10 \<Longrightarrow> CHR 0x00 \<noteq> digit_char d"
  using digit_char_ne_NUL [of d] by metis

lemma NUL_notin_digits [simp]: "CHR 0x00 \<notin> set (digits n)"
proof (induction n rule: digits.induct)
  case (1 n)
  then show ?case
    using NUL_ne_digit_char [of n] NUL_ne_digit_char [of "n mod 10"] by (subst digits.simps) auto
qed

lemma NUL_notin_show [simp]:
  "CHR 0x00 \<notin> set (show_unsigned n)" "CHR 0x00 \<notin> set (show_signed i)"
  "CHR 0x00 \<notin> set (show_padded w i)"
  by (auto simp: show_unsigned_def show_signed_def show_padded_def Let_def)

lemma c_str_id: "CHR 0x00 \<notin> set s \<Longrightarrow> c_str s = s"
  by (induction s) (auto simp: c_str_def)

end
