(* ===== verification/Async_Logger.thy ===== *)
theory Async_Logger
  imports SPSC_Queue Cformat Timestamp
begin

text \<open>
  \<open>include/utils/AsyncLogger.hpp\<close>: the logger that hot-path threads push messages into and a
  background thread writes out. Files and the standard output are strings that writing appends to;
  whether a file opens is decided outside the program, and so is the calendar (\<open>localtime\<close>).
\<close>

section \<open>Levels and messages\<close>

datatype log_level = TRACE | DEBUG | INFO | WARN | ERROR | FATAL

primrec level_code :: "log_level \<Rightarrow> 8 word" where
  "level_code TRACE = 0"
| "level_code DEBUG = 1"
| "level_code INFO = 2"
| "level_code WARN = 3"
| "level_code ERROR = 4"
| "level_code FATAL = 5"

instantiation log_level :: linorder
begin

definition less_eq_log_level :: "log_level \<Rightarrow> log_level \<Rightarrow> bool" where
  "a \<le> b \<longleftrightarrow> level_code a \<le> level_code b"

definition less_log_level :: "log_level \<Rightarrow> log_level \<Rightarrow> bool" where
  "a < b \<longleftrightarrow> level_code a < level_code b"

instance
proof
  fix a b :: log_level
  show "a \<le> b \<Longrightarrow> b \<le> a \<Longrightarrow> a = b"
    by (cases a; cases b) (simp_all add: less_eq_log_level_def word_le_nat_alt)
qed (auto simp: less_eq_log_level_def less_log_level_def)

end

record log_message =
  level :: log_level
  logged_ns :: i64
  thread_id :: "32 word"
  message :: string

definition LogMessage_default :: log_message where
  "LogMessage_default = \<lparr>level = INFO, logged_ns = 0, thread_id = 0, message = []\<rparr>"

text \<open>
  The constructor reads the clock and copies at most 255 characters of the C string
  (\<open>strncpy\<close> into \<open>char[256]\<close>, then the terminator).
\<close>

definition LogMessage_new ::
  "log_level \<Rightarrow> string \<Rightarrow> 32 word \<Rightarrow> clocks \<Rightarrow> (log_message \<times> clocks) res" where
  "LogMessage_new lvl msg tid c =
     andThen (getTimestampNs c) (\<lambda>(t, c').
       Inr (\<lparr>level = lvl, logged_ns = t, thread_id = tid, message = take 255 (c_str msg)\<rparr>, c'))"

definition levelToString :: "log_level \<Rightarrow> string" where
  "levelToString lvl =
     (case lvl of TRACE \<Rightarrow> ''TRACE'' | DEBUG \<Rightarrow> ''DEBUG'' | INFO \<Rightarrow> ''INFO '' | WARN \<Rightarrow> ''WARN ''
      | ERROR \<Rightarrow> ''ERROR'' | FATAL \<Rightarrow> ''FATAL'')"

record tm =
  tm_year :: int
  tm_mon :: int
  tm_mday :: int
  tm_hour :: int
  tm_min :: int
  tm_sec :: int

definition formatTimestamp :: "(i64 \<Rightarrow> tm) \<Rightarrow> i64 \<Rightarrow> string" where
  "formatTimestamp localtime ns =
     (let seconds = i64_quot ns 1000000000; nanos = i64_rem ns 1000000000; t = localtime seconds
      in snprintf 64
        (show_padded 4 (tm_year t + 1900) @ ''-'' @ show_padded 2 (tm_mon t + 1) @ ''-'' @
         show_padded 2 (tm_mday t) @ '' '' @ show_padded 2 (tm_hour t) @ '':'' @
         show_padded 2 (tm_min t) @ '':'' @ show_padded 2 (tm_sec t) @ ''.'' @
         show_padded 9 (ival nanos)))"

definition newline :: string where
  "newline = [CHR 0x0A]"

definition format_line :: "(i64 \<Rightarrow> tm) \<Rightarrow> log_message \<Rightarrow> string" where
  "format_line localtime m =
     ''['' @ levelToString (level m) @ ''] ['' @ formatTimestamp localtime (logged_ns m) @ ''] [T'' @
     show_unsigned (unat (thread_id m)) @ ''] '' @ message m @ newline"

section \<open>Output\<close>

text \<open>The file stream: its path and whether it opened. A stream that did not open discards output.\<close>

record ofstream =
  path :: string
  is_open :: bool

record log_output =
  log_file :: "ofstream option"
  files :: "string \<Rightarrow> string"
  stdout :: string

definition writeLogMessage :: "(i64 \<Rightarrow> tm) \<Rightarrow> log_message \<Rightarrow> log_output \<Rightarrow> log_output" where
  "writeLogMessage localtime m out =
     (let log_line = format_line localtime m
      in case log_file out of
           None \<Rightarrow> out\<lparr>stdout := stdout out @ log_line\<rparr>
         | Some f \<Rightarrow>
             if is_open f
             then out\<lparr>files := (files out)(path f := files out (path f) @ log_line)\<rparr>
             else out)"

section \<open>The logger\<close>

definition QUEUE_SIZE :: "64 word" where
  "QUEUE_SIZE = 65536"

record async_logger =
  running :: bool
  min_level :: log_level
  queue :: "log_message spsc"
  log_thread :: bool
  sink :: log_output

definition AsyncLogger_new :: "log_output \<Rightarrow> async_logger" where
  "AsyncLogger_new out =
     \<lparr>running = False, min_level = INFO, queue = spsc_new (\<lambda>_. LogMessage_default), log_thread = False,
      sink = out\<lparr>log_file := None\<rparr>\<rparr>"

definition start :: "string \<Rightarrow> (string \<Rightarrow> bool) \<Rightarrow> async_logger \<Rightarrow> bool \<times> async_logger" where
  "start file_path opens lg =
     (if running lg then (False, lg)
      else
        let lg' = (if file_path = [] then lg
                   else lg\<lparr>sink := (sink lg)\<lparr>log_file :=
                          Some \<lparr>path = file_path, is_open = opens file_path\<rparr>\<rparr>\<rparr>)
        in if file_path \<noteq> [] \<and> \<not> opens file_path then (False, lg')
           else (True, lg'\<lparr>running := True, log_thread := True\<rparr>))"

definition setLevel :: "log_level \<Rightarrow> async_logger \<Rightarrow> async_logger" where
  "setLevel lvl lg = lg\<lparr>min_level := lvl\<rparr>"

text \<open>\<open>log\<close> says, besides the new state, nothing: a message that is filtered or dropped is just gone.\<close>

definition log_msg ::
  "log_level \<Rightarrow> string \<Rightarrow> 32 word \<Rightarrow> clocks \<Rightarrow> async_logger \<Rightarrow> (clocks \<times> async_logger) res" where
  "log_msg lvl msg tid c lg =
     (if lvl < min_level lg then Inr (c, lg)
      else if \<not> running lg then Inr (c, lg)
      else andThen (LogMessage_new lvl msg tid c) (\<lambda>(m, c').
             Inr (c', lg\<lparr>queue := snd (spsc_push QUEUE_SIZE m (queue lg))\<rparr>)))"

definition log_trace where "log_trace = log_msg TRACE"
definition log_debug where "log_debug = log_msg DEBUG"
definition log_info where "log_info = log_msg INFO"
definition log_warn where "log_warn = log_msg WARN"
definition log_error where "log_error = log_msg ERROR"
definition log_fatal where "log_fatal = log_msg FATAL"

text \<open>\<open>logf\<close>: \<open>text\<close> is the expansion of the format, which \<open>snprintf\<close> cuts to its buffer.\<close>

definition logf ::
  "log_level \<Rightarrow> string \<Rightarrow> 32 word \<Rightarrow> clocks \<Rightarrow> async_logger \<Rightarrow> (clocks \<times> async_logger) res" where
  "logf lvl expansion tid c lg =
     (if lvl < min_level lg then Inr (c, lg)
      else log_msg lvl (snprintf 256 expansion) tid c lg)"

definition flush :: "(i64 \<Rightarrow> tm) \<Rightarrow> async_logger \<Rightarrow> async_logger option" where
  "flush localtime lg =
     (case drain (spsc_pop QUEUE_SIZE) (writeLogMessage localtime) (queue lg) (sink lg) of
        None \<Rightarrow> None
      | Some (q, out) \<Rightarrow> Some (lg\<lparr>queue := q, sink := out\<rparr>))"

definition queueSize :: "async_logger \<Rightarrow> 64 word" where
  "queueSize lg = spsc_size QUEUE_SIZE (queue lg)"

section \<open>The background thread\<close>

definition flush_interval_ns :: int where
  "flush_interval_ns = 100000000"

text \<open>
  One turn of the loop of \<open>logWorker\<close>, with its local \<open>last_flush\<close>. Flushing the stream does not
  change what has been written to it.
\<close>

definition worker_turn ::
  "(i64 \<Rightarrow> tm) \<Rightarrow> clocks \<Rightarrow> i64 \<Rightarrow> async_logger \<Rightarrow> (clocks \<times> i64 \<times> async_logger) res" where
  "worker_turn localtime c last_flush lg =
     (case spsc_pop QUEUE_SIZE (queue lg) of
        (Some m, q) \<Rightarrow>
          andThen (getMonotonicNs c) (\<lambda>(now, c').
            Inr (c', now, lg\<lparr>queue := q, sink := writeLogMessage localtime m (sink lg)\<rparr>))
      | (None, q) \<Rightarrow>
          andThen (getMonotonicNs c) (\<lambda>(now, c').
            andThen (i64_sub now last_flush) (\<lambda>d.
              Inr (c', if ival d > flush_interval_ns then now else last_flush, lg\<lparr>queue := q\<rparr>))))"

definition worker_continues :: "async_logger \<Rightarrow> bool" where
  "worker_continues lg \<longleftrightarrow> running lg \<or> \<not> spsc_empty (queue lg)"

partial_function (option) worker_loop ::
  "(i64 \<Rightarrow> tm) \<Rightarrow> clocks \<Rightarrow> i64 \<Rightarrow> async_logger \<Rightarrow> (clocks \<times> async_logger) res option" where
  "worker_loop localtime c last_flush lg =
     (if worker_continues lg
      then (case worker_turn localtime c last_flush lg of
              Inl f \<Rightarrow> Some (Inl f)
            | Inr (c', last_flush', lg') \<Rightarrow> worker_loop localtime c' last_flush' lg')
      else Some (Inr (c, lg)))"

text \<open>The whole thread function, from where \<open>last_flush\<close> is read.\<close>

definition logWorker ::
  "(i64 \<Rightarrow> tm) \<Rightarrow> clocks \<Rightarrow> async_logger \<Rightarrow> (clocks \<times> async_logger) res option" where
  "logWorker localtime c lg =
     (case getMonotonicNs c of
        Inl f \<Rightarrow> Some (Inl f)
      | Inr (t, c') \<Rightarrow>
          (case worker_loop localtime c' t lg of
             None \<Rightarrow> None
           | Some (Inl f) \<Rightarrow> Some (Inl f)
           | Some (Inr (c'', lg')) \<Rightarrow> map_option (\<lambda>lg''. Inr (c'', lg'')) (flush localtime lg')))"

text \<open>
  \<open>stop\<close>, called while the background thread is at the head of its loop with \<open>last_flush\<close>: the thread
  sees \<open>running_\<close> false, runs to its end (joined), then the caller flushes and closes the file.
\<close>

definition stop ::
  "(i64 \<Rightarrow> tm) \<Rightarrow> clocks \<Rightarrow> i64 \<Rightarrow> async_logger \<Rightarrow> (clocks \<times> async_logger) res option" where
  "stop localtime c last_flush lg =
     (if \<not> running lg then Some (Inr (c, lg))
      else
        let lg1 = lg\<lparr>running := False\<rparr> in
        case (if log_thread lg1
              then (case worker_loop localtime c last_flush lg1 of
                      None \<Rightarrow> None
                    | Some (Inl f) \<Rightarrow> Some (Inl f)
                    | Some (Inr (c', lg2)) \<Rightarrow>
                        map_option (\<lambda>lg3. Inr (c', lg3\<lparr>log_thread := False\<rparr>)) (flush localtime lg2))
              else Some (Inr (c, lg1))) of
          None \<Rightarrow> None
        | Some (Inl f) \<Rightarrow> Some (Inl f)
        | Some (Inr (c', lg4)) \<Rightarrow>
            map_option (\<lambda>lg5. Inr (c', lg5\<lparr>sink := (sink lg5)\<lparr>log_file := None\<rparr>\<rparr>))
              (flush localtime lg4))"

text \<open>The destructor, when the background thread is at the head of its loop.\<close>

definition AsyncLogger_destroy ::
  "(i64 \<Rightarrow> tm) \<Rightarrow> clocks \<Rightarrow> i64 \<Rightarrow> async_logger \<Rightarrow> (clocks \<times> async_logger) res option" where
  "AsyncLogger_destroy = stop"

section \<open>The logger's queue\<close>

lemma valid_QUEUE_SIZE: "valid_size QUEUE_SIZE"
  by (simp add: valid_size_def QUEUE_SIZE_def)

interpretation log_queue: bounded_queue "spsc_wf QUEUE_SIZE" "spsc_contents QUEUE_SIZE"
  "unat QUEUE_SIZE - 1" "spsc_push QUEUE_SIZE" "spsc_pop QUEUE_SIZE"
  by (rule spsc_bounded_queue [OF valid_QUEUE_SIZE])

definition pending :: "async_logger \<Rightarrow> log_message list" where
  "pending lg = spsc_contents QUEUE_SIZE (queue lg)"

definition logger_wf :: "async_logger \<Rightarrow> bool" where
  "logger_wf lg \<longleftrightarrow> spsc_wf QUEUE_SIZE (queue lg)"

definition emit :: "(i64 \<Rightarrow> tm) \<Rightarrow> log_message list \<Rightarrow> log_output \<Rightarrow> log_output" where
  "emit localtime ms out = fold (writeLogMessage localtime) ms out"

lemma emit_simps [simp]:
  "emit lt [] out = out"
  "emit lt (m # ms) out = emit lt ms (writeLogMessage lt m out)"
  "emit lt (ms @ ns) out = emit lt ns (emit lt ms out)"
  by (simp_all add: emit_def)

lemma AsyncLogger_new_wf: "logger_wf (AsyncLogger_new out)" "pending (AsyncLogger_new out) = []"
  by (simp_all add: logger_wf_def pending_def AsyncLogger_new_def spsc_new_wf valid_QUEUE_SIZE
      spsc_new_contents)

lemma flush_writes:
  assumes "logger_wf lg"
  obtains lg' where "flush lt lg = Some lg'" and "logger_wf lg'" and "pending lg' = []"
    and "sink lg' = emit lt (pending lg) (sink lg)" and "running lg' = running lg"
    and "log_thread lg' = log_thread lg" and "min_level lg' = min_level lg"
proof -
  have "spsc_wf QUEUE_SIZE (queue lg)" using assms by (simp add: logger_wf_def)
  then obtain q' where "drain (spsc_pop QUEUE_SIZE) (writeLogMessage lt) (queue lg) (sink lg) =
      Some (q', fold (writeLogMessage lt) (pending lg) (sink lg))"
    "spsc_wf QUEUE_SIZE q'" "spsc_contents QUEUE_SIZE q' = []"
    using log_queue.drain_contents by (metis pending_def)
  then show thesis
    using that [of "lg\<lparr>queue := q', sink := fold (writeLogMessage lt) (pending lg) (sink lg)\<rparr>"]
    by (simp add: flush_def logger_wf_def pending_def emit_def)
qed

section \<open>What reaches the output\<close>

text \<open>The text that the sink has received so far; a stream that did not open has none.\<close>

definition sink_text :: "log_output \<Rightarrow> string" where
  "sink_text out =
     (case log_file out of None \<Rightarrow> stdout out
      | Some f \<Rightarrow> if is_open f then files out (path f) else [])"

definition sink_works :: "log_output \<Rightarrow> bool" where
  "sink_works out \<longleftrightarrow> (case log_file out of None \<Rightarrow> True | Some f \<Rightarrow> is_open f)"

definition lines :: "(i64 \<Rightarrow> tm) \<Rightarrow> log_message list \<Rightarrow> string" where
  "lines localtime ms = concat (map (format_line localtime) ms)"

lemma log_file_write [simp]: "log_file (writeLogMessage lt m out) = log_file out"
  by (simp add: writeLogMessage_def Let_def split: option.split)

lemma log_file_emit [simp]: "log_file (emit lt ms out) = log_file out"
  by (induction ms arbitrary: out) simp_all

lemma sink_text_emit:
  "sink_works out \<Longrightarrow> sink_text (emit lt ms out) = sink_text out @ lines lt ms"
proof (induction ms arbitrary: out)
  case Nil
  then show ?case by (simp add: lines_def)
next
  case (Cons m ms)
  have "sink_text (writeLogMessage lt m out) = sink_text out @ format_line lt m"
    using Cons.prems
    by (auto simp: sink_text_def sink_works_def writeLogMessage_def Let_def split: option.splits)
  moreover have "sink_works (writeLogMessage lt m out)"
    using Cons.prems by (simp add: sink_works_def)
  ultimately show ?case using Cons.IH by (simp add: lines_def)
qed

lemma broken_sink_emit:
  "\<not> sink_works out \<Longrightarrow> emit lt ms out = out"
proof (induction ms)
  case (Cons m ms)
  then have "writeLogMessage lt m out = out"
    by (auto simp: sink_works_def writeLogMessage_def Let_def split: option.splits)
  with Cons show ?case by simp
qed simp

section \<open>log\<close>

text \<open>The message that a call puts into the queue, if it does.\<close>

definition accepted ::
  "log_level \<Rightarrow> string \<Rightarrow> 32 word \<Rightarrow> clocks \<Rightarrow> async_logger \<Rightarrow> log_message option" where
  "accepted lvl msg tid c lg =
     (if min_level lg \<le> lvl \<and> running lg \<and> spsc_count QUEUE_SIZE (queue lg) < unat QUEUE_SIZE - 1
      then Some \<lparr>level = lvl, logged_ns = clock_now c, thread_id = tid, message = take 255 (c_str msg)\<rparr>
      else None)"

lemma log_msg_effect:
  assumes "logger_wf lg" and "clocks_ok c"
  obtains c' lg' where "log_msg lvl msg tid c lg = Inr (c', lg')" and "clocks_ok c'"
    and "logger_wf lg'" and "pending lg' = pending lg @ (case accepted lvl msg tid c lg of None \<Rightarrow> [] | Some m \<Rightarrow> [m])"
    and "sink lg' = sink lg" and "running lg' = running lg" and "log_thread lg' = log_thread lg"
    and "min_level lg' = min_level lg"
proof (cases "min_level lg \<le> lvl \<and> running lg")
  case False
  with assms show thesis
    by (intro that [of c lg]) (auto simp: log_msg_def accepted_def not_le)
next
  case True
  let ?m = "\<lparr>level = lvl, logged_ns = clock_now c, thread_id = tid, message = take 255 (c_str msg)\<rparr>"
  have new: "LogMessage_new lvl msg tid c = Inr (?m, c\<lparr>realtime_reads := Suc (realtime_reads c)\<rparr>)"
    using assms(2) by (simp add: LogMessage_new_def getTimestampNs_ok)
  have wf: "spsc_wf QUEUE_SIZE (queue lg)" using assms(1) by (simp add: logger_wf_def)
  show thesis
    using True assms new log_queue.push_contents [OF wf, of ?m] log_queue.push_succeeds_iff [OF wf, of ?m]
      log_queue.push_invar [OF wf, of ?m]
    by (intro that [of "c\<lparr>realtime_reads := Suc (realtime_reads c)\<rparr>"
          "lg\<lparr>queue := snd (spsc_push QUEUE_SIZE ?m (queue lg))\<rparr>"])
      (auto simp: log_msg_def accepted_def logger_wf_def pending_def not_le)
qed

section \<open>The background thread\<close>

lemma getMonotonicNs_total:
  assumes "clocks_ok c"
  obtains t c' where "getMonotonicNs c = Inr (t, c')" and "clocks_ok c'" and "0 \<le> ival t"
proof -
  have "valid_timespec (monotonic c (monotonic_reads c))" using assms by (simp add: clocks_ok_def)
  then show ?thesis using assms that timespec_value_bounds by (simp add: getMonotonicNs_ok)
qed

lemma worker_turn_effect:
  assumes wf: "logger_wf lg" and clk: "clocks_ok c" and lf: "0 \<le> ival last_flush"
  obtains c' last_flush' lg' where
    "worker_turn lt c last_flush lg = Inr (c', last_flush', lg')"
    and "clocks_ok c'" and "0 \<le> ival last_flush'" and "logger_wf lg'"
    and "pending lg' = drop 1 (pending lg)" and "sink lg' = emit lt (take 1 (pending lg)) (sink lg)"
    and "running lg' = running lg" and "log_thread lg' = log_thread lg" and "min_level lg' = min_level lg"
proof -
  obtain t c' where t: "getMonotonicNs c = Inr (t, c')" "clocks_ok c'" "0 \<le> ival t"
    using clk by (rule getMonotonicNs_total)
  have q: "spsc_wf QUEUE_SIZE (queue lg)" using wf by (simp add: logger_wf_def)
  show thesis
  proof (cases "pending lg")
    case Nil
    have "in_i64 (ival t - ival last_flush)"
      using t(3) lf in_i64_ival [of t] in_i64_ival [of last_flush] by (simp add: in_i64_def)
    then have "worker_turn lt c last_flush lg =
        Inr (c', if ival t - ival last_flush > flush_interval_ns then t else last_flush, lg)"
      using t Nil log_queue.pop_empty [OF q]
      by (simp add: worker_turn_def pending_def i64_sub_def)
    with Nil t lf wf show thesis
      by (intro that [of c' "if ival t - ival last_flush > flush_interval_ns then t else last_flush" lg]) simp_all
  next
    case (Cons m ms)
    then have "fst (spsc_pop QUEUE_SIZE (queue lg)) = Some m"
      "spsc_contents QUEUE_SIZE (snd (spsc_pop QUEUE_SIZE (queue lg))) = ms"
      using log_queue.pop_some [OF q] by (simp_all add: pending_def)
    with t Cons log_queue.pop_invar [OF q] show thesis
      by (intro that [of c' t "lg\<lparr>queue := snd (spsc_pop QUEUE_SIZE (queue lg)),
          sink := writeLogMessage lt m (sink lg)\<rparr>"])
        (simp_all add: worker_turn_def logger_wf_def pending_def split_beta split: option.split)
  qed
qed

lemma worker_continues_iff:
  "logger_wf lg \<Longrightarrow> worker_continues lg \<longleftrightarrow> running lg \<or> pending lg \<noteq> []"
  by (simp add: worker_continues_def logger_wf_def pending_def spsc_empty_iff)

text \<open>Once \<open>running_\<close> is false the loop ends, with everything written.\<close>

lemma worker_loop_drains:
  assumes "logger_wf lg" and "clocks_ok c" and "0 \<le> ival last_flush" and "\<not> running lg"
  shows "\<exists>c' lg'. worker_loop lt c last_flush lg = Some (Inr (c', lg')) \<and> clocks_ok c' \<and> logger_wf lg' \<and>
    pending lg' = [] \<and> sink lg' = emit lt (pending lg) (sink lg) \<and> \<not> running lg' \<and>
    log_thread lg' = log_thread lg \<and> min_level lg' = min_level lg"
  using assms
proof (induction "length (pending lg)" arbitrary: lg c last_flush)
  case 0
  then show ?case by (simp add: worker_loop.simps worker_continues_iff)
next
  case (Suc n)
  from Suc.prems(1-3) obtain c' lf' lg' where turn:
    "worker_turn lt c last_flush lg = Inr (c', lf', lg')" "clocks_ok c'" "0 \<le> ival lf'" "logger_wf lg'"
    "pending lg' = drop 1 (pending lg)" "sink lg' = emit lt (take 1 (pending lg)) (sink lg)"
    "running lg' = running lg" "log_thread lg' = log_thread lg" "min_level lg' = min_level lg"
    by (rule worker_turn_effect)
  have "worker_loop lt c last_flush lg = worker_loop lt c' lf' lg'"
    using Suc.prems Suc.hyps(2) turn(1) by (subst worker_loop.simps) (auto simp: worker_continues_iff)
  moreover have "emit lt (pending lg') (sink lg') = emit lt (pending lg) (sink lg)"
    using turn(5,6) by (metis append_take_drop_id emit_simps(3))
  moreover have "n = length (pending lg')" using Suc.hyps(2) turn(5) by simp
  ultimately show ?case
    using Suc.hyps(1) [of lg' c' lf'] Suc.prems turn by simp
qed

lemma stop_drains:
  assumes wf: "logger_wf lg" and clk: "clocks_ok c" and lf: "0 \<le> ival last_flush" and run: "running lg"
  obtains c' lg' where "stop lt c last_flush lg = Some (Inr (c', lg'))"
    and "sink lg' = (emit lt (pending lg) (sink lg))\<lparr>log_file := None\<rparr>" and "pending lg' = []"
    and "\<not> running lg'" and "logger_wf lg'"
proof -
  let ?lg1 = "lg\<lparr>running := False\<rparr>"
  have wf1: "logger_wf ?lg1" and p1: "pending ?lg1 = pending lg"
    using wf by (simp_all add: logger_wf_def pending_def)
  obtain c' lg4 where joined:
    "(if log_thread ?lg1
      then (case worker_loop lt c last_flush ?lg1 of
              None \<Rightarrow> None
            | Some (Inl f) \<Rightarrow> Some (Inl f)
            | Some (Inr (c', lg2)) \<Rightarrow>
                map_option (\<lambda>lg3. Inr (c', lg3\<lparr>log_thread := False\<rparr>)) (flush lt lg2))
      else Some (Inr (c, ?lg1))) = Some (Inr (c', lg4))"
    and lg4: "logger_wf lg4" "emit lt (pending lg4) (sink lg4) = emit lt (pending lg) (sink lg)"
      "\<not> running lg4"
  proof (cases "log_thread lg")
    case False
    then show thesis using that [of c ?lg1] wf1 p1 by simp
  next
    case True
    obtain c2 lg2 where loop: "worker_loop lt c last_flush ?lg1 = Some (Inr (c2, lg2))" "logger_wf lg2"
      "pending lg2 = []" "sink lg2 = emit lt (pending lg) (sink lg)" "\<not> running lg2"
      using worker_loop_drains [OF wf1 clk lf, of lt] p1 by auto
    obtain lg3 where "flush lt lg2 = Some lg3" "logger_wf lg3" "pending lg3 = []"
      "sink lg3 = emit lt (pending lg2) (sink lg2)" "running lg3 = running lg2"
      using loop(2) by (rule flush_writes)
    with True loop show thesis
      using that [of c2 "lg3\<lparr>log_thread := False\<rparr>"] by (simp add: logger_wf_def pending_def)
  qed
  obtain lg5 where "flush lt lg4 = Some lg5" "logger_wf lg5" "pending lg5 = []"
    "sink lg5 = emit lt (pending lg4) (sink lg4)" "running lg5 = running lg4"
    using lg4(1) by (rule flush_writes)
  with joined lg4 run show thesis
    by (intro that [of c' "lg5\<lparr>sink := (sink lg5)\<lparr>log_file := None\<rparr>\<rparr>"])
      (simp_all add: stop_def Let_def logger_wf_def pending_def)
qed

end
