(* ===== verification/Matcher.thy ===== *)
theory Matcher
  imports Order_Book Async_Logger
begin

text \<open>
  \<open>include/order_matching/Matcher.hpp\<close>: the trade record and the matching loop. The state of the loop is
  the book it is given, the memory of the orders with the clocks, the trade it remembers and the
  process-wide logger that every trade is reported to. \<open>tid\<close> is the id that the logger has given to
  the calling thread.
\<close>

section \<open>Trades\<close>

record trade =
  buy_order_id :: order_ident
  sell_order_id :: order_ident
  trade_quantity :: qty
  trade_price :: price
  trade_time :: timestamp

definition Trade_new :: "order_ident \<Rightarrow> order_ident \<Rightarrow> qty \<Rightarrow> price \<Rightarrow> timestamp \<Rightarrow> trade" where
  "Trade_new buy_id sell_id q pr ts =
     \<lparr>buy_order_id = buy_id, sell_order_id = sell_id, trade_quantity = q, trade_price = pr, trade_time = ts\<rparr>"

text \<open>The last trade has no value before the first one: the default constructor sets nothing.\<close>

record match_state =
  book_of :: order_book
  memory_of :: memory
  last_trade :: "trade option"
  logger_of :: async_logger

definition getLastTrade :: "match_state \<Rightarrow> trade option" where
  "getLastTrade st = last_trade st"

text \<open>The format \<open>"Trade: %u @ %ld (Bid:%u Ask:%u Qty:%u)"\<close>.\<close>

definition trade_text :: "qty \<Rightarrow> price \<Rightarrow> order_ident \<Rightarrow> order_ident \<Rightarrow> string" where
  "trade_text q pr bid ask =
     ''Trade: '' @ show_unsigned (unat q) @ '' @ '' @ show_signed (ival pr) @
     '' (Bid:'' @ show_unsigned (unat bid) @ '' Ask:'' @ show_unsigned (unat ask) @
     '' Qty:'' @ show_unsigned (unat q) @ '')''"

section \<open>Executing one trade\<close>

definition reduce_quantity :: "addr \<Rightarrow> qty \<Rightarrow> heap \<Rightarrow> heap res" where
  "reduce_quantity p q h =
     andThen (deref h p) (\<lambda>od. Inr (h(p \<mapsto> od\<lparr>quantity := quantity od - q\<rparr>)))"

definition cancel_if_filled :: "addr \<Rightarrow> order_book \<Rightarrow> heap \<Rightarrow> order_book res" where
  "cancel_if_filled p bk h =
     andThen (deref h p) (\<lambda>od.
       if quantity od = 0
       then andThen (cancelOrder (order_id od) bk h) (\<lambda>(_, bk'). Inr bk')
       else Inr bk)"

definition record_trade ::
  "32 word \<Rightarrow> addr \<Rightarrow> addr \<Rightarrow> price \<Rightarrow> qty \<Rightarrow> match_state \<Rightarrow> match_state res" where
  "record_trade tid bid ask pr q st =
     (let mem = memory_of st in
      andThen (deref (heap mem) bid) (\<lambda>ob.
        andThen (deref (heap mem) ask) (\<lambda>oa.
          andThen (getTimestampNs (clock mem)) (\<lambda>(t, c).
            andThen (log_info (snprintf 256 (trade_text q pr (order_id ob) (order_id oa))) tid c (logger_of st))
              (\<lambda>(c', lg).
                Inr (st\<lparr>last_trade := Some (Trade_new (order_id ob) (order_id oa) q pr t),
                        memory_of := mem\<lparr>clock := c'\<rparr>, logger_of := lg\<rparr>))))))"

definition executeTrade ::
  "32 word \<Rightarrow> addr \<Rightarrow> addr \<Rightarrow> price \<Rightarrow> qty \<Rightarrow> match_state \<Rightarrow> match_state res" where
  "executeTrade tid bid ask pr q st =
     andThen (record_trade tid bid ask pr q st) (\<lambda>st1.
       andThen (reduce_quantity bid q (heap (memory_of st1))) (\<lambda>h1.
         andThen (reduce_quantity ask q h1) (\<lambda>h2.
           andThen (cancel_if_filled bid (book_of st1) h2) (\<lambda>bk1.
             andThen (cancel_if_filled ask bk1 h2) (\<lambda>bk2.
               Inr (st1\<lparr>book_of := bk2, memory_of := (memory_of st1)\<lparr>heap := h2\<rparr>\<rparr>))))))"

section \<open>The matching loop\<close>

text \<open>The older order sets the price; at equal times the ask does.\<close>

definition match_price :: "order \<Rightarrow> order \<Rightarrow> price" where
  "match_price bid ask =
     (if timestamp_ns bid < timestamp_ns ask then price_scaled bid else price_scaled ask)"

definition match_qty :: "order \<Rightarrow> order \<Rightarrow> qty" where
  "match_qty bid ask = (if quantity bid < quantity ask then quantity bid else quantity ask)"

text \<open>One turn of the loop: nothing when the loop ends here.\<close>

definition match_step :: "32 word \<Rightarrow> match_state \<Rightarrow> match_state option res" where
  "match_step tid st =
     (if \<not> hasMatch (book_of st) then Inr None
      else
        case (getBestBid (book_of st), getBestAsk (book_of st)) of
          (Some bid, Some ask) \<Rightarrow>
            andThen (deref (heap (memory_of st)) bid) (\<lambda>ob.
              andThen (deref (heap (memory_of st)) ask) (\<lambda>oa.
                if price_scaled ob < price_scaled oa then Inr None
                else andThen (executeTrade tid bid ask (match_price ob oa) (match_qty ob oa) st)
                       (\<lambda>st'. Inr (Some st'))))
        | _ \<Rightarrow> Inr None)"

partial_function (option) match_loop ::
  "32 word \<Rightarrow> 64 word \<Rightarrow> match_state \<Rightarrow> (64 word \<times> match_state) res option" where
  "match_loop tid trade_count st =
     (case match_step tid st of
        Inl f \<Rightarrow> Some (Inl f)
      | Inr None \<Rightarrow> Some (Inr (trade_count, st))
      | Inr (Some st') \<Rightarrow> match_loop tid (trade_count + 1) st')"

definition matchOrders :: "32 word \<Rightarrow> match_state \<Rightarrow> (64 word \<times> match_state) res option" where
  "matchOrders tid st = match_loop tid 0 st"

section \<open>The log line of a trade\<close>

lemma length_trade_text: "length (trade_text q pr b a) < 256"
proof -
  have "length (trade_text q pr b a) \<le> 7 + 10 + 3 + 20 + 6 + 10 + 5 + 10 + 5 + 10 + 1"
    unfolding trade_text_def
    using length_show_unsigned_u32 [of q] length_show_unsigned_u32 [of b]
      length_show_unsigned_u32 [of a] length_show_signed_i64 [of pr]
    by simp
  then show ?thesis by simp
qed

lemma trade_text_no_NUL: "CHR 0x00 \<notin> set (trade_text q pr b a)"
  by (simp add: trade_text_def)

lemma snprintf_trade_text [simp]: "snprintf 256 (trade_text q pr b a) = trade_text q pr b a"
  by (rule snprintf_fits) (rule length_trade_text)

lemma stored_trade_text [simp]: "take 255 (c_str (trade_text q pr b a)) = trade_text q pr b a"
  using length_trade_text [of q pr b a] by (simp add: c_str_id trade_text_no_NUL)

lemma match_qty_cases:
  "match_qty ob oa = quantity ob \<or> match_qty ob oa = quantity oa"
  "match_qty ob oa \<le> quantity ob" "match_qty ob oa \<le> quantity oa"
  by (auto simp: match_qty_def)

lemma match_qty_min: "unat (match_qty ob oa) = min (unat (quantity ob)) (unat (quantity oa))"
  by (auto simp: match_qty_def word_less_nat_alt min_def)

lemma match_price_cases: "match_price ob oa = price_scaled ob \<or> match_price ob oa = price_scaled oa"
  by (simp add: match_price_def)

end
