(* ===== verification/Match_Spec.thy ===== *)
theory Match_Spec
  imports Book_Operations Matcher
begin

text \<open>
  What the matcher promises, on the abstract book: the two queues are consumed from the front, as long
  as their heads cross. No heap, no ladder, no logger and no counter occurs here.
\<close>

record fill =
  fill_bid :: order_ident
  fill_ask :: order_ident
  fill_qty :: qty
  fill_price :: price

definition crossing :: "order \<Rightarrow> order \<Rightarrow> bool" where
  "crossing bid ask \<longleftrightarrow>
     0 < price_scaled bid \<and> 0 < price_scaled ask \<and> price_scaled ask \<le> price_scaled bid"

definition fill_of :: "order \<Rightarrow> order \<Rightarrow> fill" where
  "fill_of bid ask = \<lparr>fill_bid = order_id bid, fill_ask = order_id ask,
     fill_qty = match_qty bid ask, fill_price = match_price bid ask\<rparr>"

definition take_from :: "qty \<Rightarrow> order \<Rightarrow> order list \<Rightarrow> order list" where
  "take_from q x xs = (if quantity x = q then xs else x\<lparr>quantity := quantity x - q\<rparr> # xs)"

definition spec_step :: "abs_book \<Rightarrow> (fill \<times> abs_book) option" where
  "spec_step v =
     (case v of
        (b # bs, a # as) \<Rightarrow>
          if crossing b a
          then Some (fill_of b a, take_from (match_qty b a) b bs, take_from (match_qty b a) a as)
          else None
      | _ \<Rightarrow> None)"

definition book_size :: "abs_book \<Rightarrow> nat" where
  "book_size v = length (fst v) + length (snd v)"

lemma length_take_from: "length (take_from q x xs) = (if quantity x = q then length xs else Suc (length xs))"
  by (simp add: take_from_def)

lemma spec_step_SomeE:
  assumes "spec_step v = Some (f, v')"
  obtains b bs a as where "v = (b # bs, a # as)" and "crossing b a" and "f = fill_of b a"
    and "v' = (take_from (match_qty b a) b bs, take_from (match_qty b a) a as)"
  using assms by (auto simp: spec_step_def split: prod.splits list.splits if_splits)

lemma spec_step_size: "spec_step v = Some (f, v') \<Longrightarrow> Suc (book_size v') \<le> book_size v \<and> 2 \<le> book_size v"
proof -
  assume "spec_step v = Some (f, v')"
  then obtain b bs a as where
    "v = (b # bs, a # as)" "v' = (take_from (match_qty b a) b bs, take_from (match_qty b a) a as)"
    by (rule spec_step_SomeE)
  with match_qty_cases(1) [of b a] show ?thesis by (auto simp: book_size_def length_take_from)
qed

function match_spec :: "abs_book \<Rightarrow> fill list \<times> abs_book" where
  "match_spec v =
     (case spec_step v of
        None \<Rightarrow> ([], v)
      | Some (f, v') \<Rightarrow> (case match_spec v' of (fs, v'') \<Rightarrow> (f # fs, v'')))"
  by auto
termination
  by (relation "measure book_size") (auto dest!: spec_step_size)

declare match_spec.simps [simp del]

definition fills :: "abs_book \<Rightarrow> fill list" where
  "fills v = fst (match_spec v)"

definition remainder :: "abs_book \<Rightarrow> abs_book" where
  "remainder v = snd (match_spec v)"

lemma match_spec_stop [simp]:
  "spec_step v = None \<Longrightarrow> fills v = []"
  "spec_step v = None \<Longrightarrow> remainder v = v"
  by (simp_all add: fills_def remainder_def match_spec.simps)

lemma match_spec_go [simp]:
  "spec_step v = Some (f, v') \<Longrightarrow> fills v = f # fills v'"
  "spec_step v = Some (f, v') \<Longrightarrow> remainder v = remainder v'"
  by (simp_all add: fills_def remainder_def match_spec.simps [of v] split: prod.split)

lemma match_spec_induct [case_names stop go]:
  assumes "\<And>v. spec_step v = None \<Longrightarrow> P v"
    and "\<And>v f v'. spec_step v = Some (f, v') \<Longrightarrow> P v' \<Longrightarrow> P v"
  shows "P v"
proof (induction v rule: match_spec.induct)
  case (1 v)
  show ?case
  proof (cases "spec_step v")
    case None
    then show ?thesis by (rule assms(1))
  next
    case (Some r)
    obtain f v' where r: "r = (f, v')" by (cases r)
    then have "P v'" using Some "1" by simp
    with Some r show ?thesis using assms(2) by blast
  qed
qed

section \<open>How the loop ends\<close>

lemma remainder_stuck: "spec_step (remainder v) = None"
  by (induction v rule: match_spec_induct) simp_all

lemma fills_fewer: "fills v = [] \<or> length (fills v) < book_size v"
proof (induction v rule: match_spec_induct)
  case (go v f v')
  then show ?case using spec_step_size [of v f v'] by auto
qed simp

section \<open>Quantities\<close>

text \<open>The quantity that the orders with an id still ask for, and what the fills gave them.\<close>

definition open_quantity :: "order_ident \<Rightarrow> order list \<Rightarrow> nat" where
  "open_quantity i xs = sum_list (map (\<lambda>x. if order_id x = i then unat (quantity x) else 0) xs)"

definition total_open :: "order list \<Rightarrow> nat" where
  "total_open xs = sum_list (map (\<lambda>x. unat (quantity x)) xs)"

definition bought :: "order_ident \<Rightarrow> fill list \<Rightarrow> nat" where
  "bought i fs = sum_list (map (\<lambda>f. if fill_bid f = i then unat (fill_qty f) else 0) fs)"

definition sold :: "order_ident \<Rightarrow> fill list \<Rightarrow> nat" where
  "sold i fs = sum_list (map (\<lambda>f. if fill_ask f = i then unat (fill_qty f) else 0) fs)"

definition volume :: "fill list \<Rightarrow> nat" where
  "volume fs = sum_list (map (\<lambda>f. unat (fill_qty f)) fs)"

lemma take_from_open:
  assumes "q \<le> quantity x"
  shows "open_quantity i (x # xs) = (if order_id x = i then unat q else 0) + open_quantity i (take_from q x xs)"
    and "total_open (x # xs) = unat q + total_open (take_from q x xs)"
proof -
  have "unat (quantity x - q) = unat (quantity x) - unat q" "unat q \<le> unat (quantity x)"
    using assms by (simp_all add: unat_sub word_le_nat_alt)
  then show "open_quantity i (x # xs) = (if order_id x = i then unat q else 0) + open_quantity i (take_from q x xs)"
    "total_open (x # xs) = unat q + total_open (take_from q x xs)"
    by (auto simp: open_quantity_def total_open_def take_from_def)
qed

lemma spec_step_conserves:
  assumes "spec_step v = Some (f, v')"
  shows "open_quantity i (fst v) = bought i [f] + open_quantity i (fst v')"
    and "open_quantity i (snd v) = sold i [f] + open_quantity i (snd v')"
    and "total_open (fst v) = volume [f] + total_open (fst v')"
    and "total_open (snd v) = volume [f] + total_open (snd v')"
proof -
  from assms obtain b bs a as where
    v: "v = (b # bs, a # as)" "f = fill_of b a"
      "v' = (take_from (match_qty b a) b bs, take_from (match_qty b a) a as)"
    by (rule spec_step_SomeE)
  note take_from_open(1) [OF match_qty_cases(2), of i b bs a] take_from_open(1) [OF match_qty_cases(3), of i a as b]
    take_from_open(2) [OF match_qty_cases(2), of b bs a] take_from_open(2) [OF match_qty_cases(3), of a as b]
  then show "open_quantity i (fst v) = bought i [f] + open_quantity i (fst v')"
    "open_quantity i (snd v) = sold i [f] + open_quantity i (snd v')"
    "total_open (fst v) = volume [f] + total_open (fst v')"
    "total_open (snd v) = volume [f] + total_open (snd v')"
    by (simp_all add: v fill_of_def bought_def sold_def volume_def)
qed

lemma fills_conserve:
  "open_quantity i (fst v) = bought i (fills v) + open_quantity i (fst (remainder v))"
  "open_quantity i (snd v) = sold i (fills v) + open_quantity i (snd (remainder v))"
  "total_open (fst v) = volume (fills v) + total_open (fst (remainder v))"
  "total_open (snd v) = volume (fills v) + total_open (snd (remainder v))"
proof (induction v rule: match_spec_induct)
  case (stop v)
  { case 1 from stop show ?case by (simp add: bought_def) }
  { case 2 from stop show ?case by (simp add: sold_def) }
  { case 3 from stop show ?case by (simp add: volume_def) }
  { case 4 from stop show ?case by (simp add: volume_def) }
next
  case (go v f v')
  note step = spec_step_conserves [OF go(1)]
  { case 1 from go step(1) show ?case by (simp add: bought_def) }
  { case 2 from go step(2) show ?case by (simp add: sold_def) }
  { case 3 from go step(3) show ?case by (simp add: volume_def) }
  { case 4 from go step(4) show ?case by (simp add: volume_def) }
qed

section \<open>Priority\<close>

text \<open>
  What is left of a queue: the first orders are gone, the next one may have lost a part, and the
  others are as they were.
\<close>

definition rest_of :: "order list \<Rightarrow> order list \<Rightarrow> bool" where
  "rest_of ys xs \<longleftrightarrow>
     (\<exists>gone. xs = gone @ ys) \<or>
     (\<exists>gone x q tl. xs = gone @ x # tl \<and> 0 < q \<and> q < quantity x \<and> ys = x\<lparr>quantity := q\<rparr> # tl)"

lemma rest_of_refl [simp]: "rest_of xs xs"
  by (auto simp: rest_of_def)

lemma rest_of_Cons: "rest_of ys xs \<Longrightarrow> rest_of ys (x # xs)"
  unfolding rest_of_def by (metis append_Cons)

lemma rest_of_partial:
  assumes "rest_of ys (x\<lparr>quantity := q\<rparr> # xs)" and "0 < q" and "q < quantity x"
  shows "rest_of ys (x # xs)"
  using assms(1) unfolding rest_of_def
proof (elim disjE exE conjE)
  fix gone
  assume eq: "x\<lparr>quantity := q\<rparr> # xs = gone @ ys"
  show "(\<exists>gone. x # xs = gone @ ys) \<or>
    (\<exists>gone y r tl. x # xs = gone @ y # tl \<and> 0 < r \<and> r < quantity y \<and> ys = y\<lparr>quantity := r\<rparr> # tl)"
  proof (cases gone)
    case Nil
    with eq assms(2,3) have "x # xs = [] @ x # xs \<and> 0 < q \<and> q < quantity x \<and> ys = x\<lparr>quantity := q\<rparr> # xs"
      by simp
    then show ?thesis by blast
  next
    case (Cons g gs)
    with eq have "x # xs = (x # gs) @ ys" by simp
    then show ?thesis by blast
  qed
next
  fix gone y r tl
  assume eq: "x\<lparr>quantity := q\<rparr> # xs = gone @ y # tl" and r: "0 < r" "r < quantity y"
    and ys: "ys = y\<lparr>quantity := r\<rparr> # tl"
  show "(\<exists>gone. x # xs = gone @ ys) \<or>
    (\<exists>gone y r tl. x # xs = gone @ y # tl \<and> 0 < r \<and> r < quantity y \<and> ys = y\<lparr>quantity := r\<rparr> # tl)"
  proof (cases gone)
    case Nil
    with eq ys r assms(3) have "x # xs = [] @ x # xs \<and> 0 < r \<and> r < quantity x \<and> ys = x\<lparr>quantity := r\<rparr> # xs"
      by auto
    then show ?thesis by blast
  next
    case (Cons g gs)
    with eq have "x # xs = (x # gs) @ y # tl" by simp
    with r ys show ?thesis by blast
  qed
qed

text \<open>All quantities of the book are positive: kept by the steps, and so the fills are positive.\<close>

definition positive_book :: "abs_book \<Rightarrow> bool" where
  "positive_book v \<longleftrightarrow> (\<forall>x \<in> set (fst v) \<union> set (snd v). quantity x \<noteq> 0)"

lemma take_from_rest:
  "rest_of ys (take_from q x xs) \<Longrightarrow> 0 < q \<Longrightarrow> q \<le> quantity x \<Longrightarrow> rest_of ys (x # xs)"
proof (cases "quantity x = q")
  case False
  assume *: "rest_of ys (take_from q x xs)" "0 < q" "q \<le> quantity x"
  have "q < quantity x" using * False by simp
  then have "unat (quantity x - q) = unat (quantity x) - unat q" "unat q < unat (quantity x)"
    using *(3) by (simp_all only: unat_sub word_less_nat_alt)
  moreover have "0 < unat q" using *(2) by (simp add: word_less_nat_alt)
  ultimately have "0 < quantity x - q" "quantity x - q < quantity x"
    by (simp_all add: word_less_nat_alt)
  with False * show ?thesis by (auto simp: take_from_def intro: rest_of_partial)
qed (simp add: take_from_def rest_of_Cons)

lemma set_take_from:
  "y \<in> set (take_from q x xs) \<Longrightarrow> y \<in> set xs \<or> (y = x\<lparr>quantity := quantity x - q\<rparr> \<and> quantity x \<noteq> q)"
  by (auto simp: take_from_def split: if_splits)

lemma spec_step_positive:
  assumes "spec_step v = Some (f, v')" and "positive_book v"
  shows "positive_book v'" and "0 < fill_qty f"
proof -
  from assms(1) obtain b bs a as where
    v: "v = (b # bs, a # as)" "f = fill_of b a"
      "v' = (take_from (match_qty b a) b bs, take_from (match_qty b a) a as)"
    by (rule spec_step_SomeE)
  have taken: "\<forall>y \<in> set (take_from q x xs). quantity y \<noteq> 0" if "\<forall>y \<in> set (x # xs). quantity y \<noteq> 0"
    for q x and xs :: "order list"
    using that by (simp add: take_from_def)
  have "\<forall>y \<in> set (b # bs). quantity y \<noteq> 0" "\<forall>y \<in> set (a # as). quantity y \<noteq> 0"
    using assms(2) by (simp_all add: v(1) positive_book_def)
  then show "positive_book v'"
    using taken unfolding v(3) positive_book_def fst_conv snd_conv by blast
  have "match_qty b a \<noteq> 0"
    using assms(2) match_qty_cases(1) [of b a] by (auto simp: v positive_book_def)
  then show "0 < fill_qty f" by (simp add: v fill_of_def word_neq_0_conv)
qed

lemma fills_positive:
  "positive_book v \<Longrightarrow> f \<in> set (fills v) \<Longrightarrow> 0 < fill_qty f"
  by (induction v rule: match_spec_induct) (auto dest: spec_step_positive)

lemma remainder_positive: "positive_book v \<Longrightarrow> positive_book (remainder v)"
  by (induction v rule: match_spec_induct) (auto dest: spec_step_positive)

lemma spec_step_rest:
  assumes "spec_step v = Some (f, v')" and "positive_book v"
  shows "rest_of ys (fst v') \<Longrightarrow> rest_of ys (fst v)" and "rest_of ys (snd v') \<Longrightarrow> rest_of ys (snd v)"
proof -
  from assms(1) obtain b bs a as where
    v: "v = (b # bs, a # as)" "f = fill_of b a"
      "v' = (take_from (match_qty b a) b bs, take_from (match_qty b a) a as)"
    by (rule spec_step_SomeE)
  have "0 < match_qty b a" using spec_step_positive(2) [OF assms] by (simp add: v fill_of_def)
  then show "rest_of ys (fst v') \<Longrightarrow> rest_of ys (fst v)" "rest_of ys (snd v') \<Longrightarrow> rest_of ys (snd v)"
    using take_from_rest match_qty_cases(2,3) unfolding v fst_conv snd_conv by blast+
qed

lemma remainder_rest:
  assumes "positive_book v"
  shows "rest_of (fst (remainder v)) (fst v)" and "rest_of (snd (remainder v)) (snd v)"
proof -
  have "positive_book v \<longrightarrow> rest_of (fst (remainder v)) (fst v) \<and> rest_of (snd (remainder v)) (snd v)"
  proof (induction v rule: match_spec_induct)
    case (go v f v')
    show ?case
    proof
      assume pos: "positive_book v"
      then have "positive_book v'" using spec_step_positive(1) go(1) by blast
      then show "rest_of (fst (remainder v)) (fst v) \<and> rest_of (snd (remainder v)) (snd v)"
        using go spec_step_rest [OF go(1) pos] by simp
    qed
  qed simp
  with assms show "rest_of (fst (remainder v)) (fst v)" "rest_of (snd (remainder v)) (snd v)" by blast+
qed

section \<open>Prices\<close>

text \<open>Both parties of a fill were in the book and the price suits both.\<close>

definition fair_fill :: "abs_book \<Rightarrow> fill \<Rightarrow> bool" where
  "fair_fill v f \<longleftrightarrow>
     (\<exists>b \<in> set (fst v). \<exists>a \<in> set (snd v).
        fill_bid f = order_id b \<and> fill_ask f = order_id a \<and>
        price_scaled a \<le> fill_price f \<and> fill_price f \<le> price_scaled b \<and> 0 < price_scaled a \<and>
        fill_qty f \<le> quantity b \<and> fill_qty f \<le> quantity a \<and>
        (fill_price f = (if timestamp_ns b < timestamp_ns a then price_scaled b else price_scaled a)))"

lemma fair_fill_head: "crossing b a \<Longrightarrow> fair_fill (b # bs, a # as) (fill_of b a)"
  unfolding fair_fill_def
  by (rule bexI [of _ b], rule bexI [of _ a])
    (auto simp: fill_of_def crossing_def match_price_def match_qty_cases(2,3))

lemma take_from_origin:
  assumes "y \<in> set (take_from q x xs)" and "q \<le> quantity x"
  shows "\<exists>z \<in> set (x # xs). order_id z = order_id y \<and> price_scaled z = price_scaled y \<and>
    timestamp_ns z = timestamp_ns y \<and> quantity y \<le> quantity z"
  using set_take_from [OF assms(1)]
proof
  assume y: "y = x\<lparr>quantity := quantity x - q\<rparr> \<and> quantity x \<noteq> q"
  have "quantity x - q \<le> quantity x" using assms(2) by (simp add: word_le_nat_alt unat_sub)
  with y show ?thesis by (intro bexI [of _ x]) auto
qed auto

lemma spec_step_fair:
  assumes "spec_step v = Some (f, v')" and "fair_fill v' g"
  shows "fair_fill v g"
proof -
  from assms(1) obtain b bs a as where
    v: "v = (b # bs, a # as)" "v' = (take_from (match_qty b a) b bs, take_from (match_qty b a) a as)"
    by (rule spec_step_SomeE)
  from assms(2) obtain y z where yz: "y \<in> set (fst v')" "z \<in> set (snd v')"
    "fill_bid g = order_id y" "fill_ask g = order_id z"
    "price_scaled z \<le> fill_price g" "fill_price g \<le> price_scaled y" "0 < price_scaled z"
    "fill_qty g \<le> quantity y" "fill_qty g \<le> quantity z"
    "fill_price g = (if timestamp_ns y < timestamp_ns z then price_scaled y else price_scaled z)"
    unfolding fair_fill_def by blast
  from yz(1) obtain y' where "y' \<in> set (fst v)" "order_id y' = order_id y" "price_scaled y' = price_scaled y"
    "timestamp_ns y' = timestamp_ns y" "quantity y \<le> quantity y'"
    using take_from_origin match_qty_cases(2) unfolding v fst_conv by metis
  moreover from yz(2) obtain z' where "z' \<in> set (snd v)" "order_id z' = order_id z"
    "price_scaled z' = price_scaled z" "timestamp_ns z' = timestamp_ns z" "quantity z \<le> quantity z'"
    using take_from_origin match_qty_cases(3) unfolding v snd_conv by metis
  ultimately show ?thesis
    using yz(3-) unfolding fair_fill_def by (intro bexI [of _ y'] bexI [of _ z']) auto
qed

lemma fills_fair: "f \<in> set (fills v) \<Longrightarrow> fair_fill v f"
proof (induction v rule: match_spec_induct)
  case (go v g v')
  show ?case
  proof (cases "f = g")
    case True
    with go(1) show ?thesis by (auto elim!: spec_step_SomeE intro: fair_fill_head)
  next
    case False
    with go show ?thesis by (auto intro: spec_step_fair)
  qed
qed simp

end
