(* ===== verification/Match_Refinement.thy ===== *)
theory Match_Refinement
  imports Match_Spec
begin

text \<open>
  The matching loop on ladders, heap and logger implements the abstract matching of two queues:
  every turn of the loop is one abstract step, so the loop ends, without a fault, with the fills and
  the remaining book of the specification.
\<close>

section \<open>States\<close>

definition state_ok :: "match_state \<Rightarrow> bool" where
  "state_ok st \<longleftrightarrow>
     book_ok (book_of st) (heap (memory_of st)) \<and> clocks_ok (clock (memory_of st)) \<and> logger_wf (logger_of st)"

definition abs_of :: "match_state \<Rightarrow> abs_book" where
  "abs_of st = view (book_of st) (heap (memory_of st))"

lemma state_okD:
  assumes "state_ok st"
  shows "book_wf (book_of st) (heap (memory_of st))" and "positive_book (abs_of st)"
    and "clocks_ok (clock (memory_of st))" and "logger_wf (logger_of st)"
  using assms unfolding state_ok_def book_ok_view abs_of_def positive_book_def by blast+

section \<open>What one trade does to the book\<close>

lemma hasMatch_heads:
  assumes wf: "book_wf bk h" and "view bk h = (b # bs, a # as)"
  shows "hasMatch bk \<longleftrightarrow> crossing b a"
  using best_price_view [OF wf] assms(2) by (simp add: hasMatch_def crossing_def best_price_def)

lemma hasMatch_empty:
  assumes wf: "book_wf bk h" and "fst (view bk h) = [] \<or> snd (view bk h) = []"
  shows "\<not> hasMatch bk"
  using best_price_view [OF wf] assms(2) by (auto simp: hasMatch_def best_price_def)

text \<open>A queue whose view starts with an order: the pointer at its head.\<close>

lemma queue_heads:
  assumes wf: "book_wf bk h" and v: "view bk h = (b # bs, a # as)"
  obtains p ps q qs where "bid_queue bk = p # ps" and "ask_queue bk = q # qs"
    and "h p = Some b" and "h q = Some a" and "p \<noteq> q" and "p \<notin> set ps" and "q \<notin> set qs"
    and "p \<notin> set qs" and "q \<notin> set ps"
    and "bs = map (\<lambda>r. the (h r)) ps" and "as = map (\<lambda>r. the (h r)) qs"
    and "order_map bk (order_id b) = Some p" and "order_map bk (order_id a) = Some q"
proof -
  from v obtain p ps q qs where q: "bid_queue bk = p # ps" "ask_queue bk = q # qs"
    "b = the (h p)" "a = the (h q)" "bs = map (\<lambda>r. the (h r)) ps" "as = map (\<lambda>r. the (h r)) qs"
    by (auto simp: view_def)
  have bid: "\<exists>od. h r = Some od \<and> isBuy od \<and> order_map bk (order_id od) = Some r" if "r \<in> set (p # ps)" for r
    using bid_queue_at [OF wf, of r] that q(1) by (auto elim: order_atE)
  have ask: "\<exists>od. h r = Some od \<and> \<not> isBuy od \<and> order_map bk (order_id od) = Some r" if "r \<in> set (q # qs)" for r
    using ask_queue_at [OF wf, of r] that q(2) by (auto elim: order_atE)
  have disjoint: "r \<notin> set (q # qs)" if "r \<in> set (p # ps)" for r
    using bid [OF that] ask [of r] by auto
  have "h p = Some b" "order_map bk (order_id b) = Some p"
    using bid [of p] q(3) by auto
  moreover have "h q = Some a" "order_map bk (order_id a) = Some q"
    using ask [of q] q(4) by auto
  ultimately show thesis
    using that [OF q(1,2)] q(5,6) disjoint [of p] disjoint [of q] distinct_queues [OF wf]
    by (auto simp: q(1,2))
qed

lemma cancel_if_filled_effect:
  assumes wf: "book_wf bk h" and p: "h p = Some od" and reg: "order_map bk (order_id od) = Some p"
  obtains bk' where "cancel_if_filled p bk h = Inr bk'" and "book_wf bk' h"
    and "bid_queue bk' = (if quantity od = 0 then filter (\<lambda>r. r \<noteq> p) (bid_queue bk) else bid_queue bk)"
    and "ask_queue bk' = (if quantity od = 0 then filter (\<lambda>r. r \<noteq> p) (ask_queue bk) else ask_queue bk)"
    and "\<And>i. i \<noteq> order_id od \<Longrightarrow> order_map bk' i = order_map bk i"
proof (cases "quantity od = 0")
  case True
  obtain bk' where cancelled: "cancelOrder (order_id od) bk h = Inr (True, bk')" "book_wf bk' h"
    "order_map bk' = (order_map bk)(order_id od := None)"
    "bid_queue bk' = filter (\<lambda>q. q \<noteq> p) (bid_queue bk)"
    "ask_queue bk' = filter (\<lambda>q. q \<noteq> p) (ask_queue bk)"
    using wf reg by (rule cancelOrder_registered)
  have "cancel_if_filled p bk h = Inr bk'"
    by (simp add: cancel_if_filled_def True p cancelled(1))
  then show thesis using that [of bk'] by (simp add: True cancelled)
next
  case False
  with assms show thesis using that [of bk] by (simp add: cancel_if_filled_def)
qed

text \<open>The book and the heap after the quantities are reduced and filled orders cancelled.\<close>

lemma reduce_and_cancel:
  assumes wf: "book_wf bk h" and v: "view bk h = (b # bs, a # as)"
    and p: "h p = Some b" "order_map bk (order_id b) = Some p"
    and q: "h q = Some a" "order_map bk (order_id a) = Some q"
  obtains h1 h2 bk1 bk2 where
    "reduce_quantity p n h = Inr h1" and "reduce_quantity q n h1 = Inr h2"
    and "cancel_if_filled p bk h2 = Inr bk1" and "cancel_if_filled q bk1 h2 = Inr bk2"
    and "book_wf bk2 h2" and "view bk2 h2 = (take_from n b bs, take_from n a as)"
proof -
  obtain p' ps q' qs where
    heads: "bid_queue bk = p' # ps" "ask_queue bk = q' # qs" "h p' = Some b" "h q' = Some a" "p' \<noteq> q'"
      "p' \<notin> set ps" "q' \<notin> set qs" "p' \<notin> set qs" "q' \<notin> set ps"
      "bs = map (\<lambda>r. the (h r)) ps" "as = map (\<lambda>r. the (h r)) qs"
      "order_map bk (order_id b) = Some p'" "order_map bk (order_id a) = Some q'"
    using wf v by (rule queue_heads)
  have same: "p' = p" "q' = q" using heads(12,13) p(2) q(2) by simp_all
  have ids: "order_id a \<noteq> order_id b" using heads(5,12,13) by auto
  let ?b = "b\<lparr>quantity := quantity b - n\<rparr>" and ?a = "a\<lparr>quantity := quantity a - n\<rparr>"
  let ?h1 = "h(p \<mapsto> ?b)" and ?h2 = "h(p \<mapsto> ?b, q \<mapsto> ?a)"
  have red: "reduce_quantity p n h = Inr ?h1" "reduce_quantity q n ?h1 = Inr ?h2"
    using p(1) q(1) heads(5) same by (simp_all add: reduce_quantity_def)
  have wf2: "book_wf bk ?h2"
    using wf by (rule book_wf_frame) (use p(1) q(1) in \<open>auto simp: same_place_def\<close>)
  have h2: "?h2 p = Some ?b" "?h2 q = Some ?a" using heads(5) same by simp_all
  have "order_map bk (order_id ?b) = Some p" using p(2) by simp
  with wf2 h2(1) obtain bk1 where c1: "cancel_if_filled p bk ?h2 = Inr bk1" "book_wf bk1 ?h2"
    "bid_queue bk1 = (if quantity ?b = 0 then filter (\<lambda>r. r \<noteq> p) (bid_queue bk) else bid_queue bk)"
    "ask_queue bk1 = (if quantity ?b = 0 then filter (\<lambda>r. r \<noteq> p) (ask_queue bk) else ask_queue bk)"
    "\<And>i. i \<noteq> order_id ?b \<Longrightarrow> order_map bk1 i = order_map bk i"
    by (rule cancel_if_filled_effect) blast
  have "order_map bk1 (order_id ?a) = Some q" using c1(5) [of "order_id a"] ids q(2) by simp
  with c1(2) h2(2) obtain bk2 where c2: "cancel_if_filled q bk1 ?h2 = Inr bk2" "book_wf bk2 ?h2"
    "bid_queue bk2 = (if quantity ?a = 0 then filter (\<lambda>r. r \<noteq> q) (bid_queue bk1) else bid_queue bk1)"
    "ask_queue bk2 = (if quantity ?a = 0 then filter (\<lambda>r. r \<noteq> q) (ask_queue bk1) else ask_queue bk1)"
    by (rule cancel_if_filled_effect) blast
  have zero: "quantity ?b = 0 \<longleftrightarrow> quantity b = n" "quantity ?a = 0 \<longleftrightarrow> quantity a = n"
    by simp_all
  have "bid_queue bk1 = (if quantity b = n then ps else p # ps)" "ask_queue bk1 = q # qs"
    using heads(5-9) by (auto simp: c1(3,4) zero heads(1,2) same filter_neq_notin)
  then have "bid_queue bk2 = (if quantity b = n then ps else p # ps)"
    "ask_queue bk2 = (if quantity a = n then qs else q # qs)"
    using heads(5-9) by (auto simp: c2(3,4) zero same filter_neq_notin)
  moreover have "map (\<lambda>r. the (?h2 r)) ps = bs" "map (\<lambda>r. the (?h2 r)) qs = as"
    using heads(5-9) by (auto simp: heads(10,11) same)
  ultimately have "view bk2 ?h2 = (take_from n b bs, take_from n a as)"
    using heads(5) same by (simp add: view_def take_from_def)
  then show thesis using that [OF red c1(1) c2(1,2)] by simp
qed

section \<open>One turn of the loop\<close>

definition trade_of :: "fill \<Rightarrow> timestamp \<Rightarrow> trade" where
  "trade_of f t = Trade_new (fill_bid f) (fill_ask f) (fill_qty f) (fill_price f) t"

definition fill_text :: "fill \<Rightarrow> string" where
  "fill_text f = trade_text (fill_qty f) (fill_price f) (fill_bid f) (fill_ask f)"

definition log_room :: "async_logger \<Rightarrow> nat" where
  "log_room lg = (if min_level lg \<le> INFO \<and> running lg then 65535 - length (pending lg) else 0)"

text \<open>What stays of the logger and what a trade may add to its queue.\<close>

definition logged :: "async_logger \<Rightarrow> string list \<Rightarrow> async_logger \<Rightarrow> bool" where
  "logged lg texts lg' \<longleftrightarrow>
     (\<exists>ms. pending lg' = pending lg @ ms \<and> map message ms = take (log_room lg) texts) \<and>
     sink lg' = sink lg \<and> running lg' = running lg \<and> log_thread lg' = log_thread lg \<and>
     min_level lg' = min_level lg"

lemma logged_refl: "logged lg [] lg"
  by (simp add: logged_def)

lemma logged_trans:
  assumes "logged lg xs lg'" and "logged lg' ys lg''"
  shows "logged lg (xs @ ys) lg''"
proof -
  obtain ms where ms: "pending lg' = pending lg @ ms" "map message ms = take (log_room lg) xs"
    using assms(1) by (auto simp: logged_def)
  obtain ns where ns: "pending lg'' = pending lg' @ ns" "map message ns = take (log_room lg') ys"
    using assms(2) by (auto simp: logged_def)
  have "length ms = min (log_room lg) (length xs)" using arg_cong [OF ms(2), of length] by (simp add: min.commute)
  then have "log_room lg' = log_room lg - length xs"
    using assms(1) ms(1) by (auto simp: logged_def log_room_def)
  then have "pending lg'' = pending lg @ (ms @ ns)" "map message (ms @ ns) = take (log_room lg) (xs @ ys)"
    using ms ns by simp_all
  moreover have "sink lg'' = sink lg" "running lg'' = running lg" "log_thread lg'' = log_thread lg"
    "min_level lg'' = min_level lg"
    using assms by (simp_all add: logged_def)
  ultimately show ?thesis unfolding logged_def by blast
qed

lemma log_info_logged:
  assumes "logger_wf lg" and "clocks_ok c" and "take 255 (c_str msg) = msg"
  obtains c' lg' where "log_info msg tid c lg = Inr (c', lg')" and "clocks_ok c'" and "logger_wf lg'"
    and "logged lg [msg] lg'"
proof -
  from assms(1,2) obtain c' lg' where e: "log_msg INFO msg tid c lg = Inr (c', lg')" "clocks_ok c'"
    "logger_wf lg'"
    "pending lg' = pending lg @ (case accepted INFO msg tid c lg of None \<Rightarrow> [] | Some m \<Rightarrow> [m])"
    "sink lg' = sink lg" "running lg' = running lg" "log_thread lg' = log_thread lg"
    "min_level lg' = min_level lg"
    by (rule log_msg_effect)
  have "spsc_count QUEUE_SIZE (queue lg) = length (pending lg)"
    by (simp add: pending_def spsc_contents_def)
  then have "map message (case accepted INFO msg tid c lg of None \<Rightarrow> [] | Some m \<Rightarrow> [m]) =
      take (log_room lg) [msg]"
    using assms(3) by (auto simp: accepted_def log_room_def QUEUE_SIZE_def)
  with e show thesis by (intro that [of c' lg']) (simp_all add: log_info_def logged_def)
qed

lemma record_trade_effect:
  assumes ok: "clocks_ok (clock (memory_of st))" "logger_wf (logger_of st)"
    and p: "heap (memory_of st) p = Some b" and q: "heap (memory_of st) q = Some a"
  obtains c lg where
    "record_trade tid p q pr n st = Inr (st\<lparr>last_trade :=
        Some (Trade_new (order_id b) (order_id a) n pr (clock_now (clock (memory_of st)))),
       memory_of := (memory_of st)\<lparr>clock := c\<rparr>, logger_of := lg\<rparr>)"
    and "clocks_ok c" and "logger_wf lg"
    and "logged (logger_of st) [trade_text n pr (order_id b) (order_id a)] lg"
proof -
  let ?c = "(clock (memory_of st))\<lparr>realtime_reads := Suc (realtime_reads (clock (memory_of st)))\<rparr>"
  have "clocks_ok ?c" using ok(1) by simp
  with ok(2) obtain c lg where
    "log_info (trade_text n pr (order_id b) (order_id a)) tid ?c (logger_of st) = Inr (c, lg)"
    "clocks_ok c" "logger_wf lg" "logged (logger_of st) [trade_text n pr (order_id b) (order_id a)] lg"
    by (rule log_info_logged [where msg = "trade_text n pr (order_id b) (order_id a)"]) simp
  with p q ok(1) show thesis
    by (intro that [where c = c and lg = lg]) (simp_all add: record_trade_def getTimestampNs_ok Let_def)
qed

lemma match_step_stops:
  assumes ok: "state_ok st" and "spec_step (abs_of st) = None"
  shows "match_step tid st = Inr None"
proof -
  note wf = state_okD(1) [OF ok]
  have "\<not> hasMatch (book_of st)"
  proof (cases "fst (abs_of st) = [] \<or> snd (abs_of st) = []")
    case True
    then show ?thesis using hasMatch_empty [OF wf] by (simp add: abs_of_def)
  next
    case False
    then obtain b bs a as where v: "abs_of st = (b # bs, a # as)"
      by (metis neq_Nil_conv prod.collapse)
    then have "\<not> crossing b a" using assms(2) by (simp add: spec_step_def split: if_splits)
    then show ?thesis using hasMatch_heads [OF wf] v by (simp add: abs_of_def)
  qed
  then show ?thesis by (simp add: match_step_def)
qed

lemma match_step_trades:
  assumes ok: "state_ok st" and step: "spec_step (abs_of st) = Some (f, v')"
  obtains st' where "match_step tid st = Inr (Some st')" and "state_ok st'" and "abs_of st' = v'"
    and "last_trade st' = Some (trade_of f (clock_now (clock (memory_of st))))"
    and "logged (logger_of st) [fill_text f] (logger_of st')"
proof -
  note wf = state_okD(1) [OF ok]
  let ?h = "heap (memory_of st)"
  from step obtain b bs a as where v: "abs_of st = (b # bs, a # as)" and x: "crossing b a"
    and f: "f = fill_of b a" and v': "v' = (take_from (match_qty b a) b bs, take_from (match_qty b a) a as)"
    by (rule spec_step_SomeE)
  have view: "view (book_of st) ?h = (b # bs, a # as)" using v by (simp add: abs_of_def)
  obtain p ps q qs where
    heads: "bid_queue (book_of st) = p # ps" "ask_queue (book_of st) = q # qs" "?h p = Some b" "?h q = Some a"
      "order_map (book_of st) (order_id b) = Some p" "order_map (book_of st) (order_id a) = Some q"
    using wf view by (rule queue_heads)
  obtain c lg where rec: "record_trade tid p q (match_price b a) (match_qty b a) st =
      Inr (st\<lparr>last_trade := Some (Trade_new (order_id b) (order_id a) (match_qty b a) (match_price b a)
              (clock_now (clock (memory_of st)))),
            memory_of := (memory_of st)\<lparr>clock := c\<rparr>, logger_of := lg\<rparr>)"
    and cl: "clocks_ok c" "logger_wf lg"
    and lgd: "logged (logger_of st) [trade_text (match_qty b a) (match_price b a) (order_id b) (order_id a)] lg"
    using state_okD(3,4) [OF ok] heads(3,4) by (rule record_trade_effect)
  obtain h1 h2 bk1 bk2 where rc: "reduce_quantity p (match_qty b a) ?h = Inr h1"
    "reduce_quantity q (match_qty b a) h1 = Inr h2"
    "cancel_if_filled p (book_of st) h2 = Inr bk1" "cancel_if_filled q bk1 h2 = Inr bk2"
    "book_wf bk2 h2" "view bk2 h2 = v'"
    unfolding v' using wf view heads(3,5,4,6) by (rule reduce_and_cancel)
  have "hasMatch (book_of st)" using hasMatch_heads [OF wf view] x by simp
  moreover have "getBestBid (book_of st) = Some p" "getBestAsk (book_of st) = Some q"
    using getBest_queue [OF wf] heads(1,2) by simp_all
  moreover have "\<not> price_scaled b < price_scaled a" using x by (simp add: crossing_def not_less)
  moreover have "positive_book v'" by (rule spec_step_positive(1) [OF step state_okD(2) [OF ok]])
  ultimately show thesis
    using rec cl lgd rc heads(3,4)
    by (intro that) (auto simp: match_step_def executeTrade_def state_ok_def book_ok_view abs_of_def
        positive_book_def trade_of_def f fill_of_def fill_text_def)
qed

section \<open>The whole loop\<close>

text \<open>The remembered trade after a run: the one of the last fill, with some time on it.\<close>

definition last_trade_ok :: "trade option \<Rightarrow> fill list \<Rightarrow> trade option \<Rightarrow> bool" where
  "last_trade_ok before fs after \<longleftrightarrow>
     (if fs = [] then after = before
      else case after of None \<Rightarrow> False | Some t \<Rightarrow> t = trade_of (last fs) (trade_time t))"

lemma match_loop_refines:
  assumes "state_ok st"
  shows "\<exists>st'. match_loop tid n st = Some (Inr (n + of_nat (length (fills (abs_of st))), st')) \<and>
    state_ok st' \<and> abs_of st' = remainder (abs_of st) \<and>
    last_trade_ok (last_trade st) (fills (abs_of st)) (last_trade st') \<and>
    logged (logger_of st) (map fill_text (fills (abs_of st))) (logger_of st')"
  using assms
proof (induction "abs_of st" arbitrary: st n rule: match_spec_induct)
  case stop
  then show ?case
    using match_step_stops [of st tid]
    by (simp add: match_loop.simps last_trade_ok_def logged_refl)
next
  case (go f v')
  obtain st1 where step: "match_step tid st = Inr (Some st1)" "state_ok st1" "abs_of st1 = v'"
    "last_trade st1 = Some (trade_of f (clock_now (clock (memory_of st))))"
    "logged (logger_of st) [fill_text f] (logger_of st1)"
    using go(3,1) by (rule match_step_trades)
  obtain st' where rest: "match_loop tid (n + 1) st1 = Some (Inr (n + 1 + of_nat (length (fills v')), st'))"
    "state_ok st'" "abs_of st' = remainder v'" "last_trade_ok (last_trade st1) (fills v') (last_trade st')"
    "logged (logger_of st1) (map fill_text (fills v')) (logger_of st')"
    using go(2) [OF step(3) [symmetric] step(2), of "n + 1"] step(3) by auto
  have "match_loop tid n st = match_loop tid (n + 1) st1"
    using step(1) by (subst match_loop.simps) simp
  moreover have "last_trade_ok (last_trade st) (fills (abs_of st)) (last_trade st')"
    using rest(4) step(4) go(1)
    by (auto simp: last_trade_ok_def trade_of_def Trade_new_def split: option.splits if_splits)
  moreover have "logged (logger_of st) (map fill_text (fills (abs_of st))) (logger_of st')"
    using logged_trans [OF step(5) rest(5)] go(1) by simp
  ultimately show ?case using rest go(1) by (simp add: algebra_simps)
qed

section \<open>The number of trades\<close>

lemma distinct_idents:
  assumes wf: "book_wf bk h"
  shows "distinct (map order_id (fst (view bk h)) @ map order_id (snd (view bk h)))"
proof -
  have bid: "\<exists>od. h r = Some od \<and> isBuy od \<and> order_map bk (order_id od) = Some r" if "r \<in> set (bid_queue bk)" for r
    using bid_queue_at [OF wf that] by (auto elim: order_atE)
  have ask: "\<exists>od. h r = Some od \<and> \<not> isBuy od \<and> order_map bk (order_id od) = Some r" if "r \<in> set (ask_queue bk)" for r
    using ask_queue_at [OF wf that] by (auto elim: order_atE)
  have reg: "order_map bk (order_id (the (h r))) = Some r" if "r \<in> set (bid_queue bk @ ask_queue bk)" for r
    using bid [of r] ask [of r] that by auto
  have "set (bid_queue bk) \<inter> set (ask_queue bk) = {}" using bid ask by fastforce
  then have "distinct (bid_queue bk @ ask_queue bk)" using distinct_queues [OF wf] by simp
  moreover have "inj_on (\<lambda>r. order_id (the (h r))) (set (bid_queue bk @ ask_queue bk))"
  proof (rule inj_onI)
    fix r s
    assume rs: "r \<in> set (bid_queue bk @ ask_queue bk)" "s \<in> set (bid_queue bk @ ask_queue bk)"
      and eq: "order_id (the (h r)) = order_id (the (h s))"
    have "Some r = order_map bk (order_id (the (h s)))"
      using reg [OF rs(1)] unfolding eq by (rule sym)
    also have "\<dots> = Some s" by (rule reg [OF rs(2)])
    finally show "r = s" by (rule option.inject [THEN iffD1])
  qed
  ultimately have "distinct (map (\<lambda>r. order_id (the (h r))) (bid_queue bk @ ask_queue bk))"
    by (simp only: distinct_map)
  then show ?thesis by (simp add: view_def comp_def)
qed

lemma book_size_bound:
  assumes "book_wf bk h"
  shows "book_size (view bk h) \<le> 2 ^ 32"
proof -
  let ?is = "map order_id (fst (view bk h)) @ map order_id (snd (view bk h))"
  have "length ?is = card (set ?is)" using distinct_idents [OF assms] by (simp only: distinct_card)
  also have "\<dots> \<le> card (UNIV :: order_ident set)" by (rule card_mono) simp_all
  also have "\<dots> = 2 ^ 32" by (simp add: card_word)
  finally show ?thesis by (simp add: book_size_def)
qed

lemma trade_count_exact:
  assumes "state_ok st"
  shows "unat (of_nat (length (fills (abs_of st))) :: 64 word) = length (fills (abs_of st))"
proof -
  have "length (fills (abs_of st)) \<le> 2 ^ 32"
    using fills_fewer [of "abs_of st"] book_size_bound [OF state_okD(1) [OF assms]]
    by (auto simp: abs_of_def)
  then have "length (fills (abs_of st)) < 2 ^ LENGTH(64)" by simp
  then show ?thesis by (simp add: unat_of_nat)
qed

lemma matchOrders_runs:
  assumes "state_ok st"
  obtains n st' where "matchOrders tid st = Some (Inr (n, st'))" and "unat n = length (fills (abs_of st))"
    and "state_ok st'" and "abs_of st' = remainder (abs_of st)"
    and "last_trade_ok (last_trade st) (fills (abs_of st)) (last_trade st')"
    and "logged (logger_of st) (map fill_text (fills (abs_of st))) (logger_of st')"
  using match_loop_refines [OF assms, of tid 0] trade_count_exact [OF assms] that
  by (auto simp: matchOrders_def)

end
