(* ===== verification/Book_Session.thy ===== *)
theory Book_Session
  imports Match_Refinement
begin

text \<open>
  Whole sessions: the calls that the owner of a book makes, in any order, with the logger's background
  thread taking turns between them. The owner keeps two rules that the code relies on and does not
  check: a new order's id is not in the book, and an order object is reused or released only once it
  is out of the book.
\<close>

definition unused :: "match_state \<Rightarrow> addr \<Rightarrow> bool" where
  "unused st p \<longleftrightarrow> (\<forall>i. getOrder i (book_of st) \<noteq> Some p)"

inductive client_step :: "(i64 \<Rightarrow> tm) \<Rightarrow> 32 word \<Rightarrow> match_state \<Rightarrow> match_state \<Rightarrow> bool"
  for localtime :: "i64 \<Rightarrow> tm" and tid :: "32 word" where
  place: "unused st p \<Longrightarrow> getOrder (order_id od) (book_of st) = None \<Longrightarrow>
    addOrder (Some p) (book_of st) ((memory_of st)\<lparr>heap := (heap (memory_of st))(p \<mapsto> od)\<rparr>) = Inr (r, bk, mem) \<Longrightarrow>
    client_step localtime tid st (st\<lparr>book_of := bk, memory_of := mem\<rparr>)"
| release: "unused st p \<Longrightarrow>
    client_step localtime tid st (st\<lparr>memory_of := (memory_of st)\<lparr>heap := (heap (memory_of st))(p := None)\<rparr>\<rparr>)"
| cancel: "cancelOrder i (book_of st) (heap (memory_of st)) = Inr (r, bk) \<Longrightarrow>
    client_step localtime tid st (st\<lparr>book_of := bk\<rparr>)"
| modify: "modifyOrder i pr q (book_of st) (memory_of st) = Inr (r, bk, mem) \<Longrightarrow>
    client_step localtime tid st (st\<lparr>book_of := bk, memory_of := mem\<rparr>)"
| match: "matchOrders tid st = Some (Inr (n, st')) \<Longrightarrow> client_step localtime tid st st'"
| background: "0 \<le> ival last_flush \<Longrightarrow>
    worker_turn localtime (clock (memory_of st)) last_flush (logger_of st) = Inr (c, last_flush', lg) \<Longrightarrow>
    client_step localtime tid st (st\<lparr>memory_of := (memory_of st)\<lparr>clock := c\<rparr>, logger_of := lg\<rparr>)"

inductive session :: "(i64 \<Rightarrow> tm) \<Rightarrow> 32 word \<Rightarrow> match_state \<Rightarrow> match_state \<Rightarrow> bool"
  for localtime :: "i64 \<Rightarrow> tm" and tid :: "32 word" where
  begin_session: "session localtime tid st st"
| next_call: "session localtime tid st st' \<Longrightarrow> client_step localtime tid st' st'' \<Longrightarrow>
    session localtime tid st st''"

inductive_cases client_stepE: "client_step localtime tid st st'"

definition fresh_state :: "match_state \<Rightarrow> bool" where
  "fresh_state st \<longleftrightarrow>
     book_of st = OrderBook_new \<and> clocks_ok (clock (memory_of st)) \<and>
     (\<exists>out. logger_of st = AsyncLogger_new out)"

section \<open>Objects outside the book\<close>

lemma unused_not_queued:
  "book_wf (book_of st) h \<Longrightarrow> unused st p \<Longrightarrow> p \<notin> set (bid_queue (book_of st)) \<union> set (ask_queue (book_of st))"
  using in_queue_iff [of "book_of st" h p] by (auto simp: unused_def getOrder_def)

lemma book_frame_unused:
  assumes ok: "book_ok (book_of st) (heap (memory_of st))" and "unused st p"
  shows "book_ok (book_of st) ((heap (memory_of st))(p := x))"
    and "view (book_of st) ((heap (memory_of st))(p := x)) = view (book_of st) (heap (memory_of st))"
proof -
  note wf = book_ok_wf [OF ok]
  note notin = unused_not_queued [OF wf assms(2)]
  show eq: "view (book_of st) ((heap (memory_of st))(p := x)) = view (book_of st) (heap (memory_of st))"
    by (rule view_cong) (use notin in auto)
  have "book_wf (book_of st) ((heap (memory_of st))(p := x))"
    using wf by (rule book_wf_frame) (use notin in auto)
  then show "book_ok (book_of st) ((heap (memory_of st))(p := x))"
    using ok by (simp add: book_ok_view eq)
qed

section \<open>Every call succeeds and keeps the invariant\<close>

lemma spec_add_positive:
  "positive_book v \<Longrightarrow> quantity od \<noteq> 0 \<Longrightarrow> positive_book (spec_add od v)"
  unfolding positive_book_def set_spec_add by simp

lemma spec_cancel_positive: "positive_book v \<Longrightarrow> positive_book (spec_cancel i v)"
  unfolding positive_book_def using set_spec_cancel by blast

lemma book_ok_positive: "book_ok bk h \<longleftrightarrow> book_wf bk h \<and> positive_book (view bk h)"
  by (simp add: book_ok_view positive_book_def)

lemma add_total:
  assumes ok: "book_ok bk (heap mem)" and clk: "clocks_ok (clock mem)" and p: "heap mem p = Some od"
    and fresh: "order_map bk (order_id od) = None"
  obtains r bk' mem' where "addOrder (Some p) bk mem = Inr (r, bk', mem')"
    and "book_ok bk' (heap mem')" and "clocks_ok (clock mem')"
proof (cases "quantity od = 0")
  case True
  with ok clk p show thesis using that [of False bk mem] addOrder_empty [OF p True] by simp
next
  case False
  obtain bk' mem' where a: "addOrder (Some p) bk mem = Inr (True, bk', mem')"
    "heap mem' = (heap mem)(p \<mapsto> stamp (clock mem) od)" "clocks_ok (clock mem')" "book_wf bk' (heap mem')"
    "order_map bk' = (order_map bk)(order_id od \<mapsto> p)"
    "view bk' (heap mem') = spec_add (stamp (clock mem) od) (view bk (heap mem))"
    using book_ok_wf [OF ok] clk p False fresh by (rule addOrder_fresh)
  then show thesis
    using that [of True bk' mem'] ok False by (simp add: book_ok_positive spec_add_positive)
qed

lemma cancel_total:
  assumes ok: "book_ok bk h"
  obtains r bk' where "cancelOrder i bk h = Inr (r, bk')" and "book_ok bk' h"
proof (cases "order_map bk i")
  case None
  with ok show thesis using that cancelOrder_unknown by blast
next
  case (Some p)
  obtain bk' where c: "cancelOrder i bk h = Inr (True, bk')" "book_wf bk' h"
    "order_map bk' = (order_map bk)(i := None)"
    "bid_queue bk' = filter (\<lambda>q. q \<noteq> p) (bid_queue bk)"
    "ask_queue bk' = filter (\<lambda>q. q \<noteq> p) (ask_queue bk)"
    using book_ok_wf [OF ok] Some by (rule cancelOrder_registered)
  then show thesis
    using that [of True bk'] ok view_filter [OF book_ok_wf [OF ok] Some c(4,5)]
    by (simp add: book_ok_positive spec_cancel_positive)
qed

lemma modify_total:
  assumes ok: "book_ok bk (heap mem)" and clk: "clocks_ok (clock mem)"
  obtains r bk' mem' where "modifyOrder i pr q bk mem = Inr (r, bk', mem')"
    and "book_ok bk' (heap mem')" and "clocks_ok (clock mem')"
proof (cases "order_map bk i")
  case None
  with ok clk show thesis using that modifyOrder_unknown by blast
next
  case (Some p)
  note wf = book_ok_wf [OF ok]
  obtain od where p: "heap mem p = Some od" "order_id od = i" using wf Some by (rule registered_live)
  show thesis
  proof (cases "q = 0")
    case True
    obtain bk' mem' where "modifyOrder i pr 0 bk mem = Inr (False, bk', mem')" "book_wf bk' (heap mem')"
      "order_map bk' = (order_map bk)(i := None)"
      "view bk' (heap mem') = spec_cancel i (view bk (heap mem))" "clocks_ok (clock mem')"
      using wf clk Some p(1) by (rule modifyOrder_zero)
    with ok True show thesis
      using that [of False bk' mem'] by (simp add: book_ok_positive spec_cancel_positive)
  next
    case False
    obtain bk' mem' where "modifyOrder i pr q bk mem = Inr (True, bk', mem')"
      "heap mem' = (heap mem)(p \<mapsto> stamp (tick_realtime (clock mem)) (modified (clock mem) pr q od))"
      "clocks_ok (clock mem')" "book_wf bk' (heap mem')" "order_map bk' = order_map bk"
      "view bk' (heap mem') = spec_add (stamp (tick_realtime (clock mem)) (modified (clock mem) pr q od))
        (spec_cancel i (view bk (heap mem)))"
      using wf clk Some p(1) False by (rule modifyOrder_registered)
    with ok False show thesis
      using that [of True bk' mem'] by (simp add: book_ok_positive spec_cancel_positive spec_add_positive)
  qed
qed

section \<open>Sessions\<close>

lemma client_step_ok:
  assumes "client_step lt tid st st'" and "state_ok st"
  shows "state_ok st'"
  using assms
proof (cases rule: client_step.cases)
  case (place p od r bk mem)
  let ?mem = "(memory_of st)\<lparr>heap := (heap (memory_of st))(p \<mapsto> od)\<rparr>"
  have "book_ok (book_of st) (heap ?mem)" "clocks_ok (clock ?mem)"
    using assms(2) place(2) book_frame_unused(1) by (simp_all add: state_ok_def)
  then obtain r' bk' mem' where "addOrder (Some p) (book_of st) ?mem = Inr (r', bk', mem')"
    "book_ok bk' (heap mem')" "clocks_ok (clock mem')"
    by (rule add_total [where p = p and od = od]) (use place(3) in \<open>simp_all add: getOrder_def\<close>)
  with place assms(2) show ?thesis by (simp add: state_ok_def)
next
  case (release p)
  then show ?thesis using assms(2) book_frame_unused(1) by (simp add: state_ok_def)
next
  case (cancel i r bk)
  have "book_ok (book_of st) (heap (memory_of st))" using assms(2) by (simp add: state_ok_def)
  then obtain r' bk' where "cancelOrder i (book_of st) (heap (memory_of st)) = Inr (r', bk')"
    "book_ok bk' (heap (memory_of st))"
    by (rule cancel_total)
  with cancel assms(2) show ?thesis by (simp add: state_ok_def)
next
  case (modify i pr q r bk mem)
  have "book_ok (book_of st) (heap (memory_of st))" "clocks_ok (clock (memory_of st))"
    using assms(2) by (simp_all add: state_ok_def)
  then obtain r' bk' mem' where "modifyOrder i pr q (book_of st) (memory_of st) = Inr (r', bk', mem')"
    "book_ok bk' (heap mem')" "clocks_ok (clock mem')"
    by (rule modify_total)
  with modify assms(2) show ?thesis by (simp add: state_ok_def)
next
  case (match n)
  from assms(2) obtain n' st'' where "matchOrders tid st = Some (Inr (n', st''))" "state_ok st''"
    by (rule matchOrders_runs)
  with match show ?thesis by simp
next
  case (background last_flush c last_flush' lg)
  from assms(2) have "logger_wf (logger_of st)" "clocks_ok (clock (memory_of st))"
    by (simp_all add: state_ok_def)
  then obtain c' lf' lg' where
    "worker_turn lt (clock (memory_of st)) last_flush (logger_of st) = Inr (c', lf', lg')"
    "clocks_ok c'" "logger_wf lg'"
    using background(2) by (rule worker_turn_effect)
  with background assms(2) show ?thesis by (simp add: state_ok_def)
qed

lemma session_keeps:
  assumes "session lt tid st st'" and "state_ok st"
  shows "state_ok st'"
  using assms by induction (auto intro: client_step_ok)

lemma fresh_state_ok: "fresh_state st \<Longrightarrow> state_ok st"
  by (auto simp: fresh_state_def state_ok_def book_ok_new AsyncLogger_new_wf)

end
