(* ===== verification/Examples.thy ===== *)
theory Examples
  imports Match_Refinement
begin

text \<open>
  A small concrete session that the theorems are instantiated with: one bid of 10 at 101 and one ask of
  4 at 100 rest in the book, the logger is running and its queue is empty.
\<close>

definition example_clocks :: clocks where
  "example_clocks = \<lparr>
     realtime = (\<lambda>n. \<lparr>tv_sec = i64_of 1700000000, tv_nsec = i64_of (int (n mod 1000))\<rparr>), realtime_reads = 0,
     monotonic = (\<lambda>n. \<lparr>tv_sec = i64_of 5000, tv_nsec = i64_of (int (n mod 1000))\<rparr>), monotonic_reads = 0,
     tsc = (\<lambda>n. of_nat n * 1000), tsc_reads = 0\<rparr>"

definition example_bid :: order where
  "example_bid = Order_new 1 True 10 (i64_of 101) (i64_of 5) 0"

definition example_ask :: order where
  "example_ask = Order_new 2 False 4 (i64_of 100) (i64_of 7) 0"

definition example_heap :: heap where
  "example_heap = (\<lambda>_. None)(10 \<mapsto> example_bid, 20 \<mapsto> example_ask)"

definition example_book :: order_book where
  "example_book = \<lparr>
     buy_levels = [(i64_of 101, \<lparr>orders = [10], total_quantity = 10, order_count = 1\<rparr>)],
     sell_levels = [(i64_of 100, \<lparr>orders = [20], total_quantity = 4, order_count = 1\<rparr>)],
     order_map = (\<lambda>_. None)(1 \<mapsto> 10, 2 \<mapsto> 20),
     best_bid_price = i64_of 101, best_ask_price = i64_of 100\<rparr>"

definition example_memory :: memory where
  "example_memory = \<lparr>heap = example_heap, clock = example_clocks\<rparr>"

definition example_output :: log_output where
  "example_output = \<lparr>log_file = None, files = (\<lambda>_. []), stdout = []\<rparr>"

definition example_logger :: async_logger where
  "example_logger = snd (start [] (\<lambda>_. True) (AsyncLogger_new example_output))"

definition example_state :: match_state where
  "example_state = \<lparr>book_of = example_book, memory_of = example_memory, last_trade = None,
     logger_of = example_logger\<rparr>"

section \<open>The session is well-formed\<close>

lemma small_i64 [simp]:
  "ival (i64_of 4) = 4" "ival (i64_of 5) = 5" "ival (i64_of 7) = 7" "ival (i64_of 100) = 100"
  "ival (i64_of 101) = 101" "ival (i64_of 1700000000) = 1700000000" "ival (i64_of 5000) = 5000"
  by (simp_all add: in_i64_def)

lemma small_nanos [simp]: "ival (i64_of (int (n mod 1000))) = int (n mod 1000)"
proof (rule ival_i64_of)
  have "0 \<le> int (n mod 1000)" "int (n mod 1000) < 1000"
    using mod_less_divisor [of 1000 n] by linarith+
  then show "in_i64 (int (n mod 1000))" by (simp add: in_i64_def del: of_nat_mod zmod_int)
qed

lemma i64_of_inject_small [simp]:
  "i64_of 101 \<noteq> 0" "i64_of 100 \<noteq> 0" "i64_of 5 \<noteq> 0" "i64_of 7 \<noteq> 0"
  by (simp_all flip: ival_eq_zero_iff)

lemma example_clocks_ok [simp]: "clocks_ok example_clocks"
proof -
  have "int (n mod 1000) < 1000000000" for n
    using mod_less_divisor [of 1000 n] by linarith
  then show ?thesis by (simp add: clocks_ok_def example_clocks_def valid_timespec_def)
qed

lemma example_logger_simps [simp]:
  "running example_logger" "min_level example_logger = INFO" "pending example_logger = []"
  "logger_wf example_logger" "sink example_logger = example_output"
  using AsyncLogger_new_wf [of example_output]
  by (simp_all add: example_logger_def start_def AsyncLogger_new_def pending_def logger_wf_def
      example_output_def)

lemma example_sel [simp]:
  "order_id example_bid = 1" "order_id example_ask = 2" "quantity example_bid = 10" "quantity example_ask = 4"
  "price_scaled example_bid = i64_of 101" "price_scaled example_ask = i64_of 100"
  "timestamp_ns example_bid = i64_of 5" "timestamp_ns example_ask = i64_of 7"
  "isBuy example_bid" "\<not> isBuy example_ask"
  by (simp_all add: example_bid_def example_ask_def)

lemma example_heap_sel [simp]:
  "example_heap p = (if p = 20 then Some example_ask else if p = 10 then Some example_bid else None)"
  by (simp add: example_heap_def)

lemma example_view: "view example_book example_heap = ([example_bid], [example_ask])"
  by (simp add: view_def bid_queue_def ask_queue_def example_book_def flat_def)

lemma example_book_wf: "book_wf example_book example_heap"
proof -
  have "registered example_heap example_book i p" if "order_map example_book i = Some p" for i p
    using that by (auto simp: example_book_def registered_def flat_def split: if_splits)
  then show ?thesis
    by (simp add: book_wf_def ladder_ok_def example_book_def level_ok_def level_count_ok_def order_at_def
        map_sorted_def best_key_def map_rbegin_def map_begin_def)
qed

lemma example_getOrder [simp]:
  "getOrder i example_book = (if i = 2 then Some 20 else if i = 1 then Some 10 else None)"
  by (simp add: getOrder_def example_book_def)

lemma example_state_sel [simp]:
  "book_of example_state = example_book" "memory_of example_state = example_memory"
  "logger_of example_state = example_logger" "last_trade example_state = None"
  "heap example_memory = example_heap" "clock example_memory = example_clocks"
  by (simp_all add: example_state_def example_memory_def)

lemma example_book_ok: "book_ok example_book example_heap"
  by (simp add: book_ok_view example_book_wf example_view)

lemma example_state_ok: "state_ok example_state"
  by (simp add: state_ok_def example_book_ok)

section \<open>Its trades\<close>

lemma example_abs: "abs_of example_state = ([example_bid], [example_ask])"
  by (simp add: abs_of_def example_view)

lemma example_step:
  "spec_step ([example_bid], [example_ask]) = Some
     (\<lparr>fill_bid = 1, fill_ask = 2, fill_qty = 4, fill_price = i64_of 101\<rparr>,
      ([example_bid\<lparr>quantity := 6\<rparr>], []))"
  by (simp add: spec_step_def crossing_def i64_order_simps fill_of_def match_qty_def match_price_def
      take_from_def)

lemma example_fills:
  "fills ([example_bid], [example_ask]) =
     [\<lparr>fill_bid = 1, fill_ask = 2, fill_qty = 4, fill_price = i64_of 101\<rparr>]"
  "remainder ([example_bid], [example_ask]) = ([example_bid\<lparr>quantity := 6\<rparr>], [])"
  using example_step by (simp_all add: spec_step_def)

end
