(* ===== verification/Book_Theorems.thy ===== *)
theory Book_Theorems
  imports Book_Session Examples
begin

text \<open>
  The properties of the order book: its operations implement operations on two priority queues, never
  fault and keep the book well-formed; what its getters answer.
\<close>

section \<open>Auxiliary facts\<close>

lemma getOrder_view:
  assumes "book_wf bk h"
  shows "getOrder i bk \<noteq> None \<longleftrightarrow> i \<in> order_id ` (set (fst (view bk h)) \<union> set (snd (view bk h)))"
proof
  assume "getOrder i bk \<noteq> None"
  then obtain p where p: "order_map bk i = Some p" by (auto simp: getOrder_def)
  from assms p obtain od where "h p = Some od" "order_id od = i" by (rule registered_live)
  moreover have "p \<in> set (bid_queue bk) \<union> set (ask_queue bk)" using p in_queue_iff [OF assms] by blast
  ultimately show "i \<in> order_id ` (set (fst (view bk h)) \<union> set (snd (view bk h)))"
    by (force simp: view_def)
next
  assume "i \<in> order_id ` (set (fst (view bk h)) \<union> set (snd (view bk h)))"
  then obtain p where p: "p \<in> set (bid_queue bk) \<union> set (ask_queue bk)" "i = order_id (the (h p))"
    by (auto simp: view_def)
  then have "order_map bk i = Some p"
    using bid_queue_at [OF assms, of p] ask_queue_at [OF assms, of p] by (auto elim!: order_atE)
  then show "getOrder i bk \<noteq> None" by (simp add: getOrder_def)
qed

lemma spec_cancel_unknown:
  "i \<notin> order_id ` (set (fst v) \<union> set (snd v)) \<Longrightarrow> spec_cancel i v = v"
  by (cases v) (auto simp: spec_cancel_def filter_id_conv)

lemma best_price_extreme:
  assumes "book_wf bk h"
  shows "x \<in> set (fst (view bk h)) \<Longrightarrow> price_scaled x \<le> best_bid_price bk"
    and "x \<in> set (snd (view bk h)) \<Longrightarrow> best_ask_price bk \<le> price_scaled x"
  using view_sorted [OF assms] best_price_view [OF assms]
  by (cases "fst (view bk h)"; cases "snd (view bk h)"; auto simp: best_price_def)+

text \<open>Price-time order: better prices first, at equal prices earlier times first.\<close>

definition bid_order :: "order list \<Rightarrow> bool" where
  "bid_order = sorted_wrt (\<lambda>x y. price_scaled y < price_scaled x \<or>
     (price_scaled x = price_scaled y \<and> timestamp_ns x \<le> timestamp_ns y))"

definition ask_order :: "order list \<Rightarrow> bool" where
  "ask_order = sorted_wrt (\<lambda>x y. price_scaled x < price_scaled y \<or>
     (price_scaled x = price_scaled y \<and> timestamp_ns x \<le> timestamp_ns y))"

lemma insert_order_sorted:
  assumes "\<And>x. x \<in> set xs \<Longrightarrow> timestamp_ns x \<le> timestamp_ns od"
  shows "bid_order xs \<Longrightarrow> bid_order (insert_order (>) od xs)"
    and "ask_order xs \<Longrightarrow> ask_order (insert_order (<) od xs)"
  using assms
  by (force simp: bid_order_def ask_order_def insert_order_def sorted_wrt_append sorted_wrt_filter not_less)+

section \<open>addOrder\<close>

text \<open>C4: \<open>addOrder\<close> of a live order with a positive quantity and an id that the book does not hold
  succeeds: the order goes behind all orders with at least as good a price and ahead of the others,
  stamped with the current time if it had none; it is found under its id, every other id keeps
  its answer, and the book stays well-formed.\<close>

theorem addOrder_implements_spec:
  assumes "book_ok bk (heap mem)" and "clocks_ok (clock mem)" and "heap mem p = Some od"
    and "quantity od \<noteq> 0" and "getOrder (order_id od) bk = None"
  shows "\<exists>bk' mem'. addOrder (Some p) bk mem = Inr (True, bk', mem') \<and> book_ok bk' (heap mem') \<and>
    heap mem' = (heap mem)(p \<mapsto> stamp (clock mem) od) \<and>
    (\<forall>i. getOrder i bk' = (if i = order_id od then Some p else getOrder i bk)) \<and>
    view bk' (heap mem') = spec_add (stamp (clock mem) od) (view bk (heap mem))"
proof -
  have "order_map bk (order_id od) = None" using assms(5) by (simp add: getOrder_def)
  with book_ok_wf [OF assms(1)] assms(2-4) obtain bk' mem' where a:
    "addOrder (Some p) bk mem = Inr (True, bk', mem')"
    "heap mem' = (heap mem)(p \<mapsto> stamp (clock mem) od)" "clocks_ok (clock mem')" "book_wf bk' (heap mem')"
    "order_map bk' = (order_map bk)(order_id od \<mapsto> p)"
    "view bk' (heap mem') = spec_add (stamp (clock mem) od) (view bk (heap mem))"
    by (rule addOrder_fresh)
  moreover have "book_ok bk' (heap mem')"
    using assms(1,4) a(4,6) by (simp add: book_ok_positive spec_add_positive)
  ultimately show ?thesis by (simp add: getOrder_def)
qed

text \<open>A second bid at 101, which has no time yet, goes behind the first.\<close>

theorem addOrder_implements_spec_witness:
  "\<exists>bk' mem'. addOrder (Some 30) example_book
      (example_memory\<lparr>heap := example_heap(30 \<mapsto> Order_new 3 True 8 (i64_of 101) 0 0)\<rparr>) = Inr (True, bk', mem') \<and>
    map order_id (fst (view bk' (heap mem'))) = [1, 3] \<and> getOrder 3 bk' = Some 30"
proof -
  let ?od = "Order_new 3 True 8 (i64_of 101) 0 0"
  let ?mem = "example_memory\<lparr>heap := example_heap(30 \<mapsto> ?od)\<rparr>"
  have "30 \<notin> set (bid_queue example_book) \<union> set (ask_queue example_book)"
    by (simp add: bid_queue_def ask_queue_def example_book_def flat_def)
  then have v: "view example_book (heap ?mem) = ([example_bid], [example_ask])"
    using view_cong [of example_book "heap ?mem" example_heap] example_view by force
  have "book_wf example_book (heap ?mem)"
    using example_book_wf
    by (rule book_wf_frame) (auto simp: bid_queue_def ask_queue_def example_book_def flat_def)
  then have "book_ok example_book (heap ?mem)" by (simp only: book_ok_view v) simp
  moreover have "heap ?mem 30 = Some ?od" "clocks_ok (clock ?mem)" "getOrder (order_id ?od) example_book = None"
    by (simp_all add: getOrder_def example_book_def)
  ultimately have "\<exists>bk' mem'. addOrder (Some 30) example_book ?mem = Inr (True, bk', mem') \<and>
      book_ok bk' (heap mem') \<and> heap mem' = (heap ?mem)(30 \<mapsto> stamp (clock ?mem) ?od) \<and>
      (\<forall>i. getOrder i bk' = (if i = order_id ?od then Some 30 else getOrder i example_book)) \<and>
      view bk' (heap mem') = spec_add (stamp (clock ?mem) ?od) (view example_book (heap ?mem))"
    by (intro addOrder_implements_spec) simp_all
  moreover have "map order_id (fst (spec_add (stamp (clock ?mem) ?od) (view example_book (heap ?mem)))) = [1, 3]"
    unfolding v by (simp add: spec_add_def insert_order_def)
  ultimately show ?thesis by (metis Order_new_sel(1))
qed

text \<open>C18: The orders of a side stay in price-time order: when each side lists better prices first and
  earlier times first at equal prices, it still does after \<open>addOrder\<close> of an order that is not
  older than those in the book.\<close>

theorem addOrder_price_time:
  assumes "book_ok bk (heap mem)" and "clocks_ok (clock mem)" and "heap mem p = Some od"
    and "getOrder (order_id od) bk = None"
    and "bid_order (fst (view bk (heap mem)))" and "ask_order (snd (view bk (heap mem)))"
    and "\<forall>x \<in> set (fst (view bk (heap mem))) \<union> set (snd (view bk (heap mem))).
      timestamp_ns x \<le> timestamp_ns (stamp (clock mem) od)"
  shows "\<exists>r bk' mem'. addOrder (Some p) bk mem = Inr (r, bk', mem') \<and>
    bid_order (fst (view bk' (heap mem'))) \<and> ask_order (snd (view bk' (heap mem')))"
proof (cases "quantity od = 0")
  case True
  then have "addOrder (Some p) bk mem = Inr (False, bk, mem)"
    using assms(3) by (rule_tac addOrder_empty)
  with assms(5,6) show ?thesis by blast
next
  case False
  have "order_map bk (order_id od) = None" using assms(4) by (simp add: getOrder_def)
  with book_ok_wf [OF assms(1)] assms(2,3) False obtain bk' mem' where a:
    "addOrder (Some p) bk mem = Inr (True, bk', mem')"
    "heap mem' = (heap mem)(p \<mapsto> stamp (clock mem) od)" "clocks_ok (clock mem')" "book_wf bk' (heap mem')"
    "order_map bk' = (order_map bk)(order_id od \<mapsto> p)"
    "view bk' (heap mem') = spec_add (stamp (clock mem) od) (view bk (heap mem))"
    by (rule addOrder_fresh)
  have "bid_order (fst (view bk' (heap mem')))" "ask_order (snd (view bk' (heap mem')))"
    unfolding a(6) spec_add_def
    using assms(5-7) insert_order_sorted [of "fst (view bk (heap mem))" "stamp (clock mem) od"]
      insert_order_sorted [of "snd (view bk (heap mem))" "stamp (clock mem) od"]
    by (simp_all split: if_split)
  with a(1) show ?thesis by blast
qed

theorem addOrder_price_time_witness:
  "\<exists>r bk' mem'. addOrder (Some 30) OrderBook_new
      (example_memory\<lparr>heap := example_heap(30 \<mapsto> example_bid)\<rparr>) = Inr (r, bk', mem') \<and>
    bid_order (fst (view bk' (heap mem'))) \<and> ask_order (snd (view bk' (heap mem')))"
  by (rule addOrder_price_time [where od = example_bid])
    (simp_all add: book_ok_new getOrder_def bid_order_def ask_order_def, simp add: OrderBook_new_def)

section \<open>cancelOrder\<close>

text \<open>C5: \<open>cancelOrder\<close> answers whether the book held the id, takes exactly that order out of the two
  queues (all others keep their places), forgets the id and no other, and keeps the book well-formed.
  It never faults.\<close>

theorem cancelOrder_implements_spec:
  assumes "book_ok bk h"
  shows "\<exists>bk'. cancelOrder i bk h = Inr (getOrder i bk \<noteq> None, bk') \<and> book_ok bk' h \<and>
    (\<forall>j. getOrder j bk' = (if j = i then None else getOrder j bk)) \<and>
    view bk' h = spec_cancel i (view bk h)"
proof (cases "order_map bk i")
  case None
  then have "i \<notin> order_id ` (set (fst (view bk h)) \<union> set (snd (view bk h)))"
    using getOrder_view [OF book_ok_wf [OF assms], of i] by (simp add: getOrder_def)
  then show ?thesis
    using None assms by (auto simp: cancelOrder_unknown getOrder_def spec_cancel_unknown)
next
  case (Some p)
  obtain bk' where c: "cancelOrder i bk h = Inr (True, bk')" "book_wf bk' h"
    "order_map bk' = (order_map bk)(i := None)"
    "bid_queue bk' = filter (\<lambda>q. q \<noteq> p) (bid_queue bk)"
    "ask_queue bk' = filter (\<lambda>q. q \<noteq> p) (ask_queue bk)"
    using book_ok_wf [OF assms] Some by (rule cancelOrder_registered)
  then show ?thesis
    using assms Some view_filter [OF book_ok_wf [OF assms] Some c(4,5)]
    by (simp add: book_ok_positive spec_cancel_positive getOrder_def)
qed

theorem cancelOrder_implements_spec_witness:
  "\<exists>bk'. cancelOrder 1 example_book example_heap = Inr (True, bk') \<and>
    view bk' example_heap = ([], [example_ask])"
  using cancelOrder_implements_spec [OF example_book_ok, of 1]
  by (auto simp: example_view spec_cancel_def)

section \<open>modifyOrder\<close>

text \<open>C6: \<open>modifyOrder\<close> on each of its branches. An unknown id changes nothing. A new quantity of zero
  takes the order out of the book, although the answer is false. Otherwise the order moves to the
  end of the queue of its new price, with the new quantity and the current time, and keeps its id.
  The book stays well-formed and there is no fault.\<close>

theorem modifyOrder_implements_spec:
  assumes "book_ok bk (heap mem)" and "clocks_ok (clock mem)"
  shows "\<exists>bk' mem'. modifyOrder i pr q bk mem = Inr (getOrder i bk \<noteq> None \<and> q \<noteq> 0, bk', mem') \<and>
    book_ok bk' (heap mem') \<and>
    view bk' (heap mem') =
      (case getOrder i bk of
         None \<Rightarrow> view bk (heap mem)
       | Some p \<Rightarrow>
           if q = 0 then spec_cancel i (view bk (heap mem))
           else spec_add (stamp (tick_realtime (clock mem)) (modified (clock mem) pr q (the (heap mem p))))
                  (spec_cancel i (view bk (heap mem))))"
proof (cases "order_map bk i")
  case None
  with assms show ?thesis by (simp add: modifyOrder_unknown getOrder_def)
next
  case (Some p)
  note wf = book_ok_wf [OF assms(1)]
  obtain od where p: "heap mem p = Some od" "order_id od = i" using wf Some by (rule registered_live)
  show ?thesis
  proof (cases "q = 0")
    case True
    obtain bk' mem' where "modifyOrder i pr 0 bk mem = Inr (False, bk', mem')" "book_wf bk' (heap mem')"
      "order_map bk' = (order_map bk)(i := None)"
      "view bk' (heap mem') = spec_cancel i (view bk (heap mem))" "clocks_ok (clock mem')"
      using wf assms(2) Some p(1) by (rule modifyOrder_zero)
    with assms(1) True Some show ?thesis
      by (simp add: book_ok_positive spec_cancel_positive getOrder_def)
  next
    case False
    obtain bk' mem' where "modifyOrder i pr q bk mem = Inr (True, bk', mem')"
      "heap mem' = (heap mem)(p \<mapsto> stamp (tick_realtime (clock mem)) (modified (clock mem) pr q od))"
      "clocks_ok (clock mem')" "book_wf bk' (heap mem')" "order_map bk' = order_map bk"
      "view bk' (heap mem') = spec_add (stamp (tick_realtime (clock mem)) (modified (clock mem) pr q od))
        (spec_cancel i (view bk (heap mem)))"
      using wf assms(2) Some p(1) False by (rule modifyOrder_registered)
    with assms(1) False Some p(1) show ?thesis
      by (simp add: book_ok_positive spec_cancel_positive spec_add_positive getOrder_def)
  qed
qed

theorem modifyOrder_implements_spec_witness:
  "\<exists>bk' mem'. modifyOrder 1 (i64_of 100) 0 example_book example_memory = Inr (False, bk', mem') \<and>
    view bk' (heap mem') = ([], [example_ask])"
proof -
  have "book_ok example_book (heap example_memory)" "clocks_ok (clock example_memory)"
    by (simp_all add: example_book_ok)
  from modifyOrder_implements_spec [OF this, of 1 "i64_of 100" 0] show ?thesis
    by (auto simp: example_view spec_cancel_def)
qed

section \<open>Sessions\<close>

text \<open>A session that places one order in an empty book.\<close>

lemma example_session:
  obtains st' where "session (\<lambda>_. \<lparr>tm_year = 0, tm_mon = 0, tm_mday = 1, tm_hour = 0, tm_min = 0, tm_sec = 0\<rparr>) 0
      (example_state\<lparr>book_of := OrderBook_new, logger_of := AsyncLogger_new example_output\<rparr>) st'"
    and "fresh_state (example_state\<lparr>book_of := OrderBook_new, logger_of := AsyncLogger_new example_output\<rparr>)"
    and "view (book_of st') (heap (memory_of st')) = ([example_bid], [])"
    and "getOrder 1 (book_of st') = Some 10"
proof -
  let ?lt = "\<lambda>_. \<lparr>tm_year = 0, tm_mon = 0, tm_mday = 1, tm_hour = 0, tm_min = 0, tm_sec = 0\<rparr> :: tm"
  let ?st = "example_state\<lparr>book_of := OrderBook_new, logger_of := AsyncLogger_new example_output\<rparr>"
  let ?mem = "example_memory\<lparr>heap := example_heap(10 \<mapsto> example_bid)\<rparr>"
  have fresh: "fresh_state ?st" by (auto simp: fresh_state_def)
  have e: "order_map OrderBook_new i = None" for i by (simp add: OrderBook_new_def)
  obtain bk mem where a: "addOrder (Some 10) OrderBook_new ?mem = Inr (True, bk, mem)"
    "heap mem = (heap ?mem)(10 \<mapsto> stamp (clock ?mem) example_bid)" "clocks_ok (clock mem)"
    "book_wf bk (heap mem)" "order_map bk = (order_map OrderBook_new)(order_id example_bid \<mapsto> 10)"
    "view bk (heap mem) = spec_add (stamp (clock ?mem) example_bid) (view OrderBook_new (heap ?mem))"
    by (rule addOrder_fresh [of OrderBook_new ?mem 10 example_bid]) (simp_all add: book_wf_new e)
  have "client_step ?lt 0 ?st (?st\<lparr>book_of := bk, memory_of := mem\<rparr>)"
    by (rule client_step.place [where p = 10 and od = example_bid and r = True])
      (use a(1) in \<open>simp_all add: unused_def getOrder_def e\<close>)
  with begin_session have s: "session ?lt 0 ?st (?st\<lparr>book_of := bk, memory_of := mem\<rparr>)"
    by (rule next_call)
  show thesis
    by (rule that [OF s fresh])
      (use a(5,6) in \<open>simp_all add: spec_add_def insert_order_def stamp_def getOrder_def\<close>)
qed

text \<open>C2: In every state that a session reaches from an empty book (orders placed under fresh ids,
  cancelled, modified, matched and released in any order, with the logging thread taking turns in
  between) the book is well-formed: both ladders are sorted by price without empty levels, the
  level counters are exact, every order is live, has a positive quantity and sits on the side and
  at the price it says, and the id table and the cached prices agree with the ladders.\<close>

theorem session_invariant:
  assumes "fresh_state st" and "session localtime tid st st'"
  shows "book_ok (book_of st') (heap (memory_of st'))"
  using session_keeps [OF assms(2) fresh_state_ok [OF assms(1)]] by (simp add: state_ok_def)

theorem session_invariant_witness:
  "\<exists>st'. session (\<lambda>_. \<lparr>tm_year = 0, tm_mon = 0, tm_mday = 1, tm_hour = 0, tm_min = 0, tm_sec = 0\<rparr>) 0
      (example_state\<lparr>book_of := OrderBook_new, logger_of := AsyncLogger_new example_output\<rparr>) st' \<and>
    view (book_of st') (heap (memory_of st')) = ([example_bid], []) \<and>
    book_ok (book_of st') (heap (memory_of st'))"
proof -
  let ?lt = "\<lambda>_. \<lparr>tm_year = 0, tm_mon = 0, tm_mday = 1, tm_hour = 0, tm_min = 0, tm_sec = 0\<rparr> :: tm"
  let ?st = "example_state\<lparr>book_of := OrderBook_new, logger_of := AsyncLogger_new example_output\<rparr>"
  obtain st' where s: "session ?lt 0 ?st st'" "fresh_state ?st"
    "view (book_of st') (heap (memory_of st')) = ([example_bid], [])"
    by (rule example_session)
  with session_invariant [OF s(2,1)] show ?thesis by blast
qed

text \<open>C3: No call can fault or hang in a state that a session reaches: cancelling, modifying and matching
  return for every argument, and so does adding any order under a fresh id.\<close>

theorem session_calls_return:
  assumes "fresh_state st" and "session localtime tid st st'"
  shows "(\<exists>r. cancelOrder i (book_of st') (heap (memory_of st')) = Inr r) \<and>
    (\<exists>r. modifyOrder i pr q (book_of st') (memory_of st') = Inr r) \<and>
    (\<exists>r. matchOrders tid st' = Some (Inr r)) \<and>
    (unused st' p \<and> getOrder (order_id od) (book_of st') = None \<longrightarrow>
      (\<exists>r. addOrder (Some p) (book_of st') ((memory_of st')\<lparr>heap := (heap (memory_of st'))(p \<mapsto> od)\<rparr>) = Inr r))"
proof (intro conjI impI)
  have ok: "state_ok st'" using session_keeps [OF assms(2) fresh_state_ok [OF assms(1)]] .
  then have bk: "book_ok (book_of st') (heap (memory_of st'))" "clocks_ok (clock (memory_of st'))"
    by (simp_all add: state_ok_def)
  show "\<exists>r. cancelOrder i (book_of st') (heap (memory_of st')) = Inr r"
    using bk(1) by (rule cancel_total [of _ _ i]) blast
  show "\<exists>r. modifyOrder i pr q (book_of st') (memory_of st') = Inr r"
    using bk by (rule modify_total [of _ _ i pr q]) blast
  show "\<exists>r. matchOrders tid st' = Some (Inr r)"
    using ok by (rule matchOrders_runs [of _ tid]) blast
  assume p: "unused st' p \<and> getOrder (order_id od) (book_of st') = None"
  let ?mem = "(memory_of st')\<lparr>heap := (heap (memory_of st'))(p \<mapsto> od)\<rparr>"
  have "book_ok (book_of st') (heap ?mem)" "clocks_ok (clock ?mem)"
    using bk book_frame_unused(1) [OF bk(1) conjunct1 [OF p]] by simp_all
  then obtain r bk' mem' where "addOrder (Some p) (book_of st') ?mem = Inr (r, bk', mem')"
    by (rule add_total [where p = p and od = od]) (use p in \<open>simp_all add: getOrder_def\<close>)
  then show "\<exists>r. addOrder (Some p) (book_of st') ?mem = Inr r" by blast
qed

theorem session_calls_return_witness:
  "\<exists>r. matchOrders 0 (example_state\<lparr>book_of := OrderBook_new, logger_of := AsyncLogger_new example_output\<rparr>) =
     Some (Inr r)"
proof -
  have "fresh_state (example_state\<lparr>book_of := OrderBook_new, logger_of := AsyncLogger_new example_output\<rparr>)"
    by (auto simp: fresh_state_def)
  from session_calls_return [OF this begin_session] show ?thesis by blast
qed

section \<open>Getters\<close>

text \<open>The cached best bid price bounds every bid from above and the cached best ask price every ask
  from below, both are attained, and both are 0 for an empty side; \<open>getBestBid\<close> and \<open>getBestAsk\<close>
  are the first orders of the queues and carry these prices.\<close>

lemma best_prices_view:
  assumes "book_ok bk h"
  shows "(\<forall>x \<in> set (fst (view bk h)). price_scaled x \<le> getBestBidPrice bk) \<and>
    (\<forall>y \<in> set (snd (view bk h)). getBestAskPrice bk \<le> price_scaled y) \<and>
    getBestBidPrice bk = (case getBestBid bk of None \<Rightarrow> 0 | Some p \<Rightarrow> price_scaled (the (h p))) \<and>
    getBestAskPrice bk = (case getBestAsk bk of None \<Rightarrow> 0 | Some p \<Rightarrow> price_scaled (the (h p))) \<and>
    map_option (\<lambda>p. the (h p)) (getBestBid bk) = (case fst (view bk h) of [] \<Rightarrow> None | x # _ \<Rightarrow> Some x) \<and>
    map_option (\<lambda>p. the (h p)) (getBestAsk bk) = (case snd (view bk h) of [] \<Rightarrow> None | x # _ \<Rightarrow> Some x)"
proof -
  note wf = book_ok_wf [OF assms]
  have "\<forall>x \<in> set (fst (view bk h)). price_scaled x \<le> getBestBidPrice bk"
    "\<forall>y \<in> set (snd (view bk h)). getBestAskPrice bk \<le> price_scaled y"
    using best_price_extreme [OF wf] by (simp_all add: getBestBidPrice_def getBestAskPrice_def)
  moreover have "getBestBidPrice bk = (case getBestBid bk of None \<Rightarrow> 0 | Some p \<Rightarrow> price_scaled (the (h p)))"
    "getBestAskPrice bk = (case getBestAsk bk of None \<Rightarrow> 0 | Some p \<Rightarrow> price_scaled (the (h p)))"
    using best_price_view [OF wf] getBest_queue [OF wf]
    by (auto simp: getBestBidPrice_def getBestAskPrice_def best_price_def view_def split: list.split)
  moreover have
    "map_option (\<lambda>p. the (h p)) (getBestBid bk) = (case fst (view bk h) of [] \<Rightarrow> None | x # _ \<Rightarrow> Some x)"
    "map_option (\<lambda>p. the (h p)) (getBestAsk bk) = (case snd (view bk h) of [] \<Rightarrow> None | x # _ \<Rightarrow> Some x)"
    using getBest_queue [OF wf] by (auto simp: view_def split: list.split)
  ultimately show ?thesis by blast
qed

text \<open>An id that the book answers for belongs to exactly one order of the two queues, and the
  pointer the book answers with leads to that order: no id is lost and none is stale.\<close>

lemma getOrder_exact_view:
  assumes "book_ok bk h"
  shows "(case getOrder i bk of
      None \<Rightarrow> i \<notin> set (map order_id (fst (view bk h) @ snd (view bk h)))
    | Some p \<Rightarrow> (\<exists>od. h p = Some od \<and> order_id od = i \<and> od \<in> set (fst (view bk h) @ snd (view bk h)))) \<and>
    distinct (map order_id (fst (view bk h) @ snd (view bk h)))"
proof (intro conjI)
  note wf = book_ok_wf [OF assms]
  show "distinct (map order_id (fst (view bk h) @ snd (view bk h)))"
    using distinct_idents [OF wf] by simp
  show "case getOrder i bk of
      None \<Rightarrow> i \<notin> set (map order_id (fst (view bk h) @ snd (view bk h)))
    | Some p \<Rightarrow> (\<exists>od. h p = Some od \<and> order_id od = i \<and> od \<in> set (fst (view bk h) @ snd (view bk h)))"
  proof (cases "getOrder i bk")
    case None
    then show ?thesis using getOrder_view [OF wf, of i] by auto
  next
    case (Some p)
    then have p: "order_map bk i = Some p" by (simp add: getOrder_def)
    with wf obtain od where od: "h p = Some od" "order_id od = i" by (rule registered_live)
    have "p \<in> set (bid_queue bk) \<union> set (ask_queue bk)" using p in_queue_iff [OF wf] by blast
    with od have "od \<in> set (fst (view bk h) @ snd (view bk h))" by (force simp: view_def)
    with od Some show ?thesis by auto
  qed
qed

text \<open>C22: The cached best prices are right in every state that a session reaches from an empty book, whatever
  was placed, cancelled, modified, matched and released: the best bid price bounds every bid in the
  book from above and the best ask price every ask from below, both are attained, and both are 0
  for an empty side; \<open>getBestBid\<close> and \<open>getBestAsk\<close> are the first orders of the queues and carry these
  prices.\<close>

theorem best_prices_exact:
  assumes "fresh_state st" and "session localtime tid st st'"
    and "bk = book_of st'" and "h = heap (memory_of st')"
  shows "(\<forall>x \<in> set (fst (view bk h)). price_scaled x \<le> getBestBidPrice bk) \<and>
    (\<forall>y \<in> set (snd (view bk h)). getBestAskPrice bk \<le> price_scaled y) \<and>
    getBestBidPrice bk = (case getBestBid bk of None \<Rightarrow> 0 | Some p \<Rightarrow> price_scaled (the (h p))) \<and>
    getBestAskPrice bk = (case getBestAsk bk of None \<Rightarrow> 0 | Some p \<Rightarrow> price_scaled (the (h p))) \<and>
    map_option (\<lambda>p. the (h p)) (getBestBid bk) = (case fst (view bk h) of [] \<Rightarrow> None | x # _ \<Rightarrow> Some x) \<and>
    map_option (\<lambda>p. the (h p)) (getBestAsk bk) = (case snd (view bk h) of [] \<Rightarrow> None | x # _ \<Rightarrow> Some x)"
  using session_keeps [OF assms(2) fresh_state_ok [OF assms(1)]] unfolding assms(3,4) state_ok_def
  by (intro best_prices_view) (rule conjunct1)

theorem best_prices_exact_witness:
  "\<exists>st'. session (\<lambda>_. \<lparr>tm_year = 0, tm_mon = 0, tm_mday = 1, tm_hour = 0, tm_min = 0, tm_sec = 0\<rparr>) 0
      (example_state\<lparr>book_of := OrderBook_new, logger_of := AsyncLogger_new example_output\<rparr>) st' \<and>
    price_scaled example_bid \<le> getBestBidPrice (book_of st') \<and>
    getBestBid (book_of st') \<noteq> None \<and> getBestAskPrice (book_of st') = 0"
proof -
  let ?lt = "\<lambda>_. \<lparr>tm_year = 0, tm_mon = 0, tm_mday = 1, tm_hour = 0, tm_min = 0, tm_sec = 0\<rparr> :: tm"
  let ?st = "example_state\<lparr>book_of := OrderBook_new, logger_of := AsyncLogger_new example_output\<rparr>"
  obtain st' where s: "session ?lt 0 ?st st'" "fresh_state ?st"
    "view (book_of st') (heap (memory_of st')) = ([example_bid], [])"
    by (rule example_session)
  from best_prices_exact [OF s(2,1) refl refl] s(1) show ?thesis
    unfolding s(3) by (intro exI [of _ st']) (auto split: option.splits)
qed

text \<open>C21: In every state that a session reaches from an empty book the id table and the queues agree: an id
  that the book answers for belongs to exactly one order of the two queues, the pointer the book
  answers with leads to that order, and an id it does not answer for belongs to none. So whatever
  was placed, cancelled, modified, matched and released, no id is lost and none is stale.\<close>

theorem getOrder_exact:
  assumes "fresh_state st" and "session localtime tid st st'"
    and "bk = book_of st'" and "h = heap (memory_of st')"
  shows "(case getOrder i bk of
      None \<Rightarrow> i \<notin> set (map order_id (fst (view bk h) @ snd (view bk h)))
    | Some p \<Rightarrow> (\<exists>od. h p = Some od \<and> order_id od = i \<and> od \<in> set (fst (view bk h) @ snd (view bk h)))) \<and>
    distinct (map order_id (fst (view bk h) @ snd (view bk h)))"
  using session_keeps [OF assms(2) fresh_state_ok [OF assms(1)]] unfolding assms(3,4) state_ok_def
  by (intro getOrder_exact_view) (rule conjunct1)

theorem getOrder_exact_witness:
  "\<exists>st'. session (\<lambda>_. \<lparr>tm_year = 0, tm_mon = 0, tm_mday = 1, tm_hour = 0, tm_min = 0, tm_sec = 0\<rparr>) 0
      (example_state\<lparr>book_of := OrderBook_new, logger_of := AsyncLogger_new example_output\<rparr>) st' \<and>
    getOrder 1 (book_of st') = Some 10 \<and>
    (\<exists>od. heap (memory_of st') 10 = Some od \<and> order_id od = 1 \<and> od \<in> set ([example_bid] @ []))"
proof -
  let ?lt = "\<lambda>_. \<lparr>tm_year = 0, tm_mon = 0, tm_mday = 1, tm_hour = 0, tm_min = 0, tm_sec = 0\<rparr> :: tm"
  let ?st = "example_state\<lparr>book_of := OrderBook_new, logger_of := AsyncLogger_new example_output\<rparr>"
  obtain st' where s: "session ?lt 0 ?st st'" "fresh_state ?st"
    "view (book_of st') (heap (memory_of st')) = ([example_bid], [])" "getOrder 1 (book_of st') = Some 10"
    by (rule example_session)
  from getOrder_exact [OF s(2,1) refl refl, of 1] s(1,4) show ?thesis
    unfolding s(3) by (intro exI [of _ st']) auto
qed

end
