(* ===== verification/Match_Theorems.thy ===== *)
theory Match_Theorems
  imports Book_Theorems
begin

text \<open>
  The properties of the matching loop: it implements the consumption of two queues from their fronts,
  and what follows from that about prices, quantities, priority, the number of trades and the log.
\<close>

section \<open>Auxiliary facts\<close>

lemma rest_of_prices:
  assumes "rest_of ys xs" and "y \<in> set ys"
  shows "\<exists>x \<in> set xs. price_scaled x = price_scaled y"
  using assms by (force simp: rest_of_def)

lemma state_sorted:
  assumes "state_ok st"
  shows "sorted_wrt (\<lambda>x y. price_scaled y \<le> price_scaled x) (fst (abs_of st))"
    and "sorted_wrt (\<lambda>x y. price_scaled x \<le> price_scaled y) (snd (abs_of st))"
  using view_sorted [OF state_okD(1) [OF assms]] by (simp_all add: abs_of_def)

lemma stuck_apart:
  assumes stuck: "spec_step v = None"
    and srt: "sorted_wrt (\<lambda>x y. price_scaled y \<le> price_scaled x) (fst v)"
      "sorted_wrt (\<lambda>x y. price_scaled x \<le> price_scaled y) (snd v)"
    and pos: "\<And>x. x \<in> set (snd v) \<Longrightarrow> 0 < price_scaled x"
    and b: "b \<in> set (fst v)" and a: "a \<in> set (snd v)"
  shows "price_scaled b < price_scaled a"
proof -
  obtain b0 bs a0 as where v: "v = (b0 # bs, a0 # as)"
    using a b by (cases v; cases "fst v"; cases "snd v") auto
  have "price_scaled b0 < price_scaled a0"
    using stuck pos [of a0] by (force simp: v spec_step_def crossing_def not_le split: if_splits)
  moreover have "price_scaled b \<le> price_scaled b0" "price_scaled a0 \<le> price_scaled a"
    using srt a b by (auto simp: v)
  ultimately show ?thesis by simp
qed

lemma matchOrders_result:
  assumes "state_ok st" and "matchOrders tid st = Some (Inr (n, st'))"
  shows "unat n = length (fills (abs_of st))" and "state_ok st'" and "abs_of st' = remainder (abs_of st)"
    and "logged (logger_of st) (map fill_text (fills (abs_of st))) (logger_of st')"
proof -
  obtain m st'' where run: "matchOrders tid st = Some (Inr (m, st''))" "unat m = length (fills (abs_of st))"
    "state_ok st''" "abs_of st'' = remainder (abs_of st)"
    "last_trade_ok (last_trade st) (fills (abs_of st)) (last_trade st'')"
    "logged (logger_of st) (map fill_text (fills (abs_of st))) (logger_of st'')"
    using assms(1) by (rule matchOrders_runs)
  then have "m = n" "st'' = st'" using assms(2) by simp_all
  with run show "unat n = length (fills (abs_of st))" "state_ok st'" "abs_of st' = remainder (abs_of st)"
    "logged (logger_of st) (map fill_text (fills (abs_of st))) (logger_of st')"
    by simp_all
qed

lemma example_run:
  obtains n st' where "matchOrders tid example_state = Some (Inr (n, st'))"
  using matchOrders_runs [OF example_state_ok] by metis

section \<open>The loop implements the specification\<close>

text \<open>C1: On a well-formed state \<open>matchOrders\<close> returns, without a fault; the number it returns is the exact
  number of trades (its counter does not wrap), the book it leaves is well-formed and stands for what
  the abstract matching leaves of the two queues, and the remembered trade is the last one made, or
  the old one when there was none.\<close>

theorem matchOrders_implements_spec:
  assumes "state_ok st"
  shows "\<exists>n st'. matchOrders tid st = Some (Inr (n, st')) \<and> unat n = length (fills (abs_of st)) \<and>
    state_ok st' \<and> abs_of st' = remainder (abs_of st) \<and>
    (if fills (abs_of st) = [] then getLastTrade st' = getLastTrade st
     else \<exists>t. getLastTrade st' = Some (trade_of (last (fills (abs_of st))) t))"
proof -
  obtain n st' where "matchOrders tid st = Some (Inr (n, st'))" "unat n = length (fills (abs_of st))"
    "state_ok st'" "abs_of st' = remainder (abs_of st)"
    "last_trade_ok (last_trade st) (fills (abs_of st)) (last_trade st')"
    using assms by (rule matchOrders_runs)
  then show ?thesis
    by (auto simp: last_trade_ok_def getLastTrade_def split: option.splits if_splits)
qed

theorem matchOrders_implements_spec_witness:
  "\<exists>n st' t. matchOrders 0 example_state = Some (Inr (n, st')) \<and> unat n = 1 \<and>
    abs_of st' = ([example_bid\<lparr>quantity := 6\<rparr>], []) \<and>
    getLastTrade st' = Some (Trade_new 1 2 4 (i64_of 101) t)"
  using matchOrders_implements_spec [OF example_state_ok, of 0]
  by (auto simp: example_abs example_fills trade_of_def)

section \<open>The book afterwards\<close>

text \<open>C7: After \<open>matchOrders\<close> nothing matches any more. \<open>hasMatch\<close> is false, and every bid is below every ask
  unless an ask with a price of zero or less is left, which is what stops \<open>hasMatch\<close>; so when all prices
  in the book were positive, every bid is below every ask.\<close>

theorem matchOrders_uncrosses:
  assumes "state_ok st" and "matchOrders tid st = Some (Inr (n, st'))"
  shows "\<not> hasMatch (book_of st') \<and>
    ((\<exists>a \<in> set (snd (abs_of st')). price_scaled a \<le> 0) \<or>
     (\<forall>b \<in> set (fst (abs_of st')). \<forall>a \<in> set (snd (abs_of st')). price_scaled b < price_scaled a)) \<and>
    ((\<forall>x \<in> set (fst (abs_of st)) \<union> set (snd (abs_of st)). 0 < price_scaled x) \<longrightarrow>
     (\<forall>b \<in> set (fst (abs_of st')). \<forall>a \<in> set (snd (abs_of st')). price_scaled b < price_scaled a))"
proof (intro conjI impI)
  note res = matchOrders_result [OF assms]
  have stuck: "spec_step (abs_of st') = None" unfolding res(3) by (rule remainder_stuck)
  note apart = stuck_apart [OF stuck state_sorted [OF res(2)]]
  show "\<not> hasMatch (book_of st')"
  proof
    assume "hasMatch (book_of st')"
    moreover from this obtain b bs a as where v: "abs_of st' = (b # bs, a # as)"
      using hasMatch_empty [OF state_okD(1) [OF res(2)]] by (metis abs_of_def neq_Nil_conv prod.collapse)
    ultimately show False
      using stuck hasMatch_heads [OF state_okD(1) [OF res(2)]] by (simp add: abs_of_def spec_step_def)
  qed
  show "(\<exists>a \<in> set (snd (abs_of st')). price_scaled a \<le> 0) \<or>
     (\<forall>b \<in> set (fst (abs_of st')). \<forall>a \<in> set (snd (abs_of st')). price_scaled b < price_scaled a)"
    using apart by (meson not_less)
  assume pos: "\<forall>x \<in> set (fst (abs_of st)) \<union> set (snd (abs_of st)). 0 < price_scaled x"
  have "0 < price_scaled x" if "x \<in> set (snd (abs_of st'))" for x
    using that pos remainder_rest [OF state_okD(2) [OF assms(1)]] unfolding res(3)
    by (metis Un_iff rest_of_prices)
  then show "\<forall>b \<in> set (fst (abs_of st')). \<forall>a \<in> set (snd (abs_of st')). price_scaled b < price_scaled a"
    using apart by blast
qed

theorem matchOrders_uncrosses_witness:
  "\<exists>n st'. matchOrders 0 example_state = Some (Inr (n, st')) \<and> \<not> hasMatch (book_of st')"
proof -
  obtain n st' where "matchOrders 0 example_state = Some (Inr (n, st'))" by (rule example_run)
  with matchOrders_uncrosses [OF example_state_ok this] show ?thesis by blast
qed

text \<open>After matching a book of positive prices, \<open>getSpread\<close> does not overflow; it is positive when both
  sides have orders left and 0 otherwise.\<close>

theorem spread_after_matching:
  assumes "state_ok st" and "matchOrders tid st = Some (Inr (n, st'))"
    and "\<forall>x \<in> set (fst (abs_of st)) \<union> set (snd (abs_of st)). 0 < price_scaled x"
  shows "\<exists>s. getSpread (book_of st') = Inr s \<and>
    (if fst (abs_of st') \<noteq> [] \<and> snd (abs_of st') \<noteq> [] then 0 < s else s = 0)"
proof -
  note res = matchOrders_result [OF assms(1,2)]
  have stuck: "spec_step (abs_of st') = None" unfolding res(3) by (rule remainder_stuck)
  have pos: "0 < price_scaled x" if "x \<in> set (fst (abs_of st')) \<union> set (snd (abs_of st'))" for x
    using that assms(3) remainder_rest [OF state_okD(2) [OF assms(1)]] unfolding res(3)
    by (metis Un_iff rest_of_prices)
  have best: "best_bid_price (book_of st') = best_price (fst (abs_of st'))"
    "best_ask_price (book_of st') = best_price (snd (abs_of st'))"
    using best_price_view [OF state_okD(1) [OF res(2)]] by (simp_all add: abs_of_def)
  show ?thesis
  proof (cases "fst (abs_of st') \<noteq> [] \<and> snd (abs_of st') \<noteq> []")
    case False
    then show ?thesis by (auto simp: getSpread_def best best_price_def)
  next
    case True
    then obtain b bs a as where v: "fst (abs_of st') = b # bs" "snd (abs_of st') = a # as"
      by (meson neq_Nil_conv)
    have "price_scaled b < price_scaled a"
      by (rule stuck_apart [OF stuck state_sorted [OF res(2)]]) (use pos in \<open>auto simp: v\<close>)
    moreover have "0 < price_scaled b" "0 < price_scaled a"
      using pos [of b] pos [of a] by (simp_all add: v)
    moreover have "in_i64 (ival (price_scaled a) - ival (price_scaled b))"
      using calculation in_i64_ival [of "price_scaled a"] by (simp add: in_i64_def less_i64_def)
    ultimately show ?thesis
      by (auto simp: getSpread_def best best_price_def v i64_sub_def less_i64_def)
  qed
qed

theorem spread_after_matching_witness:
  "\<exists>n st'. matchOrders 0 example_state = Some (Inr (n, st')) \<and> getSpread (book_of st') = Inr 0"
proof -
  obtain n st' where run: "matchOrders 0 example_state = Some (Inr (n, st'))" by (rule example_run)
  have "\<forall>x \<in> set (fst (abs_of example_state)) \<union> set (snd (abs_of example_state)). 0 < price_scaled x"
    by (simp add: example_abs less_i64_def)
  from spread_after_matching [OF example_state_ok run this] run show ?thesis
    by (simp add: matchOrders_result(3) [OF example_state_ok run] example_abs example_fills)
qed

section \<open>Quantities, prices and priority\<close>

text \<open>C8: Matching conserves quantity, order by order: what an order still asks for plus what the trades
  gave it is what it asked for before, on both sides; and the two sides lose the same volume, the
  sum of the trades.\<close>

theorem matchOrders_conserves:
  assumes "state_ok st" and "matchOrders tid st = Some (Inr (n, st'))"
  shows "(\<forall>i. open_quantity i (fst (abs_of st)) =
        bought i (fills (abs_of st)) + open_quantity i (fst (abs_of st'))) \<and>
    (\<forall>i. open_quantity i (snd (abs_of st)) =
        sold i (fills (abs_of st)) + open_quantity i (snd (abs_of st'))) \<and>
    total_open (fst (abs_of st)) = volume (fills (abs_of st)) + total_open (fst (abs_of st')) \<and>
    total_open (snd (abs_of st)) = volume (fills (abs_of st)) + total_open (snd (abs_of st'))"
  unfolding matchOrders_result(3) [OF assms] by (intro conjI allI fills_conserve)

theorem matchOrders_conserves_witness:
  "\<exists>n st'. matchOrders 0 example_state = Some (Inr (n, st')) \<and>
    open_quantity 1 (fst (abs_of st')) = 6 \<and> total_open (snd (abs_of st')) = 0"
proof -
  obtain n st' where run: "matchOrders 0 example_state = Some (Inr (n, st'))" by (rule example_run)
  have "open_quantity 1 [example_bid] = bought 1 (fills (abs_of example_state)) + open_quantity 1 (fst (abs_of st'))"
    "total_open [example_ask] = volume (fills (abs_of example_state)) + total_open (snd (abs_of st'))"
    using matchOrders_conserves [OF example_state_ok run] unfolding example_abs by auto
  with run show ?thesis
    by (simp add: example_abs example_fills open_quantity_def total_open_def bought_def volume_def)
qed

text \<open>C9: Price-time priority: on each side the orders that traded are the first ones of the queue. All
  but the last of them are filled and gone, the last one may keep a part, and every order behind it
  is as it was.\<close>

theorem matchOrders_priority:
  assumes "state_ok st" and "matchOrders tid st = Some (Inr (n, st'))"
  shows "rest_of (fst (abs_of st')) (fst (abs_of st)) \<and> rest_of (snd (abs_of st')) (snd (abs_of st))"
  using remainder_rest [OF state_okD(2) [OF assms(1)]] by (simp add: matchOrders_result(3) [OF assms])

theorem matchOrders_priority_witness:
  "\<exists>n st'. matchOrders 0 example_state = Some (Inr (n, st')) \<and>
    rest_of (fst (abs_of st')) [example_bid] \<and> rest_of (snd (abs_of st')) [example_ask]"
proof -
  obtain n st' where run: "matchOrders 0 example_state = Some (Inr (n, st'))" by (rule example_run)
  with matchOrders_priority [OF example_state_ok run] show ?thesis by (auto simp: example_abs)
qed

text \<open>A trade that one turn of the loop has made: between the orders that \<open>getBestBid\<close> and \<open>getBestAsk\<close> gave
  before the turn.\<close>

definition fair_turn :: "match_state \<Rightarrow> match_state \<Rightarrow> bool" where
  "fair_turn s s' \<longleftrightarrow>
     (\<exists>p q b a t. getBestBid (book_of s) = Some p \<and> heap (memory_of s) p = Some b \<and>
        getBestAsk (book_of s) = Some q \<and> heap (memory_of s) q = Some a \<and>
        getLastTrade s' = Some t \<and> buy_order_id t = order_id b \<and> sell_order_id t = order_id a \<and>
        trade_price t = (if timestamp_ns b < timestamp_ns a then price_scaled b else price_scaled a) \<and>
        0 < price_scaled a \<and> price_scaled a \<le> trade_price t \<and> trade_price t \<le> price_scaled b \<and>
        trade_quantity t = min (quantity b) (quantity a) \<and> 0 < trade_quantity t)"

lemma match_step_fair:
  assumes ok: "state_ok st" and step: "spec_step (abs_of st) = Some (f, v')"
  obtains st' where "match_step tid st = Inr (Some st')" and "state_ok st'" and "abs_of st' = v'"
    and "fair_turn st st'"
proof -
  note wf = state_okD(1) [OF ok]
  from step obtain b bs a as where v: "abs_of st = (b # bs, a # as)" "crossing b a" "f = fill_of b a"
    by (rule spec_step_SomeE)
  have "view (book_of st) (heap (memory_of st)) = (b # bs, a # as)" using v(1) by (simp add: abs_of_def)
  with wf obtain p ps q qs where heads: "bid_queue (book_of st) = p # ps" "ask_queue (book_of st) = q # qs"
    "heap (memory_of st) p = Some b" "heap (memory_of st) q = Some a"
    by (rule queue_heads)
  have best: "getBestBid (book_of st) = Some p" "getBestAsk (book_of st) = Some q"
    using getBest_queue [OF wf] heads(1,2) by simp_all
  obtain st' where m: "match_step tid st = Inr (Some st')" "state_ok st'" "abs_of st' = v'"
    "last_trade st' = Some (trade_of f (clock_now (clock (memory_of st))))"
    using ok step by (rule match_step_trades)
  have "0 < match_qty b a"
    using spec_step_positive(2) [OF step state_okD(2) [OF ok]] by (simp add: v(3) fill_of_def)
  then have "fair_turn st st'"
    using v(2) best heads(3,4) m(4)
    by (auto simp: fair_turn_def getLastTrade_def trade_of_def Trade_new_def v(3) fill_of_def crossing_def
        match_price_def match_qty_def min_def)
  with m(1-3) show thesis by (rule that)
qed

lemma match_loop_fair:
  assumes "state_ok st"
  shows "\<exists>ss. length ss = Suc (length (fills (abs_of st))) \<and> ss ! 0 = st \<and>
    match_loop tid n st = Some (Inr (n + of_nat (length (fills (abs_of st))), last ss)) \<and>
    (\<forall>k < length (fills (abs_of st)). match_step tid (ss ! k) = Inr (Some (ss ! Suc k)) \<and>
      fair_turn (ss ! k) (ss ! Suc k))"
  using assms
proof (induction "abs_of st" arbitrary: st n rule: match_spec_induct)
  case stop
  then show ?case
    using match_step_stops [of st tid] by (intro exI [of _ "[st]"]) (simp add: match_loop.simps)
next
  case (go f v')
  obtain st1 where step: "match_step tid st = Inr (Some st1)" "state_ok st1" "abs_of st1 = v'" "fair_turn st st1"
    using go(3,1) by (rule match_step_fair)
  obtain ss where ss: "length ss = Suc (length (fills v'))" "ss ! 0 = st1"
    "match_loop tid (n + 1) st1 = Some (Inr (n + 1 + of_nat (length (fills v')), last ss))"
    "\<forall>k < length (fills v'). match_step tid (ss ! k) = Inr (Some (ss ! Suc k)) \<and> fair_turn (ss ! k) (ss ! Suc k)"
    using go(2) [OF step(3) [symmetric] step(2), of "n + 1"] step(3) by auto
  have "match_loop tid n st = match_loop tid (n + 1) st1"
    using step(1) by (subst match_loop.simps) simp
  moreover have "\<forall>k < Suc (length (fills v')). match_step tid ((st # ss) ! k) = Inr (Some ((st # ss) ! Suc k)) \<and>
      fair_turn ((st # ss) ! k) ((st # ss) ! Suc k)"
    using ss(2,4) step(1,4) by (auto simp: less_Suc_eq_0_disj)
  ultimately show ?case
    using ss(1,3) go(1) by (intro exI [of _ "st # ss"]) (auto simp: algebra_simps)
qed

text \<open>C10: Every trade of a run of \<open>matchOrders\<close> is fair. A run that returns \<open>n\<close> is exactly \<open>n\<close> turns of the
  loop; each turn trades the best bid with the best ask of that moment and records a trade with their
  ids, at the price of the older of the two (the ask's at equal times), which is at least the ask's price
  and at most the bid's, for the smaller of their open quantities, which is positive.\<close>

theorem matchOrders_fair:
  assumes "state_ok st" and "matchOrders tid st = Some (Inr (n, st'))"
  shows "\<exists>ss. length ss = Suc (unat n) \<and> ss ! 0 = st \<and> ss ! unat n = st' \<and>
    (\<forall>k < unat n. match_step tid (ss ! k) = Inr (Some (ss ! Suc k)) \<and>
      (\<exists>p q b a t. getBestBid (book_of (ss ! k)) = Some p \<and> heap (memory_of (ss ! k)) p = Some b \<and>
        getBestAsk (book_of (ss ! k)) = Some q \<and> heap (memory_of (ss ! k)) q = Some a \<and>
        getLastTrade (ss ! Suc k) = Some t \<and> buy_order_id t = order_id b \<and> sell_order_id t = order_id a \<and>
        trade_price t = (if timestamp_ns b < timestamp_ns a then price_scaled b else price_scaled a) \<and>
        0 < price_scaled a \<and> price_scaled a \<le> trade_price t \<and> trade_price t \<le> price_scaled b \<and>
        trade_quantity t = min (quantity b) (quantity a) \<and> 0 < trade_quantity t))"
proof -
  obtain ss where ss: "length ss = Suc (length (fills (abs_of st)))" "ss ! 0 = st"
    "match_loop tid 0 st = Some (Inr (0 + of_nat (length (fills (abs_of st))), last ss))"
    "\<forall>k < length (fills (abs_of st)). match_step tid (ss ! k) = Inr (Some (ss ! Suc k)) \<and>
      fair_turn (ss ! k) (ss ! Suc k)"
    using match_loop_fair [OF assms(1)] by blast
  have "last ss = st'" using ss(3) assms(2) by (simp add: matchOrders_def)
  then have "ss ! unat n = st'"
    using ss(1) matchOrders_result(1) [OF assms] last_conv_nth [of ss] by force
  with ss(1,2,4) show ?thesis
    unfolding matchOrders_result(1) [OF assms] fair_turn_def by blast
qed

theorem matchOrders_fair_witness:
  "\<exists>n st' t. matchOrders 0 example_state = Some (Inr (n, st')) \<and>
    match_step 0 example_state = Inr (Some st') \<and> getLastTrade st' = Some t \<and> 0 < trade_quantity t"
proof -
  obtain n st' where run: "matchOrders 0 example_state = Some (Inr (n, st'))" by (rule example_run)
  have n: "unat n = 1"
    using matchOrders_result(1) [OF example_state_ok run] by (simp add: example_abs example_fills)
  obtain ss t where "ss ! 0 = example_state" "ss ! 1 = st'" "match_step 0 (ss ! 0) = Inr (Some (ss ! Suc 0))"
    "getLastTrade (ss ! Suc 0) = Some t" "0 < trade_quantity t"
    using matchOrders_fair [OF example_state_ok run] unfolding n by (metis zero_less_one)
  with run show ?thesis by auto
qed

text \<open>A run makes fewer trades than there are orders in the book, and none when the best prices do not
  cross: so the loop turns at most \<open>2 ^ 32\<close> times.\<close>

theorem matchOrders_trade_count:
  assumes "state_ok st" and "matchOrders tid st = Some (Inr (n, st'))"
  shows "(if hasMatch (book_of st) then 0 < unat n \<and> unat n < book_size (abs_of st) else n = 0 \<and> st' = st) \<and>
    book_size (abs_of st) \<le> 2 ^ 32"
proof
  show "book_size (abs_of st) \<le> 2 ^ 32"
    using book_size_bound [OF state_okD(1) [OF assms(1)]] by (simp add: abs_of_def)
  note n = matchOrders_result(1) [OF assms]
  show "if hasMatch (book_of st) then 0 < unat n \<and> unat n < book_size (abs_of st) else n = 0 \<and> st' = st"
  proof (cases "hasMatch (book_of st)")
    case True
    moreover from this obtain b bs a as where v: "abs_of st = (b # bs, a # as)"
      using hasMatch_empty [OF state_okD(1) [OF assms(1)]] by (metis abs_of_def neq_Nil_conv prod.collapse)
    ultimately have "spec_step (abs_of st) \<noteq> None"
      using hasMatch_heads [OF state_okD(1) [OF assms(1)]] by (simp add: abs_of_def spec_step_def)
    then have "fills (abs_of st) \<noteq> []" by auto
    with True n fills_fewer [of "abs_of st"] show ?thesis by auto
  next
    case False
    then have "match_step tid st = Inr None" by (simp add: match_step_def)
    then show ?thesis using False assms(2) by (simp add: matchOrders_def match_loop.simps)
  qed
qed

theorem matchOrders_trade_count_witness:
  "\<exists>n st'. matchOrders 0 example_state = Some (Inr (n, st')) \<and> 0 < unat n \<and> unat n < 2"
proof -
  obtain n st' where run: "matchOrders 0 example_state = Some (Inr (n, st'))" by (rule example_run)
  have "hasMatch example_book" by (simp add: hasMatch_def example_book_def i64_order_simps)
  with matchOrders_trade_count [OF example_state_ok run] run show ?thesis
    by (auto simp: example_abs book_size_def)
qed

text \<open>C23: While one side's best price is zero or negative nothing trades at all, whatever else the book
  holds: \<open>matchOrders\<close> returns 0 and changes nothing. One sell order with a price of zero blocks the
  book.\<close>

theorem nonpositive_price_blocks:
  assumes "state_ok st" and "x \<in> set (snd (abs_of st))" and "price_scaled x \<le> 0"
  shows "matchOrders tid st = Some (Inr (0, st))"
proof -
  note wf = state_okD(1) [OF assms(1)]
  have "best_ask_price (book_of st) \<le> price_scaled x"
    using best_price_extreme(2) [OF wf] assms(2) by (simp add: abs_of_def)
  then have "\<not> hasMatch (book_of st)" using assms(3) by (auto simp: hasMatch_def)
  then have "match_step tid st = Inr None" by (simp add: match_step_def)
  then show ?thesis by (simp add: matchOrders_def match_loop.simps)
qed

text \<open>An ask of 5 at price 0 joins the example: the bid at 101 and the ask at 100 no longer trade.\<close>

theorem nonpositive_price_blocks_witness:
  "\<exists>bk mem. addOrder (Some 30) example_book
      (example_memory\<lparr>heap := example_heap(30 \<mapsto> Order_new 3 False 5 0 (i64_of 7) 0)\<rparr>) = Inr (True, bk, mem) \<and>
    matchOrders 0 (example_state\<lparr>book_of := bk, memory_of := mem\<rparr>) =
      Some (Inr (0, example_state\<lparr>book_of := bk, memory_of := mem\<rparr>))"
proof -
  let ?od = "Order_new 3 False 5 0 (i64_of 7) 0"
  let ?mem = "example_memory\<lparr>heap := example_heap(30 \<mapsto> ?od)\<rparr>"
  have un: "unused example_state 30" by (simp add: unused_def)
  have b: "book_ok example_book (heap ?mem)" "view example_book (heap ?mem) = ([example_bid], [example_ask])"
    using book_frame_unused [OF _ un, of "Some ?od"] example_book_ok example_view by simp_all
  obtain bk mem where a: "addOrder (Some 30) example_book ?mem = Inr (True, bk, mem)"
    "heap mem = (heap ?mem)(30 \<mapsto> stamp (clock ?mem) ?od)" "clocks_ok (clock mem)"
    "book_wf bk (heap mem)" "order_map bk = (order_map example_book)(order_id ?od \<mapsto> 30)"
    "view bk (heap mem) = spec_add (stamp (clock ?mem) ?od) (view example_book (heap ?mem))"
    by (rule addOrder_fresh [of example_book ?mem 30 ?od])
      (use b(1) in \<open>simp_all add: book_ok_def, simp add: example_book_def\<close>)
  let ?st = "example_state\<lparr>book_of := bk, memory_of := mem\<rparr>"
  have v: "abs_of ?st = ([example_bid], [?od, example_ask])"
    using a(6) b(2) by (simp add: abs_of_def spec_add_def insert_order_def stamp_def i64_order_simps)
  have "positive_book (view bk (heap mem))" using v by (simp add: abs_of_def positive_book_def)
  then have "state_ok ?st" using a(3,4) by (simp add: state_ok_def book_ok_positive)
  then have "matchOrders 0 ?st = Some (Inr (0, ?st))"
    by (rule nonpositive_price_blocks [where x = ?od]) (simp_all add: v)
  with a(1) show ?thesis by blast
qed

section \<open>The log of the trades\<close>

text \<open>C40: Every trade is reported to the logger in the order of the trades and with its whole text, as far
  as there is room: when the logger runs at a level of at most INFO, the queue gets the texts of the
  first trades until it is full, and the other reports are dropped without any effect on the
  matching.\<close>

theorem matchOrders_logs_trades:
  assumes "state_ok st" and "matchOrders tid st = Some (Inr (n, st'))"
  shows "map message (pending (logger_of st')) =
      map message (pending (logger_of st)) @
      take (if min_level (logger_of st) \<le> INFO \<and> running (logger_of st)
            then 65535 - length (pending (logger_of st)) else 0)
        (map (\<lambda>f. trade_text (fill_qty f) (fill_price f) (fill_bid f) (fill_ask f)) (fills (abs_of st))) \<and>
    sink (logger_of st') = sink (logger_of st)"
  using matchOrders_result(4) [OF assms] by (auto simp: logged_def log_room_def fill_text_def [abs_def])

theorem matchOrders_logs_trades_witness:
  "\<exists>n st'. matchOrders 0 example_state = Some (Inr (n, st')) \<and>
    map message (pending (logger_of st')) = [''Trade: 4 @ 101 (Bid:1 Ask:2 Qty:4)'']"
proof -
  obtain n st' where run: "matchOrders 0 example_state = Some (Inr (n, st'))" by (rule example_run)
  have "trade_text 4 (i64_of 101) 1 2 = ''Trade: 4 @ 101 (Bid:1 Ask:2 Qty:4)''"
    by (simp add: trade_text_def show_unsigned_def show_signed_def digits.simps digit_char_def char_of_def bit_0)
  with matchOrders_logs_trades [OF example_state_ok run] run show ?thesis
    by (simp add: example_abs example_fills)
qed

end
