(* ===== verification/Hazards.thy ===== *)
theory Hazards
  imports Match_Theorems
begin

text \<open>
  What happens when the owner of a book breaks a rule that the code does not check, and what a level's
  cached quantity means after a partial fill.
\<close>

section \<open>A turn of the loop without assumptions on the book\<close>

lemma match_step_trade:
  assumes m: "hasMatch (book_of st)" and p: "getBestBid (book_of st) = Some p" "heap (memory_of st) p = Some ob"
    and q: "getBestAsk (book_of st) = Some q" "heap (memory_of st) q = Some oa"
    and price: "\<not> price_scaled ob < price_scaled oa"
    and ok: "clocks_ok (clock (memory_of st))" "logger_wf (logger_of st)"
    and red: "reduce_quantity p (match_qty ob oa) (heap (memory_of st)) = Inr h1"
      "reduce_quantity q (match_qty ob oa) h1 = Inr h2"
    and can: "cancel_if_filled p (book_of st) h2 = Inr bk1" "cancel_if_filled q bk1 h2 = Inr bk2"
  obtains c t lg where
    "match_step tid st = Inr (Some \<lparr>book_of = bk2, memory_of = \<lparr>heap = h2, clock = c\<rparr>, last_trade = Some t,
       logger_of = lg\<rparr>)"
    and "clocks_ok c" and "logger_wf lg"
proof -
  obtain c lg where rec: "record_trade tid p q (match_price ob oa) (match_qty ob oa) st =
      Inr (st\<lparr>last_trade := Some (Trade_new (order_id ob) (order_id oa) (match_qty ob oa) (match_price ob oa)
              (clock_now (clock (memory_of st)))),
            memory_of := (memory_of st)\<lparr>clock := c\<rparr>, logger_of := lg\<rparr>)"
    and cl: "clocks_ok c" "logger_wf lg"
    using ok p(2) q(2) by (rule record_trade_effect)
  let ?t = "Trade_new (order_id ob) (order_id oa) (match_qty ob oa) (match_price ob oa)
      (clock_now (clock (memory_of st)))"
  let ?st = "\<lparr>book_of = bk2, memory_of = \<lparr>heap = h2, clock = c\<rparr>, last_trade = Some ?t, logger_of = lg\<rparr>"
  have "st\<lparr>book_of := bk2, memory_of := (memory_of st)\<lparr>heap := h2, clock := c\<rparr>, last_trade := Some ?t,
      logger_of := lg\<rparr> = ?st"
    by simp
  then have "match_step tid st = Inr (Some ?st)"
    using m p q price rec red can by (simp add: match_step_def executeTrade_def)
  then show thesis using cl by (rule that)
qed

section \<open>Filled orders that stay in the book\<close>

text \<open>The best bid is empty and its id is not in the table: the cancellation does nothing.\<close>

definition ghost_bid :: "match_state \<Rightarrow> bool" where
  "ghost_bid st \<longleftrightarrow>
     (\<exists>p q ob oa. getBestBid (book_of st) = Some p \<and> getBestAsk (book_of st) = Some q \<and> p \<noteq> q \<and>
        heap (memory_of st) p = Some ob \<and> heap (memory_of st) q = Some oa \<and>
        quantity ob = 0 \<and> quantity oa \<noteq> 0 \<and> getOrder (order_id ob) (book_of st) = None \<and>
        \<not> price_scaled ob < price_scaled oa) \<and>
     hasMatch (book_of st) \<and> clocks_ok (clock (memory_of st)) \<and> logger_wf (logger_of st)"

lemma ghost_bid_step:
  assumes "ghost_bid st"
  obtains st' where "match_step tid st = Inr (Some st')" and "ghost_bid st'"
proof -
  from assms obtain p q ob oa where g: "hasMatch (book_of st)" "getBestBid (book_of st) = Some p"
    "heap (memory_of st) p = Some ob" "getBestAsk (book_of st) = Some q" "heap (memory_of st) q = Some oa"
    "\<not> price_scaled ob < price_scaled oa" "clocks_ok (clock (memory_of st))" "logger_wf (logger_of st)"
    "p \<noteq> q" "quantity ob = 0" "quantity oa \<noteq> 0" "getOrder (order_id ob) (book_of st) = None"
    unfolding ghost_bid_def by blast
  have n: "match_qty ob oa = 0" using g(10,11) by (simp add: match_qty_def word_gt_0)
  let ?h = "heap (memory_of st)"
  have "ob\<lparr>quantity := 0\<rparr> = ob" using g(10) by simp
  then have "reduce_quantity p (match_qty ob oa) ?h = Inr ?h" "reduce_quantity q (match_qty ob oa) ?h = Inr ?h"
    using g(3,5,10) n by (simp_all add: reduce_quantity_def fun_upd_idem)
  moreover have "cancel_if_filled p (book_of st) ?h = Inr (book_of st)"
    "cancel_if_filled q (book_of st) ?h = Inr (book_of st)"
    using g(3,5,10-12) by (simp_all add: cancel_if_filled_def cancelOrder_unknown getOrder_def)
  ultimately obtain c t lg where s: "match_step tid st = Inr (Some \<lparr>book_of = book_of st,
      memory_of = \<lparr>heap = ?h, clock = c\<rparr>, last_trade = Some t, logger_of = lg\<rparr>)" "clocks_ok c" "logger_wf lg"
    using match_step_trade [OF g(1-8)] by metis
  moreover have "ghost_bid \<lparr>book_of = book_of st, memory_of = \<lparr>heap = ?h, clock = c\<rparr>,
      last_trade = Some t, logger_of = lg\<rparr>"
    using g s(2,3) by (auto simp: ghost_bid_def)
  ultimately show thesis using that by blast
qed

lemma ghost_bid_never_returns:
  assumes "match_loop tid n st = Some r"
  shows "\<not> ghost_bid st"
proof (rule match_loop.raw_induct [where P = "\<lambda>tid n st r. \<not> ghost_bid st", OF _ assms])
  fix loop tid n st y
  assume IH: "\<And>tid n st y. loop tid n st = Some y \<Longrightarrow> \<not> ghost_bid st"
    and body: "(case match_step tid st of Inl f \<Rightarrow> Some (Inl f) | Inr None \<Rightarrow> Some (Inr (n, st))
      | Inr (Some st') \<Rightarrow> loop tid (n + 1) st') = Some y"
  show "\<not> ghost_bid st"
  proof
    assume "ghost_bid st"
    then obtain st' where "match_step tid st = Inr (Some st')" "ghost_bid st'" by (rule ghost_bid_step)
    with IH body show False by auto
  qed
qed

section \<open>Two orders with one id\<close>

definition duplicate_heap :: heap where
  "duplicate_heap = (\<lambda>_. None)(10 \<mapsto> Order_new 1 True 10 (i64_of 101) (i64_of 5) 0,
     11 \<mapsto> Order_new 1 True 5 (i64_of 102) (i64_of 6) 0, 20 \<mapsto> Order_new 2 False 20 (i64_of 100) (i64_of 7) 0)"

definition duplicate_session :: "(bool \<times> order_book \<times> memory) res" where
  "duplicate_session =
     andThen (addOrder (Some 10) OrderBook_new \<lparr>heap = duplicate_heap, clock = example_clocks\<rparr>) (\<lambda>(_, bk1, mem1).
       andThen (addOrder (Some 11) bk1 mem1) (\<lambda>(_, bk2, mem2). addOrder (Some 20) bk2 mem2))"

lemma more_i64 [simp]: "ival (i64_of 102) = 102" "ival (i64_of 6) = 6"
  by (simp_all add: in_i64_def)

lemma more_i64_neq [simp]:
  "i64_of 6 \<noteq> 0" "i64_of 102 \<noteq> i64_of 101" "i64_of 101 \<noteq> i64_of 102"
  by (simp_all flip: ival_eq_zero_iff ival_inject)

lemmas book_eval =
  addOrder_def stamp_if_unset_def add_to_ladder_def level_addOrder_live updateBestBid_def updateBestAsk_def
  map_find_def map_erase_def map_rbegin_def map_begin_def OrderBook_new_def
  cancel_if_filled_def cancelOrder_def remove_from_ladder_def level_removeOrder_def level_isEmpty_def
  getBestBid_def getBestAsk_def getBestOrder_def hasMatch_def getOrder_def

lemma duplicate_session_book:
  "duplicate_session = Inr (True,
     \<lparr>buy_levels = [(i64_of 101, \<lparr>orders = [10], total_quantity = 10, order_count = 1\<rparr>),
                    (i64_of 102, \<lparr>orders = [11], total_quantity = 5, order_count = 1\<rparr>)],
      sell_levels = [(i64_of 100, \<lparr>orders = [20], total_quantity = 20, order_count = 1\<rparr>)],
      order_map = [1 \<mapsto> 11, 2 \<mapsto> 20], best_bid_price = i64_of 102, best_ask_price = i64_of 100\<rparr>,
     \<lparr>heap = duplicate_heap, clock = example_clocks\<rparr>)"
  by (simp add: duplicate_session_def duplicate_heap_def book_eval Let_def i64_order_simps)

text \<open>The state in which the three orders, two of them with id 1, are about to be matched.\<close>

definition duplicate_state :: match_state where
  "duplicate_state =
     (case duplicate_session of
        Inl _ \<Rightarrow> example_state
      | Inr (_, bk, mem) \<Rightarrow>
          \<lparr>book_of = bk, memory_of = mem, last_trade = None, logger_of = example_logger\<rparr>)"

lemma duplicate_runs_into_ghost:
  obtains st1 st2 where "match_step tid duplicate_state = Inr (Some st1)"
    and "match_step tid st1 = Inr (Some st2)" and "ghost_bid st2"
proof -
  let ?B = "Order_new 1 True 5 (i64_of 102) (i64_of 6) 0" and ?S = "Order_new 2 False 20 (i64_of 100) (i64_of 7) 0"
  let ?A = "Order_new 1 True 10 (i64_of 101) (i64_of 5) 0"
  define bk1 where "bk1 = \<lparr>buy_levels = [(i64_of 101, \<lparr>orders = [10], total_quantity = 10, order_count = 1\<rparr>)],
      sell_levels = [(i64_of 100, \<lparr>orders = [20], total_quantity = 20, order_count = 1\<rparr>)],
      order_map = [2 \<mapsto> 20], best_bid_price = i64_of 101, best_ask_price = i64_of 100\<rparr>"
  define h1 where "h1 = duplicate_heap(11 \<mapsto> ?B\<lparr>quantity := 0\<rparr>, 20 \<mapsto> ?S\<lparr>quantity := 15\<rparr>)"
  define h2 where "h2 = h1(10 \<mapsto> ?A\<lparr>quantity := 0\<rparr>, 20 \<mapsto> ?S\<lparr>quantity := 5\<rparr>)"
  have q: "match_qty ?B ?S = 5" "match_qty ?A (?S\<lparr>quantity := 15\<rparr>) = 10"
    by (simp_all add: match_qty_def)
  have om: "(\<lambda>a :: order_ident. if a = 2 then Some (20 :: addr) else if a = 1 then Some 11 else None)(1 := None) =
      [2 \<mapsto> 20]"
    by auto
  obtain c1 t1 lg1 where s1: "match_step tid duplicate_state =
      Inr (Some \<lparr>book_of = bk1, memory_of = \<lparr>heap = h1, clock = c1\<rparr>, last_trade = Some t1, logger_of = lg1\<rparr>)"
      "clocks_ok c1" "logger_wf lg1"
    by (rule match_step_trade [of duplicate_state 11 ?B 20 ?S
          "duplicate_heap(11 \<mapsto> ?B\<lparr>quantity := 0\<rparr>)" h1 bk1 bk1])
      (simp_all add: duplicate_state_def duplicate_session_book duplicate_heap_def bk1_def h1_def q book_eval
        reduce_quantity_def i64_order_simps om)
  let ?st1 = "\<lparr>book_of = bk1, memory_of = \<lparr>heap = h1, clock = c1\<rparr>, last_trade = Some t1, logger_of = lg1\<rparr>"
  obtain c2 t2 lg2 where s2: "match_step tid ?st1 =
      Inr (Some \<lparr>book_of = bk1, memory_of = \<lparr>heap = h2, clock = c2\<rparr>, last_trade = Some t2, logger_of = lg2\<rparr>)"
      "clocks_ok c2" "logger_wf lg2"
    by (rule match_step_trade [of ?st1 10 ?A 20 "?S\<lparr>quantity := 15\<rparr>"
          "h1(10 \<mapsto> ?A\<lparr>quantity := 0\<rparr>)" h2 bk1 bk1])
      (use s1(2,3) in \<open>simp_all add: duplicate_heap_def bk1_def h1_def h2_def q book_eval
        reduce_quantity_def i64_order_simps\<close>)
  have "ghost_bid \<lparr>book_of = bk1, memory_of = \<lparr>heap = h2, clock = c2\<rparr>, last_trade = Some t2, logger_of = lg2\<rparr>"
    using s2(2,3) by (simp add: ghost_bid_def bk1_def h2_def book_eval i64_order_simps)
  with s1(1) s2(1) show thesis by (rule that)
qed

text \<open>C17: The book does not check that ids are unique, and a duplicate makes the matcher hang: three orders,
  two of them with id 1, are all accepted, and then \<open>matchOrders\<close> has no result. (After two trades the best bid
  is an order with nothing left whose id has been forgotten with the other one, so it can never be cancelled,
  and the loop goes on with trades of quantity 0.)\<close>

theorem duplicate_id_hangs:
  "duplicate_session = Inr (True, book_of duplicate_state, memory_of duplicate_state) \<and>
   matchOrders tid duplicate_state = None"
proof
  show "duplicate_session = Inr (True, book_of duplicate_state, memory_of duplicate_state)"
    by (simp add: duplicate_state_def duplicate_session_book)
  obtain st1 st2 where "match_step tid duplicate_state = Inr (Some st1)"
    "match_step tid st1 = Inr (Some st2)" and ghost: "ghost_bid st2"
    by (rule duplicate_runs_into_ghost)
  then have "matchOrders tid duplicate_state = match_loop tid 2 st2"
    by (simp add: matchOrders_def match_loop.simps [of tid 0] match_loop.simps [of tid 1])
  also have "\<dots> = None" using ghost ghost_bid_never_returns by (cases "match_loop tid 2 st2") auto
  finally show "matchOrders tid duplicate_state = None" .
qed

section \<open>The cached quantity of a level\<close>

text \<open>The quantity that a level reports goes stale: after the bid of 10 has traded 4 with the ask, the
  level at 101 still answers 10, while its only order asks for 6.\<close>

theorem level_total_goes_stale:
  "\<exists>n st' l. matchOrders tid example_state = Some (Inr (n, st')) \<and>
     map_find (i64_of 101) (buy_levels (book_of st')) = Some l \<and> getTotalQuantity l = 10 \<and>
     map (\<lambda>p. quantity (the (heap (memory_of st') p))) (getOrders l) = [6]"
proof -
  define h where "h = example_heap(10 \<mapsto> example_bid\<lparr>quantity := 6\<rparr>, 20 \<mapsto> example_ask\<lparr>quantity := 0\<rparr>)"
  define bk where "bk = \<lparr>buy_levels = [(i64_of 101, \<lparr>orders = [10], total_quantity = 10, order_count = 1\<rparr>)],
      sell_levels = [], order_map = [1 \<mapsto> 10], best_bid_price = i64_of 101, best_ask_price = 0\<rparr>"
  have q: "match_qty example_bid example_ask = 4" by (simp add: match_qty_def)
  have om: "(\<lambda>a :: order_ident. if a = 2 then Some (20 :: addr) else if a = 1 then Some 10 else None)(2 := None) =
      [1 \<mapsto> 10]"
    by auto
  obtain c t lg where s: "match_step tid example_state =
      Inr (Some \<lparr>book_of = bk, memory_of = \<lparr>heap = h, clock = c\<rparr>, last_trade = Some t, logger_of = lg\<rparr>)"
    by (rule match_step_trade [of example_state 10 example_bid 20 example_ask
          "example_heap(10 \<mapsto> example_bid\<lparr>quantity := 6\<rparr>)" h example_book bk])
      (simp_all add: example_book_def h_def bk_def q book_eval reduce_quantity_def i64_order_simps om)
  let ?st = "\<lparr>book_of = bk, memory_of = \<lparr>heap = h, clock = c\<rparr>, last_trade = Some t, logger_of = lg\<rparr>"
  have "match_step tid ?st = Inr None" by (simp add: match_step_def bk_def hasMatch_def)
  with s have "matchOrders tid example_state = Some (Inr (1, ?st))"
    by (simp add: matchOrders_def match_loop.simps [of tid 0] match_loop.simps [of tid 1])
  then show ?thesis
    by (intro exI [of _ 1] exI [of _ ?st] exI [of _ "\<lparr>orders = [10], total_quantity = 10, order_count = 1\<rparr>"])
      (simp add: bk_def h_def map_find_def getTotalQuantity_def getOrders_def)
qed

end
