(* ===== verification/SPSC_Concurrent.thy ===== *)
theory SPSC_Concurrent
  imports SPSC_Queue
begin

text \<open>
  \<open>push\<close> and \<open>pop\<close> of \<open>SPSCQueue.hpp\<close> split into their accesses to shared memory, so that a producer and
  a consumer thread can interleave. The two atomic positions are histories of the values stored to
  them. A load with \<open>memory_order_acquire\<close> may return any value of the history that is not older than
  what the thread has already seen; a thread's relaxed load of the position that only it stores
  returns the newest value. The plain array is shared memory, and the theorems show that it is never
  accessed by two threads at once. \<open>pushed\<close> and \<open>popped\<close> record the items of the calls that returned
  true. The threads are numbered; the sets say which of them push and which pop.
\<close>

datatype 'a push_state =
    Push_idle
  | Push_check 'a "64 word"
  | Push_write 'a "64 word"
  | Push_store 'a "64 word"

datatype 'a pop_state =
    Pop_idle
  | Pop_check "64 word"
  | Pop_read "64 word"
  | Pop_store 'a "64 word"

record 'a conc =
  writes :: "64 word list"
  reads :: "64 word list"
  cells :: "64 word \<Rightarrow> 'a"
  pushing :: "nat \<Rightarrow> 'a push_state"
  popping :: "nat \<Rightarrow> 'a pop_state"
  seen_reads :: "nat \<Rightarrow> nat"
  seen_writes :: "nat \<Rightarrow> nat"
  pushed :: "'a list"
  popped :: "'a list"

definition conc_new :: "(64 word \<Rightarrow> 'a) \<Rightarrow> 'a conc" where
  "conc_new b = \<lparr>writes = [0], reads = [0], cells = b, pushing = (\<lambda>_. Push_idle), popping = (\<lambda>_. Pop_idle),
     seen_reads = (\<lambda>_. 0), seen_writes = (\<lambda>_. 0), pushed = [], popped = []\<rparr>"

inductive conc_step :: "64 word \<Rightarrow> nat set \<Rightarrow> nat set \<Rightarrow> 'a conc \<Rightarrow> 'a conc \<Rightarrow> bool"
  for sz :: "64 word" and producers consumers :: "nat set" where
  push_begin: "t \<in> producers \<Longrightarrow> pushing s t = Push_idle \<Longrightarrow>
    conc_step sz producers consumers s (s\<lparr>pushing := (pushing s)(t := Push_check item (last (writes s)))\<rparr>)"
| push_full: "pushing s t = Push_check item cw \<Longrightarrow> seen_reads s t \<le> k \<Longrightarrow> k < length (reads s) \<Longrightarrow>
    next_pos sz cw = reads s ! k \<Longrightarrow>
    conc_step sz producers consumers s
      (s\<lparr>pushing := (pushing s)(t := Push_idle), seen_reads := (seen_reads s)(t := k)\<rparr>)"
| push_room: "pushing s t = Push_check item cw \<Longrightarrow> seen_reads s t \<le> k \<Longrightarrow> k < length (reads s) \<Longrightarrow>
    next_pos sz cw \<noteq> reads s ! k \<Longrightarrow>
    conc_step sz producers consumers s
      (s\<lparr>pushing := (pushing s)(t := Push_write item cw), seen_reads := (seen_reads s)(t := k)\<rparr>)"
| push_write: "pushing s t = Push_write item cw \<Longrightarrow>
    conc_step sz producers consumers s
      (s\<lparr>cells := (cells s)(cw := item), pushing := (pushing s)(t := Push_store item cw)\<rparr>)"
| push_store: "pushing s t = Push_store item cw \<Longrightarrow>
    conc_step sz producers consumers s
      (s\<lparr>writes := writes s @ [next_pos sz cw], pushing := (pushing s)(t := Push_idle),
         pushed := pushed s @ [item]\<rparr>)"
| pop_begin: "t \<in> consumers \<Longrightarrow> popping s t = Pop_idle \<Longrightarrow>
    conc_step sz producers consumers s (s\<lparr>popping := (popping s)(t := Pop_check (last (reads s)))\<rparr>)"
| pop_empty: "popping s t = Pop_check cr \<Longrightarrow> seen_writes s t \<le> k \<Longrightarrow> k < length (writes s) \<Longrightarrow>
    cr = writes s ! k \<Longrightarrow>
    conc_step sz producers consumers s
      (s\<lparr>popping := (popping s)(t := Pop_idle), seen_writes := (seen_writes s)(t := k)\<rparr>)"
| pop_some: "popping s t = Pop_check cr \<Longrightarrow> seen_writes s t \<le> k \<Longrightarrow> k < length (writes s) \<Longrightarrow>
    cr \<noteq> writes s ! k \<Longrightarrow>
    conc_step sz producers consumers s
      (s\<lparr>popping := (popping s)(t := Pop_read cr), seen_writes := (seen_writes s)(t := k)\<rparr>)"
| pop_read: "popping s t = Pop_read cr \<Longrightarrow>
    conc_step sz producers consumers s (s\<lparr>popping := (popping s)(t := Pop_store (cells s cr) cr)\<rparr>)"
| pop_store: "popping s t = Pop_store item cr \<Longrightarrow>
    conc_step sz producers consumers s
      (s\<lparr>reads := reads s @ [next_pos sz cr], popping := (popping s)(t := Pop_idle),
         popped := popped s @ [item]\<rparr>)"

inductive conc_reachable :: "64 word \<Rightarrow> nat set \<Rightarrow> nat set \<Rightarrow> (64 word \<Rightarrow> 'a) \<Rightarrow> 'a conc \<Rightarrow> bool"
  for sz :: "64 word" and producers consumers :: "nat set" and b :: "64 word \<Rightarrow> 'a" where
  conc_initial: "conc_reachable sz producers consumers b (conc_new b)"
| conc_next: "conc_reachable sz producers consumers b s \<Longrightarrow> conc_step sz producers consumers s s' \<Longrightarrow>
    conc_reachable sz producers consumers b s'"

section \<open>Positions as counters\<close>

definition slot :: "64 word \<Rightarrow> nat \<Rightarrow> 64 word" where
  "slot sz k = of_nat (k mod unat sz)"

lemma unat_slot: "valid_size sz \<Longrightarrow> unat (slot sz k) = k mod unat sz"
proof -
  assume "valid_size sz"
  then have "k mod unat sz < unat sz" using valid_size_gt [of sz] by simp
  moreover have "unat sz < 2 ^ 64" using unsigned_less [of sz, where 'a = nat] by simp
  ultimately have "k mod unat sz < 2 ^ 64" by (rule less_trans)
  then show ?thesis by (simp add: slot_def unat_of_nat)
qed

lemma slot_less: "valid_size sz \<Longrightarrow> slot sz k < sz"
  using valid_size_gt [of sz] by (simp add: word_less_nat_alt unat_slot)

lemma next_slot: "valid_size sz \<Longrightarrow> next_pos sz (slot sz k) = slot sz (Suc k)"
  by (simp add: word_unat_eq_iff unat_next_pos slot_less unat_slot mod_Suc_eq)

lemma slot_eq_iff:
  assumes "valid_size sz" and "j \<le> k" and "k < j + unat sz"
  shows "slot sz j = slot sz k \<longleftrightarrow> j = k"
proof
  assume "slot sz j = slot sz k"
  then have "j mod unat sz = k mod unat sz"
    using unat_slot [OF assms(1)] by (metis (no_types))
  then have "unat sz dvd k - j" using assms(2) mod_eq_dvd_iff_nat [of j k "unat sz"] by metis
  then show "j = k" using assms(2,3) dvd_imp_le [of "unat sz" "k - j"] by (cases "k - j = 0") auto
qed simp

section \<open>The invariant for one producer and one consumer\<close>

text \<open>
  With \<open>w\<close> completed pushes and \<open>r\<close> completed pops: the histories are the slots in order, the cells
  between hold the items not yet popped, and a thread past its check has a slot for itself.
\<close>

fun push_inv :: "64 word \<Rightarrow> nat \<Rightarrow> nat \<Rightarrow> (64 word \<Rightarrow> 'a) \<Rightarrow> 'a push_state \<Rightarrow> bool" where
  "push_inv sz w seen c Push_idle = True"
| "push_inv sz w seen c (Push_check item cw) = (cw = slot sz w)"
| "push_inv sz w seen c (Push_write item cw) = (cw = slot sz w \<and> Suc w < seen + unat sz)"
| "push_inv sz w seen c (Push_store item cw) = (cw = slot sz w \<and> Suc w < seen + unat sz \<and> c cw = item)"

fun pop_inv :: "64 word \<Rightarrow> nat \<Rightarrow> nat \<Rightarrow> 'a list \<Rightarrow> 'a pop_state \<Rightarrow> bool" where
  "pop_inv sz r seen xs Pop_idle = True"
| "pop_inv sz r seen xs (Pop_check cr) = (cr = slot sz r)"
| "pop_inv sz r seen xs (Pop_read cr) = (cr = slot sz r \<and> r < seen)"
| "pop_inv sz r seen xs (Pop_store item cr) = (cr = slot sz r \<and> r < seen \<and> item = xs ! r)"

definition history :: "64 word \<Rightarrow> nat \<Rightarrow> 64 word list" where
  "history sz n = map (slot sz) [0..<Suc n]"

definition conc_inv :: "64 word \<Rightarrow> 'a conc \<Rightarrow> bool" where
  "conc_inv sz s \<longleftrightarrow>
     writes s = history sz (length (pushed s)) \<and> reads s = history sz (length (popped s)) \<and>
     popped s = take (length (popped s)) (pushed s) \<and>
     length (popped s) \<le> seen_writes s 0 \<and> seen_writes s 0 \<le> length (pushed s) \<and>
     seen_reads s 0 \<le> length (popped s) \<and> length (pushed s) < seen_reads s 0 + unat sz \<and>
     (\<forall>k. length (popped s) \<le> k \<and> k < length (pushed s) \<longrightarrow> cells s (slot sz k) = pushed s ! k) \<and>
     push_inv sz (length (pushed s)) (seen_reads s 0) (cells s) (pushing s 0) \<and>
     pop_inv sz (length (popped s)) (seen_writes s 0) (pushed s) (popping s 0) \<and>
     (\<forall>t. t \<noteq> 0 \<longrightarrow> pushing s t = Push_idle \<and> popping s t = Pop_idle)"

lemma conc_invD:
  assumes "conc_inv sz s"
  shows "writes s = history sz (length (pushed s))" and "reads s = history sz (length (popped s))"
    and "popped s = take (length (popped s)) (pushed s)"
    and "length (popped s) \<le> seen_writes s 0" and "seen_writes s 0 \<le> length (pushed s)"
    and "seen_reads s 0 \<le> length (popped s)" and "length (pushed s) < seen_reads s 0 + unat sz"
    and "\<And>k. length (popped s) \<le> k \<Longrightarrow> k < length (pushed s) \<Longrightarrow> cells s (slot sz k) = pushed s ! k"
    and "push_inv sz (length (pushed s)) (seen_reads s 0) (cells s) (pushing s 0)"
    and "pop_inv sz (length (popped s)) (seen_writes s 0) (pushed s) (popping s 0)"
    and "t \<noteq> 0 \<Longrightarrow> pushing s t = Push_idle" and "t \<noteq> 0 \<Longrightarrow> popping s t = Pop_idle"
  using assms unfolding conc_inv_def by blast+

lemma conc_inv_thread:
  assumes "conc_inv sz s"
  shows "pushing s t \<noteq> Push_idle \<Longrightarrow> t = 0" and "popping s t \<noteq> Pop_idle \<Longrightarrow> t = 0"
  using conc_invD(11,12) [OF assms] by blast+

lemma history_simps [simp]:
  "length (history sz n) = Suc n" "last (history sz n) = slot sz n"
  "history sz n @ [slot sz (Suc n)] = history sz (Suc n)" "history sz 0 = [0]"
  by (simp_all add: history_def slot_def)

lemma nth_history: "k \<le> n \<Longrightarrow> history sz n ! k = slot sz k"
  by (simp add: history_def nth_append less_Suc_eq_le del: upt_Suc)

lemma conc_inv_new: "valid_size sz \<Longrightarrow> conc_inv sz (conc_new b)"
  using valid_size_gt [of sz] by (simp add: conc_inv_def conc_new_def)

lemma conc_inv_push_begin:
  assumes "conc_inv sz s"
  shows "conc_inv sz (s\<lparr>pushing := (pushing s)(0 := Push_check item (last (writes s)))\<rparr>)"
  using assms conc_invD(1) [OF assms] by (simp add: conc_inv_def)

lemma conc_inv_push_check:
  assumes v: "valid_size sz" and inv: "conc_inv sz s" and pc: "pushing s 0 = Push_check item cw"
    and k: "seen_reads s 0 \<le> k" "k < length (reads s)"
  shows "conc_inv sz (s\<lparr>pushing := (pushing s)(0 := Push_idle), seen_reads := (seen_reads s)(0 := k)\<rparr>)"
    and "next_pos sz cw \<noteq> reads s ! k \<Longrightarrow>
      conc_inv sz (s\<lparr>pushing := (pushing s)(0 := Push_write item cw), seen_reads := (seen_reads s)(0 := k)\<rparr>)"
proof -
  note D = conc_invD [OF inv]
  let ?w = "length (pushed s)" and ?r = "length (popped s)"
  have cw: "cw = slot sz ?w" using D(9) pc by simp
  have kr: "k \<le> ?r" using k(2) D(2) by simp
  have rk: "reads s ! k = slot sz k" using nth_history [OF kr] D(2) by simp
  have b: "?w < k + unat sz" using D(7) k(1) by linarith
  show "conc_inv sz (s\<lparr>pushing := (pushing s)(0 := Push_idle), seen_reads := (seen_reads s)(0 := k)\<rparr>)"
    using inv kr b by (simp add: conc_inv_def)
  assume "next_pos sz cw \<noteq> reads s ! k"
  then have ne: "slot sz (Suc ?w) \<noteq> slot sz k" using next_slot [OF v] cw rk by simp
  have "Suc ?w \<noteq> k + unat sz" using ne by (auto simp: slot_def)
  then have "Suc ?w < k + unat sz" using b by linarith
  then show "conc_inv sz (s\<lparr>pushing := (pushing s)(0 := Push_write item cw), seen_reads := (seen_reads s)(0 := k)\<rparr>)"
    using inv kr b cw by (simp add: conc_inv_def)
qed

lemma conc_inv_push_write:
  assumes v: "valid_size sz" and inv: "conc_inv sz s" and pc: "pushing s 0 = Push_write item cw"
  shows "conc_inv sz (s\<lparr>cells := (cells s)(cw := item), pushing := (pushing s)(0 := Push_store item cw)\<rparr>)"
proof -
  note D = conc_invD [OF inv]
  let ?w = "length (pushed s)" and ?r = "length (popped s)"
  have cw: "cw = slot sz ?w" "Suc ?w < seen_reads s 0 + unat sz" using D(9) pc by simp_all
  have "slot sz k \<noteq> cw" if "?r \<le> k" "k < ?w" for k
    using slot_eq_iff [OF v, of k ?w] that cw D(6) by auto
  with inv cw show ?thesis by (simp add: conc_inv_def)
qed

lemma conc_inv_push_store:
  assumes v: "valid_size sz" and inv: "conc_inv sz s" and pc: "pushing s 0 = Push_store item cw"
  shows "conc_inv sz (s\<lparr>writes := writes s @ [next_pos sz cw], pushing := (pushing s)(0 := Push_idle),
     pushed := pushed s @ [item]\<rparr>)"
proof -
  note D = conc_invD [OF inv]
  let ?w = "length (pushed s)" and ?r = "length (popped s)"
  have cw: "cw = slot sz ?w" "Suc ?w < seen_reads s 0 + unat sz" "cells s cw = item"
    using D(9) unfolding pc push_inv.simps by blast+
  have h: "writes s @ [next_pos sz cw] = history sz (Suc ?w)"
    using D(1) next_slot [OF v] cw(1) by simp
  have c: "\<forall>k. ?r \<le> k \<and> k < Suc ?w \<longrightarrow> cells s (slot sz k) = (pushed s @ [item]) ! k"
    using D(8) cw(1,3) by (auto simp: nth_append less_Suc_eq)
  have le: "?r \<le> ?w" using D(4,5) by linarith
  have p: "pop_inv sz ?r (seen_writes s 0) (pushed s @ [item]) (popping s 0)"
    using D(5,10) by (cases "popping s 0") (auto simp: nth_append)
  show ?thesis
    using inv cw(2) h c le p D(5) by (simp add: conc_inv_def)
qed

lemma conc_inv_pop_begin:
  assumes "conc_inv sz s"
  shows "conc_inv sz (s\<lparr>popping := (popping s)(0 := Pop_check (last (reads s)))\<rparr>)"
  using assms conc_invD(2) [OF assms] by (simp add: conc_inv_def)

lemma conc_inv_pop_check:
  assumes inv: "conc_inv sz s" and pc: "popping s 0 = Pop_check cr"
    and k: "seen_writes s 0 \<le> k" "k < length (writes s)"
  shows "conc_inv sz (s\<lparr>popping := (popping s)(0 := Pop_idle), seen_writes := (seen_writes s)(0 := k)\<rparr>)"
    and "cr \<noteq> writes s ! k \<Longrightarrow>
      conc_inv sz (s\<lparr>popping := (popping s)(0 := Pop_read cr), seen_writes := (seen_writes s)(0 := k)\<rparr>)"
proof -
  note D = conc_invD [OF inv]
  let ?w = "length (pushed s)" and ?r = "length (popped s)"
  have cr: "cr = slot sz ?r" using D(10) pc by simp
  have kw: "k \<le> ?w" "?r \<le> k" using k D(1,4) by simp_all
  have wk: "writes s ! k = slot sz k" using nth_history [OF kw(1)] D(1) by simp
  show "conc_inv sz (s\<lparr>popping := (popping s)(0 := Pop_idle), seen_writes := (seen_writes s)(0 := k)\<rparr>)"
    using inv kw by (simp add: conc_inv_def)
  assume "cr \<noteq> writes s ! k"
  then have "?r \<noteq> k" using cr wk by auto
  with kw(2) have "?r < k" by simp
  then show "conc_inv sz (s\<lparr>popping := (popping s)(0 := Pop_read cr), seen_writes := (seen_writes s)(0 := k)\<rparr>)"
    using inv kw cr by (simp add: conc_inv_def)
qed

lemma conc_inv_pop_read:
  assumes inv: "conc_inv sz s" and pc: "popping s 0 = Pop_read cr"
  shows "conc_inv sz (s\<lparr>popping := (popping s)(0 := Pop_store (cells s cr) cr)\<rparr>)"
proof -
  note D = conc_invD [OF inv]
  have cr: "cr = slot sz (length (popped s))" "length (popped s) < seen_writes s 0" using D(10) pc by simp_all
  then have "cells s cr = pushed s ! length (popped s)" using D(5,8) by simp
  with inv cr show ?thesis by (simp add: conc_inv_def)
qed

lemma conc_inv_pop_store:
  assumes v: "valid_size sz" and inv: "conc_inv sz s" and pc: "popping s 0 = Pop_store item cr"
  shows "conc_inv sz (s\<lparr>reads := reads s @ [next_pos sz cr], popping := (popping s)(0 := Pop_idle),
     popped := popped s @ [item]\<rparr>)"
proof -
  note D = conc_invD [OF inv]
  let ?r = "length (popped s)"
  have cr: "cr = slot sz ?r" "?r < seen_writes s 0" "item = pushed s ! ?r" using D(10) pc by simp_all
  have h: "reads s @ [next_pos sz cr] = history sz (Suc ?r)"
    using D(2) next_slot [OF v] cr(1) by simp
  have "take (Suc ?r) (pushed s) = take ?r (pushed s) @ [item]"
    using D(5) cr(2,3) by (simp add: take_Suc_conv_app_nth)
  then have t: "take (Suc ?r) (pushed s) = popped s @ [item]" using D(3) by simp
  have "Suc ?r \<le> seen_writes s 0" "seen_reads s 0 \<le> Suc ?r" using cr(2) D(6) by simp_all
  then show ?thesis using inv h t by (simp add: conc_inv_def)
qed

lemma conc_inv_step:
  assumes "conc_step sz {0} {0} s s'" and v: "valid_size sz" and inv: "conc_inv sz s"
  shows "conc_inv sz s'"
  using assms(1)
proof (cases rule: conc_step.cases)
  case (push_begin t item)
  then show ?thesis using conc_inv_push_begin [OF inv] by simp
next
  case (push_full t item cw k)
  then have "t = 0" using conc_inv_thread(1) [OF inv, of t] by simp
  with push_full show ?thesis using conc_inv_push_check(1) [OF v inv] by simp
next
  case (push_room t item cw k)
  then have "t = 0" using conc_inv_thread(1) [OF inv, of t] by simp
  with push_room show ?thesis using conc_inv_push_check(2) [OF v inv] by simp
next
  case (push_write t item cw)
  then have "t = 0" using conc_inv_thread(1) [OF inv, of t] by simp
  with push_write show ?thesis using conc_inv_push_write [OF v inv] by simp
next
  case (push_store t item cw)
  then have "t = 0" using conc_inv_thread(1) [OF inv, of t] by simp
  with push_store show ?thesis using conc_inv_push_store [OF v inv] by simp
next
  case (pop_begin t)
  then show ?thesis using conc_inv_pop_begin [OF inv] by simp
next
  case (pop_empty t cr k)
  then have "t = 0" using conc_inv_thread(2) [OF inv, of t] by simp
  with pop_empty show ?thesis using conc_inv_pop_check(1) [OF inv] by simp
next
  case (pop_some t cr k)
  then have "t = 0" using conc_inv_thread(2) [OF inv, of t] by simp
  with pop_some show ?thesis using conc_inv_pop_check(2) [OF inv] by simp
next
  case (pop_read t cr)
  then have "t = 0" using conc_inv_thread(2) [OF inv, of t] by simp
  with pop_read show ?thesis using conc_inv_pop_read [OF inv] by simp
next
  case (pop_store t item cr)
  then have "t = 0" using conc_inv_thread(2) [OF inv, of t] by simp
  with pop_store show ?thesis using conc_inv_pop_store [OF v inv] by simp
qed

lemma conc_reachable_inv:
  assumes "conc_reachable sz {0} {0} b s" and "valid_size sz"
  shows "conc_inv sz s"
  using assms by induction (auto intro: conc_inv_new conc_inv_step)

section \<open>What the queue promises to one producer and one consumer\<close>

lemma valid_size_4: "valid_size 4" and next_pos_4: "next_pos 4 0 = 1" "next_pos 4 1 = 2"
  by (simp_all add: valid_size_def next_pos_def)

text \<open>C11: With one producing and one consuming thread, however their accesses interleave and however old
  the values that the acquire loads return: the items popped are the first of the items pushed, in
  their order, none lost, duplicated or torn; at most \<open>Size - 1\<close> items are in between; and the array
  is free of races: before the producer writes a cell it has seen the store that released it, before
  the consumer reads a cell it has seen the store that published it, and they are never at the same
  cell.\<close>

theorem spsc_concurrent_fifo:
  assumes "valid_size sz" and "conc_reachable sz {0} {0} b s"
  shows "popped s = take (length (popped s)) (pushed s) \<and>
    length (popped s) \<le> length (pushed s) \<and> length (pushed s) - length (popped s) \<le> unat sz - 1 \<and>
    (\<forall>item cw k. pushing s 0 = Push_write item cw \<and> k < length (pushed s) \<and> slot sz k = cw \<longrightarrow> k < seen_reads s 0) \<and>
    (\<forall>cr. popping s 0 = Pop_read cr \<longrightarrow>
       cr = slot sz (length (popped s)) \<and> length (popped s) < seen_writes s 0 \<and>
       cells s cr = pushed s ! length (popped s)) \<and>
    (\<forall>item cw cr. pushing s 0 = Push_write item cw \<and> popping s 0 = Pop_read cr \<longrightarrow> cw \<noteq> cr)"
proof -
  have inv: "conc_inv sz s" using conc_reachable_inv [OF assms(2,1)] .
  note D = conc_invD [OF inv]
  let ?w = "length (pushed s)" and ?r = "length (popped s)"
  have order: "?r \<le> ?w" "?w - ?r \<le> unat sz - 1" using D(4-7) by linarith+
  have released: "k < seen_reads s 0" if "pushing s 0 = Push_write item cw" "k < ?w" "slot sz k = cw" for item cw k
  proof (rule ccontr)
    assume "\<not> ?thesis"
    moreover have "cw = slot sz ?w" "Suc ?w < seen_reads s 0 + unat sz" using D(9) that(1) by simp_all
    ultimately show False using slot_eq_iff [OF assms(1), of k ?w] that by auto
  qed
  have published: "cr = slot sz ?r" "?r < seen_writes s 0" "cells s cr = pushed s ! ?r"
    if "popping s 0 = Pop_read cr" for cr
    using D(5,8,10) that by simp_all
  have "cw \<noteq> cr" if "pushing s 0 = Push_write item cw" "popping s 0 = Pop_read cr" for item cw cr
    using released [OF that(1), of ?r] published [OF that(2)] D(5,6) by auto
  with order released published D(3) show ?thesis by blast
qed

lemma conc_step_then:
  "conc_reachable sz P C b s \<Longrightarrow> conc_step sz P C s s' \<Longrightarrow> s' = s'' \<Longrightarrow> conc_reachable sz P C b s''"
  using conc_next by blast

lemma one_push_reachable:
  "conc_reachable 4 {0} {0} b
     ((conc_new b)\<lparr>writes := [0, 1], cells := b(0 := x), pushed := [x]\<rparr>)"
proof -
  have "conc_reachable 4 {0} {0} b ((conc_new b)\<lparr>pushing := (\<lambda>_. Push_idle)(0 := Push_check x 0)\<rparr>)"
    by (rule conc_step_then [OF conc_initial conc_step.push_begin [where t = 0 and item = x]])
      (simp_all add: conc_new_def)
  then have "conc_reachable 4 {0} {0} b ((conc_new b)\<lparr>pushing := (\<lambda>_. Push_idle)(0 := Push_write x 0)\<rparr>)"
    by (rule conc_step_then [OF _ conc_step.push_room [where t = 0 and item = x and cw = 0 and k = 0]])
      (simp_all add: conc_new_def next_pos_4 fun_upd_idem)
  then have "conc_reachable 4 {0} {0} b
      ((conc_new b)\<lparr>cells := b(0 := x), pushing := (\<lambda>_. Push_idle)(0 := Push_store x 0)\<rparr>)"
    by (rule conc_step_then [OF _ conc_step.push_write [where t = 0 and item = x and cw = 0]])
      (simp_all add: conc_new_def)
  then show ?thesis
    by (rule conc_step_then [OF _ conc_step.push_store [where t = 0 and item = x and cw = 0]])
      (simp_all add: conc_new_def next_pos_4 fun_upd_idem)
qed

theorem spsc_concurrent_fifo_witness:
  "\<exists>s. conc_reachable 4 {0} {0} (\<lambda>_. CHR ''-'') s \<and> pushed s = ''x'' \<and>
     popped s = take (length (popped s)) (pushed s)"
  using spsc_concurrent_fifo [OF valid_size_4 one_push_reachable [of "\<lambda>_. CHR ''-''" "CHR ''x''"]]
    one_push_reachable [of "\<lambda>_. CHR ''-''" "CHR ''x''"]
  by (intro exI [of _ "(conc_new (\<lambda>_. CHR ''-''))\<lparr>writes := [0, 1], cells := (\<lambda>_. CHR ''-'')(0 := CHR ''x''),
        pushed := ''x''\<rparr>"]) simp

section \<open>More than one producer or consumer\<close>

text \<open>The restriction to one producer is needed: two threads that push at the same time can both be
  told that their push succeeded while one item overwrites the other and is lost. Here both pushes
  have returned true, one pop has returned the second item, and the queue is empty.\<close>

theorem two_producers_lose_an_item:
  "\<exists>s. conc_reachable 4 {0, 1} {0} b s \<and> pushed s = [x, y] \<and> popped s = [y] \<and>
     last (writes s) = last (reads s) \<and> (\<forall>t. pushing s t = Push_idle \<and> popping s t = Pop_idle)"
proof -
  let ?i = "\<lambda>_ :: nat. Push_idle" and ?n = "conc_new b" and ?R = "conc_reachable 4 {0, 1} {0} b"
  have "?R (?n\<lparr>pushing := ?i(0 := Push_check x 0)\<rparr>)"
    by (rule conc_step_then [OF conc_initial conc_step.push_begin [where t = 0 and item = x]])
      (simp_all add: conc_new_def)
  then have "?R (?n\<lparr>pushing := ?i(0 := Push_check x 0, 1 := Push_check y 0)\<rparr>)"
    by (rule conc_step_then [OF _ conc_step.push_begin [where t = 1 and item = y]])
      (simp_all add: conc_new_def)
  then have "?R (?n\<lparr>pushing := ?i(0 := Push_write x 0, 1 := Push_check y 0)\<rparr>)"
    by (rule conc_step_then [OF _ conc_step.push_room [where t = 0 and item = x and cw = 0 and k = 0]])
      (simp_all add: conc_new_def next_pos_4 fun_upd_idem fun_upd_twist)
  then have "?R (?n\<lparr>pushing := ?i(0 := Push_write x 0, 1 := Push_write y 0)\<rparr>)"
    by (rule conc_step_then [OF _ conc_step.push_room [where t = 1 and item = y and cw = 0 and k = 0]])
      (simp_all add: conc_new_def next_pos_4 fun_upd_idem)
  then have "?R (?n\<lparr>cells := b(0 := x), pushing := ?i(0 := Push_store x 0, 1 := Push_write y 0)\<rparr>)"
    by (rule conc_step_then [OF _ conc_step.push_write [where t = 0 and item = x and cw = 0]])
      (simp_all add: conc_new_def fun_upd_twist)
  then have "?R (?n\<lparr>cells := b(0 := y), pushing := ?i(0 := Push_store x 0, 1 := Push_store y 0)\<rparr>)"
    by (rule conc_step_then [OF _ conc_step.push_write [where t = 1 and item = y and cw = 0]])
      (simp_all add: conc_new_def)
  then have "?R (?n\<lparr>cells := b(0 := y), pushing := ?i(1 := Push_store y 0), writes := [0, 1], pushed := [x]\<rparr>)"
    by (rule conc_step_then [OF _ conc_step.push_store [where t = 0 and item = x and cw = 0]])
      (simp_all add: conc_new_def next_pos_4 fun_eq_iff)
  then have "?R (?n\<lparr>cells := b(0 := y), writes := [0, 1, 1], pushed := [x, y]\<rparr>)"
    by (rule conc_step_then [OF _ conc_step.push_store [where t = 1 and item = y and cw = 0]])
      (simp_all add: conc_new_def next_pos_4 fun_eq_iff)
  then have "?R (?n\<lparr>cells := b(0 := y), writes := [0, 1, 1], pushed := [x, y],
      popping := (\<lambda>_. Pop_idle)(0 := Pop_check 0)\<rparr>)"
    by (rule conc_step_then [OF _ conc_step.pop_begin [where t = 0]])
      (simp_all add: conc_new_def)
  then have "?R (?n\<lparr>cells := b(0 := y), writes := [0, 1, 1], pushed := [x, y],
      popping := (\<lambda>_. Pop_idle)(0 := Pop_read 0), seen_writes := (\<lambda>_. 0)(0 := 2)\<rparr>)"
    by (rule conc_step_then [OF _ conc_step.pop_some [where t = 0 and cr = 0 and k = 2]])
      (simp_all add: conc_new_def)
  then have "?R (?n\<lparr>cells := b(0 := y), writes := [0, 1, 1], pushed := [x, y],
      popping := (\<lambda>_. Pop_idle)(0 := Pop_store y 0), seen_writes := (\<lambda>_. 0)(0 := 2)\<rparr>)"
    by (rule conc_step_then [OF _ conc_step.pop_read [where t = 0 and cr = 0]])
      (simp_all add: conc_new_def)
  then have "?R (?n\<lparr>cells := b(0 := y), writes := [0, 1, 1], pushed := [x, y], seen_writes := (\<lambda>_. 0)(0 := 2),
      reads := [0, 1], popped := [y]\<rparr>)"
    by (rule conc_step_then [OF _ conc_step.pop_store [where t = 0 and item = y and cr = 0]])
      (simp_all add: conc_new_def next_pos_4 fun_eq_iff)
  then show ?thesis by - (rule exI, rule conjI, assumption, simp add: conc_new_def)
qed

text \<open>The restriction to one consumer is needed too: two threads that pop at the same time can both get
  the same item, pushed once.\<close>

theorem two_consumers_duplicate_an_item:
  "\<exists>s. conc_reachable 4 {0} {0, 1} b s \<and> pushed s = [x] \<and> popped s = [x, x]"
proof -
  let ?i = "\<lambda>_ :: nat. Pop_idle" and ?R = "conc_reachable 4 {0} {0, 1} b"
  have mono: "?R s" if "conc_reachable 4 {0} {0} b s" for s
    using that
  proof induction
    case (conc_next s s')
    from conc_next(2) have "conc_step 4 {0} {0, 1} s s'"
      by (cases rule: conc_step.cases) (auto intro: conc_step.intros)
    with conc_next(3) show ?case by (rule conc_reachable.conc_next)
  qed (rule conc_initial)
  define s1 where "s1 = (conc_new b)\<lparr>writes := [0, 1], cells := b(0 := x), pushed := [x]\<rparr>"
  note s1 = s1_def conc_new_def
  have "?R s1" unfolding s1_def by (rule mono) (rule one_push_reachable)
  then have "?R (s1\<lparr>popping := ?i(0 := Pop_check 0)\<rparr>)"
    by (rule conc_step_then [OF _ conc_step.pop_begin [where t = 0]]) (simp_all add: s1)
  then have "?R (s1\<lparr>popping := ?i(0 := Pop_check 0, 1 := Pop_check 0)\<rparr>)"
    by (rule conc_step_then [OF _ conc_step.pop_begin [where t = 1]]) (simp_all add: s1)
  then have "?R (s1\<lparr>popping := ?i(0 := Pop_read 0, 1 := Pop_check 0), seen_writes := (\<lambda>_. 0)(0 := 1)\<rparr>)"
    by (rule conc_step_then [OF _ conc_step.pop_some [where t = 0 and cr = 0 and k = 1]])
      (simp_all add: s1 fun_upd_twist)
  then have "?R (s1\<lparr>popping := ?i(0 := Pop_read 0, 1 := Pop_read 0), seen_writes := (\<lambda>_. 0)(0 := 1, 1 := 1)\<rparr>)"
    by (rule conc_step_then [OF _ conc_step.pop_some [where t = 1 and cr = 0 and k = 1]]) (simp_all add: s1)
  then have "?R (s1\<lparr>popping := ?i(0 := Pop_store x 0, 1 := Pop_read 0), seen_writes := (\<lambda>_. 0)(0 := 1, 1 := 1)\<rparr>)"
    by (rule conc_step_then [OF _ conc_step.pop_read [where t = 0 and cr = 0]])
      (simp_all add: s1 fun_upd_twist)
  then have "?R (s1\<lparr>popping := ?i(0 := Pop_store x 0, 1 := Pop_store x 0), seen_writes := (\<lambda>_. 0)(0 := 1, 1 := 1)\<rparr>)"
    by (rule conc_step_then [OF _ conc_step.pop_read [where t = 1 and cr = 0]]) (simp_all add: s1)
  then have "?R (s1\<lparr>popping := ?i(1 := Pop_store x 0), seen_writes := (\<lambda>_. 0)(0 := 1, 1 := 1),
      reads := [0, 1], popped := [x]\<rparr>)"
    by (rule conc_step_then [OF _ conc_step.pop_store [where t = 0 and item = x and cr = 0]])
      (simp_all add: s1 next_pos_4 fun_eq_iff)
  then have "?R (s1\<lparr>seen_writes := (\<lambda>_. 0)(0 := 1, 1 := 1), reads := [0, 1, 1], popped := [x, x]\<rparr>)"
    by (rule conc_step_then [OF _ conc_step.pop_store [where t = 1 and item = x and cr = 0]])
      (simp_all add: s1 next_pos_4 fun_eq_iff)
  then show ?thesis by - (rule exI, rule conjI, assumption, simp add: s1)
qed

end
