(* ===== verification/Logger_Session.thy ===== *)
theory Logger_Session
  imports Async_Logger
begin

text \<open>
  Runs of the logger: the calls of one logging thread interleaved with turns of the background thread,
  and the final \<open>stop\<close>. The theorems say what reaches the output.
\<close>

datatype log_event =
    Log_call log_level string "32 word"
  | Logf_call log_level string "32 word"
  | Set_level log_level
  | Worker_turn

fun logger_run ::
  "(i64 \<Rightarrow> tm) \<Rightarrow> log_event list \<Rightarrow> clocks \<Rightarrow> i64 \<Rightarrow> async_logger \<Rightarrow> (clocks \<times> i64 \<times> async_logger) res"
where
  "logger_run lt [] c lf lg = Inr (c, lf, lg)"
| "logger_run lt (Log_call lvl msg tid # es) c lf lg =
     andThen (log_msg lvl msg tid c lg) (\<lambda>(c', lg'). logger_run lt es c' lf lg')"
| "logger_run lt (Logf_call lvl expansion tid # es) c lf lg =
     andThen (logf lvl expansion tid c lg) (\<lambda>(c', lg'). logger_run lt es c' lf lg')"
| "logger_run lt (Set_level lvl # es) c lf lg = logger_run lt es c lf (setLevel lvl lg)"
| "logger_run lt (Worker_turn # es) c lf lg =
     andThen (worker_turn lt c lf lg) (\<lambda>(c', lf', lg'). logger_run lt es c' lf' lg')"

text \<open>What a run asks to be logged, after the level filter and the cut to 255 characters.\<close>

fun requested :: "log_level \<Rightarrow> log_event list \<Rightarrow> string list" where
  "requested lvl [] = []"
| "requested lvl (Log_call l msg tid # es) = (if l < lvl then [] else [take 255 (c_str msg)]) @ requested lvl es"
| "requested lvl (Logf_call l msg tid # es) =
     (if l < lvl then [] else [take 255 (c_str (take 255 msg))]) @ requested lvl es"
| "requested lvl (Set_level l # es) = requested l es"
| "requested lvl (Worker_turn # es) = requested lvl es"

lemma logf_is_log: "logf lvl expansion tid c lg = log_msg lvl (snprintf 256 expansion) tid c lg"
  by (simp add: logf_def log_msg_def)

lemma lines_append [simp]: "lines lt (xs @ ys) = lines lt xs @ lines lt ys" "lines lt [] = []"
  by (simp_all add: lines_def)

section \<open>Runs\<close>

text \<open>
  \<open>delivers lg ms es lg'\<close>: from \<open>lg\<close> a run of \<open>es\<close> has led to \<open>lg'\<close>, the messages \<open>ms\<close> have been accepted, and
  what is written and what is pending together is what was before followed by \<open>ms\<close>.
\<close>

definition delivers ::
  "(i64 \<Rightarrow> tm) \<Rightarrow> async_logger \<Rightarrow> log_message list \<Rightarrow> log_event list \<Rightarrow> async_logger \<Rightarrow> bool" where
  "delivers lt lg ms es lg' \<longleftrightarrow>
     logger_wf lg' \<and> running lg' = running lg \<and> log_thread lg' = log_thread lg \<and>
     emit lt (pending lg') (sink lg') = emit lt (pending lg @ ms) (sink lg) \<and>
     length (pending lg') \<le> length (pending lg) + length es \<and>
     (running lg \<and> length (pending lg) + length es \<le> 65535 \<longrightarrow> map message ms = requested (min_level lg) es)"

lemma log_call_delivers:
  assumes "logger_wf lg" and "clocks_ok c"
  obtains c' lg' ms where "log_msg lvl msg tid c lg = Inr (c', lg')" and "clocks_ok c'" and "logger_wf lg'"
    and "pending lg' = pending lg @ ms" and "sink lg' = sink lg" and "running lg' = running lg"
    and "log_thread lg' = log_thread lg" and "min_level lg' = min_level lg" and "length ms \<le> 1"
    and "running lg \<Longrightarrow> length (pending lg) < 65535 \<Longrightarrow>
      map message ms = (if lvl < min_level lg then [] else [take 255 (c_str msg)])"
proof -
  obtain c' lg' where e: "log_msg lvl msg tid c lg = Inr (c', lg')" "clocks_ok c'" "logger_wf lg'"
    "pending lg' = pending lg @ (case accepted lvl msg tid c lg of None \<Rightarrow> [] | Some m \<Rightarrow> [m])"
    "sink lg' = sink lg" "running lg' = running lg" "log_thread lg' = log_thread lg"
    "min_level lg' = min_level lg"
    using assms by (rule log_msg_effect)
  have "spsc_count QUEUE_SIZE (queue lg) = length (pending lg)" by (simp add: pending_def)
  then have "map message (case accepted lvl msg tid c lg of None \<Rightarrow> [] | Some m \<Rightarrow> [m]) =
      (if lvl < min_level lg then [] else [take 255 (c_str msg)])"
    if "running lg" "length (pending lg) < 65535"
    using that by (auto simp: accepted_def QUEUE_SIZE_def not_less)
  with e show thesis by (intro that [OF e(1-8)]) (simp_all split: option.split)
qed

lemma logger_run_delivers:
  assumes "logger_wf lg" and "clocks_ok c" and "0 \<le> ival lf"
  shows "\<exists>c' lf' lg' ms. logger_run lt es c lf lg = Inr (c', lf', lg') \<and> clocks_ok c' \<and> 0 \<le> ival lf' \<and>
    delivers lt lg ms es lg'"
  using assms
proof (induction lt es c lf lg rule: logger_run.induct)
  case (1 lt c lf lg)
  then show ?case by (auto simp: delivers_def intro!: exI [of _ "[]"])
next
  case (2 lt lvl msg tid es c lf lg)
  obtain c1 lg1 ms1 where s: "log_msg lvl msg tid c lg = Inr (c1, lg1)" "clocks_ok c1" "logger_wf lg1"
    "pending lg1 = pending lg @ ms1" "sink lg1 = sink lg" "running lg1 = running lg"
    "log_thread lg1 = log_thread lg" "min_level lg1 = min_level lg" "length ms1 \<le> 1"
    "running lg \<Longrightarrow> length (pending lg) < 65535 \<Longrightarrow>
      map message ms1 = (if lvl < min_level lg then [] else [take 255 (c_str msg)])"
    using "2.prems"(1,2) by (rule log_call_delivers) blast
  obtain c' lf' lg' ms where r: "logger_run lt es c1 lf lg1 = Inr (c', lf', lg')" "clocks_ok c'" "0 \<le> ival lf'"
    "delivers lt lg1 ms es lg'"
    using "2.IH" [OF s(3,2) "2.prems"(3)] by blast
  have "delivers lt lg (ms1 @ ms) (Log_call lvl msg tid # es) lg'"
    using r(4) s by (auto simp: delivers_def)
  with s(1) r(1-3) show ?case by auto
next
  case (3 lt lvl msg tid es c lf lg)
  obtain c1 lg1 ms1 where s: "log_msg lvl (snprintf 256 msg) tid c lg = Inr (c1, lg1)" "clocks_ok c1" "logger_wf lg1"
    "pending lg1 = pending lg @ ms1" "sink lg1 = sink lg" "running lg1 = running lg"
    "log_thread lg1 = log_thread lg" "min_level lg1 = min_level lg" "length ms1 \<le> 1"
    "running lg \<Longrightarrow> length (pending lg) < 65535 \<Longrightarrow>
      map message ms1 = (if lvl < min_level lg then [] else [take 255 (c_str (snprintf 256 msg))])"
    using "3.prems"(1,2) by (rule log_call_delivers) blast
  obtain c' lf' lg' ms where r: "logger_run lt es c1 lf lg1 = Inr (c', lf', lg')" "clocks_ok c'" "0 \<le> ival lf'"
    "delivers lt lg1 ms es lg'"
    using "3.IH" [OF s(3,2) "3.prems"(3)] by blast
  have "delivers lt lg (ms1 @ ms) (Logf_call lvl msg tid # es) lg'"
    using r(4) s by (auto simp: delivers_def snprintf_def)
  with s(1) r(1-3) show ?case by (auto simp: logf_is_log)
next
  case (4 lt lvl es c lf lg)
  have "logger_wf (setLevel lvl lg)" using "4.prems"(1) by (simp add: logger_wf_def setLevel_def)
  then obtain c' lf' lg' ms where r: "logger_run lt es c lf (setLevel lvl lg) = Inr (c', lf', lg')" "clocks_ok c'"
    "0 \<le> ival lf'" "delivers lt (setLevel lvl lg) ms es lg'"
    using "4.IH" "4.prems"(2,3) by blast
  then have "delivers lt lg ms (Set_level lvl # es) lg'"
    by (auto simp: delivers_def setLevel_def pending_def)
  with r(1-3) show ?case by auto
next
  case (5 lt es c lf lg)
  obtain c1 lf1 lg1 where s: "worker_turn lt c lf lg = Inr (c1, lf1, lg1)" "clocks_ok c1" "0 \<le> ival lf1"
    "logger_wf lg1" "pending lg1 = drop 1 (pending lg)" "sink lg1 = emit lt (take 1 (pending lg)) (sink lg)"
    "running lg1 = running lg" "log_thread lg1 = log_thread lg" "min_level lg1 = min_level lg"
    using "5.prems" by (rule worker_turn_effect)
  obtain c' lf' lg' ms where r: "logger_run lt es c1 lf1 lg1 = Inr (c', lf', lg')" "clocks_ok c'" "0 \<le> ival lf'"
    "delivers lt lg1 ms es lg'"
    using "5.IH" s(2-4) by blast
  have "emit lt (pending lg1 @ ms) (sink lg1) = emit lt (pending lg @ ms) (sink lg)"
    unfolding s(5,6) by (metis append_take_drop_id emit_simps(3))
  then have "delivers lt lg ms (Worker_turn # es) lg'"
    using r(4) s by (auto simp: delivers_def)
  with s(1) r(1-3) show ?case by auto
qed

section \<open>What reaches the output\<close>

definition test_clocks :: clocks where
  "test_clocks = \<lparr>
     realtime = (\<lambda>_. \<lparr>tv_sec = 0, tv_nsec = 0\<rparr>), realtime_reads = 0,
     monotonic = (\<lambda>_. \<lparr>tv_sec = 0, tv_nsec = 0\<rparr>), monotonic_reads = 0,
     tsc = (\<lambda>_. 0), tsc_reads = 0\<rparr>"

definition test_logger :: async_logger where
  "test_logger = snd (start [] (\<lambda>_. True)
     (AsyncLogger_new \<lparr>log_file = None, files = (\<lambda>_. []), stdout = []\<rparr>))"

definition test_calendar :: "i64 \<Rightarrow> tm" where
  "test_calendar _ = \<lparr>tm_year = 70, tm_mon = 0, tm_mday = 1, tm_hour = 0, tm_min = 0, tm_sec = 0\<rparr>"

lemma test_ok:
  "clocks_ok test_clocks" "logger_wf test_logger" "running test_logger" "sink_works (sink test_logger)"
  "pending test_logger = []" "min_level test_logger = INFO" "sink_text (sink test_logger) = []"
  "log_file (sink test_logger) = None" "stdout (sink test_logger) = []"
  using AsyncLogger_new_wf
  by (simp_all add: clocks_ok_def test_clocks_def valid_timespec_def test_logger_def start_def
      AsyncLogger_new_def logger_wf_def pending_def sink_works_def sink_text_def)

text \<open>C14: Whatever a thread logs while the background thread takes turns at any point, no call faults or
  blocks, \<open>stop\<close> returns, and then the output has received, in the order of the calls and each exactly
  once, the lines of all accepted messages after the text that it had; the queue is empty. As long
  as the queue has room for the calls, the accepted messages are all that pass the level filter at
  the time of their call, cut to 255 characters.\<close>

theorem logger_delivers_everything:
  assumes "logger_wf lg" and "clocks_ok c" and "0 \<le> ival last_flush" and "running lg" and "sink_works (sink lg)"
  shows "\<exists>ms c1 lf1 lg1 c2 lg2.
    logger_run localtime es c last_flush lg = Inr (c1, lf1, lg1) \<and>
    stop localtime c1 lf1 lg1 = Some (Inr (c2, lg2)) \<and>
    sink_text ((sink lg2)\<lparr>log_file := log_file (sink lg)\<rparr>) =
      sink_text (sink lg) @ lines localtime (pending lg @ ms) \<and>
    pending lg2 = [] \<and> \<not> running lg2 \<and>
    (length (pending lg) + length es \<le> 65535 \<longrightarrow> map message ms = requested (min_level lg) es)"
proof -
  obtain c1 lf1 lg1 ms where run: "logger_run localtime es c last_flush lg = Inr (c1, lf1, lg1)" "clocks_ok c1"
    "0 \<le> ival lf1" and d: "delivers localtime lg ms es lg1"
    using logger_run_delivers [OF assms(1-3)] by blast
  have "logger_wf lg1" "running lg1" using d assms(4) by (simp_all add: delivers_def)
  with run(2,3) obtain c2 lg2 where stopped: "stop localtime c1 lf1 lg1 = Some (Inr (c2, lg2))"
    "sink lg2 = (emit localtime (pending lg1) (sink lg1))\<lparr>log_file := None\<rparr>" "pending lg2 = []" "\<not> running lg2"
    by (rule_tac stop_drains [of lg1 c1 lf1 localtime]) simp_all
  have "sink lg2 = (emit localtime (pending lg @ ms) (sink lg))\<lparr>log_file := None\<rparr>"
    using stopped(2) d by (simp add: delivers_def)
  then have "(sink lg2)\<lparr>log_file := log_file (sink lg)\<rparr> = emit localtime (pending lg @ ms) (sink lg)"
    using log_file_emit [of localtime "pending lg @ ms" "sink lg"] by simp
  then have "sink_text ((sink lg2)\<lparr>log_file := log_file (sink lg)\<rparr>) =
      sink_text (sink lg) @ lines localtime (pending lg @ ms)"
    using sink_text_emit [OF assms(5)] by metis
  with run(1) stopped d assms(4) show ?thesis unfolding delivers_def by blast
qed

theorem logger_delivers_everything_witness:
  "\<exists>ms c1 lf1 lg1 c2 lg2.
    logger_run test_calendar [Log_call INFO ''up'' 1, Log_call DEBUG ''hidden'' 1, Worker_turn, Log_call WARN ''late'' 1]
      test_clocks 0 test_logger = Inr (c1, lf1, lg1) \<and>
    stop test_calendar c1 lf1 lg1 = Some (Inr (c2, lg2)) \<and>
    stdout (sink lg2) = lines test_calendar ms \<and> map message ms = [''up'', ''late'']"
proof -
  let ?es = "[Log_call INFO ''up'' 1, Log_call DEBUG ''hidden'' 1, Worker_turn, Log_call WARN ''late'' 1]"
  have req: "requested INFO ?es = [''up'', ''late'']"
    by (simp add: c_str_def less_log_level_def)
  have "0 \<le> ival 0" by simp
  from logger_delivers_everything [OF test_ok(2,1) this test_ok(3,4), of test_calendar ?es]
  obtain ms c1 lf1 lg1 c2 lg2 where
    "logger_run test_calendar ?es test_clocks 0 test_logger = Inr (c1, lf1, lg1)"
    "stop test_calendar c1 lf1 lg1 = Some (Inr (c2, lg2))"
    "sink_text ((sink lg2)\<lparr>log_file := log_file (sink test_logger)\<rparr>) =
      sink_text (sink test_logger) @ lines test_calendar (pending test_logger @ ms)"
    "length (pending test_logger) + length ?es \<le> 65535 \<longrightarrow> map message ms = requested (min_level test_logger) ?es"
    by blast
  then show ?thesis
    by (intro exI conjI) (use req in \<open>simp_all add: test_ok sink_text_def\<close>)
qed

text \<open>\<open>log\<close> on each of its branches: below the minimum level or before \<open>start\<close> nothing happens, not even
  a reading of the clock; with a full queue the message is lost and only the clock has been read;
  otherwise one message with the level, the thread and the time of the call and the first 255
  characters of the text is appended. It never blocks and never writes to the output.\<close>

theorem log_branches:
  assumes "logger_wf lg" and "clocks_ok c"
  shows "\<exists>lg'. log_msg lvl msg tid c lg =
      Inr (if lvl < min_level lg \<or> \<not> running lg then c else c\<lparr>realtime_reads := Suc (realtime_reads c)\<rparr>, lg') \<and>
    pending lg' = pending lg @
      (if lvl < min_level lg \<or> \<not> running lg \<or> length (pending lg) = 65535 then []
       else [\<lparr>level = lvl, logged_ns = clock_now c, thread_id = tid, message = take 255 (c_str msg)\<rparr>]) \<and>
    sink lg' = sink lg \<and> logger_wf lg'"
proof (cases "lvl < min_level lg \<or> \<not> running lg")
  case True
  with assms show ?thesis by (auto simp: log_msg_def)
next
  case False
  let ?m = "\<lparr>level = lvl, logged_ns = clock_now c, thread_id = tid, message = take 255 (c_str msg)\<rparr>"
  have wf: "spsc_wf QUEUE_SIZE (queue lg)" using assms(1) by (simp add: logger_wf_def)
  have "LogMessage_new lvl msg tid c = Inr (?m, c\<lparr>realtime_reads := Suc (realtime_reads c)\<rparr>)"
    using assms(2) by (simp add: LogMessage_new_def getTimestampNs_ok)
  then have step: "log_msg lvl msg tid c lg = Inr (c\<lparr>realtime_reads := Suc (realtime_reads c)\<rparr>,
      lg\<lparr>queue := snd (spsc_push QUEUE_SIZE ?m (queue lg))\<rparr>)"
    using False by (simp add: log_msg_def)
  have "length (pending lg) \<le> 65535"
    using log_queue.within_capacity [OF wf] by (simp add: pending_def QUEUE_SIZE_def)
  then have "pending (lg\<lparr>queue := snd (spsc_push QUEUE_SIZE ?m (queue lg))\<rparr>) =
      pending lg @ (if length (pending lg) = 65535 then [] else [?m])"
    using log_queue.push_contents [OF wf, of ?m] log_queue.push_succeeds_iff [OF wf, of ?m]
    by (auto simp: pending_def QUEUE_SIZE_def)
  with step False log_queue.push_invar [OF wf, of ?m] show ?thesis by (simp add: logger_wf_def)
qed

theorem log_branches_witness:
  "\<exists>lg'. log_msg ERROR ''boom'' 7 test_clocks test_logger =
      Inr (test_clocks\<lparr>realtime_reads := Suc (realtime_reads test_clocks)\<rparr>, lg') \<and>
    map message (pending lg') = [''boom'']"
  using log_branches [OF test_ok(2,1), of ERROR "''boom''" 7] test_ok
  by (auto simp: less_log_level_def c_str_def)

section \<open>start\<close>

text \<open>\<open>start\<close> fails without effect on a running logger. When the file cannot be opened it fails but
  keeps the unopened stream: a later \<open>start\<close> without a file succeeds, and then every message that the
  background thread writes is discarded instead of going to the standard output.\<close>

theorem failed_start_discards_output:
  assumes "\<not> running lg" and "file_path \<noteq> []" and "\<not> opens file_path"
  shows "\<exists>lg1 lg2. start file_path opens lg = (False, lg1) \<and> \<not> running lg1 \<and>
    start [] opens lg1 = (True, lg2) \<and> running lg2 \<and>
    (\<forall>ms. emit localtime ms (sink lg2) = sink lg2) \<and>
    start other_path opens lg2 = (False, lg2)"
proof -
  let ?lg1 = "lg\<lparr>sink := (sink lg)\<lparr>log_file := Some \<lparr>path = file_path, is_open = False\<rparr>\<rparr>\<rparr>"
  let ?lg2 = "?lg1\<lparr>running := True, log_thread := True\<rparr>"
  have "\<not> sink_works (sink ?lg2)" by (simp add: sink_works_def)
  then have "\<forall>ms. emit localtime ms (sink ?lg2) = sink ?lg2" using broken_sink_emit by blast
  moreover have "start file_path opens lg = (False, ?lg1)" "start [] opens ?lg1 = (True, ?lg2)"
    "start other_path opens ?lg2 = (False, ?lg2)"
    using assms by (simp_all add: start_def Let_def)
  ultimately show ?thesis using assms(1) by (intro exI conjI) (assumption | simp)+
qed

theorem failed_start_discards_output_witness:
  "\<exists>lg1 lg2. start ''/no/such/file'' (\<lambda>_. False) (AsyncLogger_new \<lparr>log_file = None, files = (\<lambda>_. []), stdout = []\<rparr>) =
      (False, lg1) \<and> start [] (\<lambda>_. False) lg1 = (True, lg2) \<and> emit test_calendar [LogMessage_default] (sink lg2) = sink lg2"
proof -
  let ?lg = "AsyncLogger_new \<lparr>log_file = None, files = (\<lambda>_. []), stdout = []\<rparr>"
  have "\<not> running ?lg" "''/no/such/file'' \<noteq> []" "\<not> (\<lambda>_. False) ''/no/such/file''"
    by (simp_all add: AsyncLogger_new_def)
  from failed_start_discards_output [OF this, of test_calendar "[]"] show ?thesis by blast
qed

section \<open>The time in a line\<close>

text \<open>What \<open>localtime\<close> answers for years of four digits.\<close>

definition valid_tm :: "tm \<Rightarrow> bool" where
  "valid_tm t \<longleftrightarrow>
     0 \<le> tm_year t + 1900 \<and> tm_year t + 1900 \<le> 9999 \<and> 0 \<le> tm_mon t \<and> tm_mon t \<le> 11 \<and>
     1 \<le> tm_mday t \<and> tm_mday t \<le> 31 \<and> 0 \<le> tm_hour t \<and> tm_hour t \<le> 23 \<and>
     0 \<le> tm_min t \<and> tm_min t \<le> 59 \<and> 0 \<le> tm_sec t \<and> tm_sec t \<le> 60"

definition date_text :: "tm \<Rightarrow> string" where
  "date_text t =
     show_padded 4 (tm_year t + 1900) @ ''-'' @ show_padded 2 (tm_mon t + 1) @ ''-'' @
     show_padded 2 (tm_mday t) @ '' '' @ show_padded 2 (tm_hour t) @ '':'' @
     show_padded 2 (tm_min t) @ '':'' @ show_padded 2 (tm_sec t)"

lemma length_date_text: "valid_tm t \<Longrightarrow> length (date_text t) = 19"
  by (simp add: valid_tm_def date_text_def length_show_padded)

text \<open>C27: A time stamp always has the form \<open>YYYY-MM-DD hh:mm:ss.nnnnnnnnn\<close> of 29 characters, so that the
  64-byte buffer never cuts it; the second that the calendar is asked for and the nanoseconds
  printed make up the logged time.\<close>

theorem formatTimestamp_layout:
  assumes "0 \<le> ival ns" and "valid_tm (localtime (i64_quot ns 1000000000))"
  shows "formatTimestamp localtime ns =
      date_text (localtime (i64_quot ns 1000000000)) @ ''.'' @ show_padded 9 (ival ns mod 1000000000) \<and>
    length (formatTimestamp localtime ns) = 29 \<and>
    ival ns = ival (i64_quot ns 1000000000) * 1000000000 + ival ns mod 1000000000"
proof -
  let ?date = "date_text (localtime (i64_quot ns 1000000000))"
  let ?nanos = "show_padded 9 (ival ns mod 1000000000)"
  have q: "ival (i64_quot ns 1000000000) = ival ns div 1000000000"
    using assms(1) by (subst ival_i64_quot) simp_all
  have "ival ns mod 1000000000 < 2 ^ 63" by (rule less_trans [of _ 1000000000]) simp_all
  then have "in_i64 (ival ns mod 1000000000)" by (simp add: in_i64_def order_trans [of _ 0])
  then have r: "ival (i64_rem ns 1000000000) = ival ns mod 1000000000"
    using assms(1) by (simp add: i64_rem_def)
  have len: "length ?date = 19" "length ?nanos = 9"
    using length_date_text [OF assms(2)] by (simp_all add: length_show_padded)
  have "formatTimestamp localtime ns = snprintf 64 (?date @ ''.'' @ ?nanos)"
    by (simp add: formatTimestamp_def r date_text_def Let_def)
  also have "\<dots> = ?date @ ''.'' @ ?nanos" by (rule snprintf_fits) (use len in simp)
  finally show ?thesis using len q by simp
qed

theorem formatTimestamp_layout_witness:
  "length (formatTimestamp test_calendar (i64_of 1000000007)) = 29 \<and>
   drop 19 (formatTimestamp test_calendar (i64_of 1000000007)) = ''.000000007''"
proof -
  have v: "0 \<le> ival (i64_of 1000000007)" "valid_tm (test_calendar (i64_quot (i64_of 1000000007) 1000000000))"
    by (simp_all add: in_i64_def valid_tm_def test_calendar_def)
  have "digits 7 = ''7''" by (simp add: digits.simps digit_char_def char_of_def bit_0)
  then have "show_padded 9 7 = ''000000007''" by (simp add: show_padded_def eval_nat_numeral)
  with formatTimestamp_layout [where localtime = test_calendar and ns = "i64_of 1000000007", OF v] length_date_text [OF v(2)] show ?thesis by (simp add: in_i64_def)
qed

end
