(* ===== verification/Memory_Pool.thy ===== *)
theory Memory_Pool
  imports Book_Session Examples
begin

text \<open>
  \<open>include/utils/MemoryPool.hpp\<close>: the pool that hands out \<open>Order\<close> objects. The array \<open>pool_\<close> lies at \<open>base\<close>,
  32 bytes per order; \<open>N\<close> is the template argument \<open>PoolSize\<close>. Beyond the array orders come from \<open>new\<close>,
  whose choice of a free address is the parameter \<open>malloc\<close>. The NUMA branch of the constructor discards
  what it allocates, so it has no effect here.
\<close>

definition ORDER_SIZE :: nat where
  "ORDER_SIZE = 32"

record order_pool =
  base :: addr
  free_list :: "nat \<Rightarrow> addr"
  next_free :: "64 word"

definition pool_slot :: "addr \<Rightarrow> nat \<Rightarrow> addr" where
  "pool_slot b i = b + ORDER_SIZE * i"

text \<open>The array's orders are default-constructed; the list of their addresses is never read.\<close>

definition pool_init :: "64 word \<Rightarrow> addr \<Rightarrow> heap \<Rightarrow> heap" where
  "pool_init N b h =
     (\<lambda>p. if p \<in> pool_slot b ` {0..<unat N} then Some Order_default else h p)"

definition OrderMemoryPool_new :: "64 word \<Rightarrow> addr \<Rightarrow> heap \<Rightarrow> order_pool \<times> heap" where
  "OrderMemoryPool_new N b h =
     (\<lparr>base = b, free_list = pool_slot b, next_free = 0\<rparr>, pool_init N b h)"

definition pool_allocate ::
  "64 word \<Rightarrow> (heap \<Rightarrow> addr) \<Rightarrow> order_pool \<Rightarrow> heap \<Rightarrow> addr \<times> order_pool \<times> heap" where
  "pool_allocate N malloc pool h =
     (let idx = next_free pool; pool' = pool\<lparr>next_free := next_free pool + 1\<rparr> in
      if idx < N
      then (pool_slot (base pool) (unat idx), pool', h(pool_slot (base pool) (unat idx) \<mapsto> Order_default))
      else let p = malloc h in (p, pool', h(p \<mapsto> Order_default)))"

text \<open>
  Deleting a null pointer does nothing. Deleting what is not a live object of \<open>new\<close>, or is deleted already, is
  undefined in C++; that the caller does not do so is not checked here, as the code does not check it, and for
  such a call the result below has no meaning.
\<close>

definition pool_deallocate :: "64 word \<Rightarrow> addr option \<Rightarrow> order_pool \<Rightarrow> heap \<Rightarrow> heap" where
  "pool_deallocate N ptr pool h =
     (case ptr of
        None \<Rightarrow> h
      | Some p \<Rightarrow>
          if base pool \<le> p \<and> p < pool_slot (base pool) (unat N)
          then h(p \<mapsto> Order_default) else h(p := None))"

definition pool_reset :: "order_pool \<Rightarrow> order_pool" where
  "pool_reset pool = pool\<lparr>next_free := 0\<rparr>"

section \<open>Slots\<close>

lemma pool_slot_inject [simp]: "pool_slot b i = pool_slot b j \<longleftrightarrow> i = j"
  by (simp add: pool_slot_def ORDER_SIZE_def)

lemma pool_slot_range: "i < n \<Longrightarrow> b \<le> pool_slot b i \<and> pool_slot b i < pool_slot b n"
  by (simp add: pool_slot_def ORDER_SIZE_def)

text \<open>What \<open>new\<close> guarantees: the object it returns is not among the live ones.\<close>

definition malloc_fresh :: "(heap \<Rightarrow> addr) \<Rightarrow> bool" where
  "malloc_fresh malloc \<longleftrightarrow> (\<forall>h. finite (dom h) \<longrightarrow> malloc h \<notin> dom h)"

definition next_address :: "heap \<Rightarrow> addr" where
  "next_address h = (if dom h = {} then 0 else Suc (Max (dom h)))"

lemma next_address_fresh: "malloc_fresh next_address"
  unfolding malloc_fresh_def
proof (intro allI impI)
  fix h :: heap
  assume "finite (dom h)"
  then have "p \<le> Max (dom h)" if "p \<in> dom h" for p using that by simp
  then have "Suc (Max (dom h)) \<notin> dom h" using Suc_n_not_le_n by blast
  then show "next_address h \<notin> dom h" by (auto simp: next_address_def)
qed

definition pool_live :: "64 word \<Rightarrow> order_pool \<Rightarrow> heap \<Rightarrow> bool" where
  "pool_live N pool h \<longleftrightarrow> finite (dom h) \<and> pool_slot (base pool) ` {0..<unat N} \<subseteq> dom h"

lemma pool_live_new:
  assumes "finite (dom h)"
  shows "pool_live N (fst (OrderMemoryPool_new N b h)) (snd (OrderMemoryPool_new N b h))"
proof -
  have "dom (pool_init N b h) = pool_slot b ` {0..<unat N} \<union> dom h"
    by (auto simp: pool_init_def split: if_splits)
  with assms show ?thesis by (simp add: pool_live_def OrderMemoryPool_new_def)
qed

lemma pool_live_mono:
  "pool_live N pool h \<Longrightarrow> pool_live N (pool\<lparr>next_free := n\<rparr>) (h(p \<mapsto> od))"
  by (auto simp: pool_live_def)

section \<open>Runs of allocations and deallocations\<close>

datatype pool_op = Allocate | Deallocate "addr option"

text \<open>The addresses handed out by a sequence of calls, in order.\<close>

fun pool_run ::
  "64 word \<Rightarrow> (heap \<Rightarrow> addr) \<Rightarrow> pool_op list \<Rightarrow> order_pool \<Rightarrow> heap \<Rightarrow> addr list \<times> order_pool \<times> heap"
where
  "pool_run N malloc [] pool h = ([], pool, h)"
| "pool_run N malloc (Allocate # xs) pool h =
     (let (p, pool', h') = pool_allocate N malloc pool h; (ps, r) = pool_run N malloc xs pool' h'
      in (p # ps, r))"
| "pool_run N malloc (Deallocate ptr # xs) pool h =
     pool_run N malloc xs pool (pool_deallocate N ptr pool h)"

definition allocations :: "pool_op list \<Rightarrow> nat" where
  "allocations xs = length (filter (\<lambda>x. x = Allocate) xs)"

lemma allocations_simps [simp]:
  "allocations [] = 0" "allocations (Allocate # xs) = Suc (allocations xs)"
  "allocations (Deallocate ptr # xs) = allocations xs"
  by (simp_all add: allocations_def)

lemma pool_live_deallocate:
  assumes "pool_live N pool h"
  shows "pool_live N pool (pool_deallocate N ptr pool h)"
proof (cases ptr)
  case (Some p)
  show ?thesis
  proof (cases "base pool \<le> p \<and> p < pool_slot (base pool) (unat N)")
    case True
    with assms Some show ?thesis by (auto simp: pool_live_def pool_deallocate_def)
  next
    case False
    then have "p \<notin> pool_slot (base pool) ` {0..<unat N}"
      using pool_slot_range [of _ "unat N" "base pool"] by auto
    with False assms Some show ?thesis by (auto simp: pool_live_def pool_deallocate_def)
  qed
qed (use assms in \<open>simp add: pool_deallocate_def\<close>)

lemma pool_allocate_step:
  assumes live: "pool_live N pool h" and fresh: "malloc_fresh malloc"
    and a: "pool_allocate N malloc pool h = (p, pool', h')"
  shows "h' p = Some Order_default" and "\<And>q. q \<noteq> p \<Longrightarrow> h' q = h q"
    and "pool' = pool\<lparr>next_free := next_free pool + 1\<rparr>" and "pool_live N pool' h'"
    and "if next_free pool < N then p = pool_slot (base pool) (unat (next_free pool)) else h p = None"
proof -
  have m: "h (malloc h) = None" using live fresh by (auto simp: pool_live_def malloc_fresh_def)
  show "h' p = Some Order_default" "\<And>q. q \<noteq> p \<Longrightarrow> h' q = h q"
    "pool' = pool\<lparr>next_free := next_free pool + 1\<rparr>"
    "if next_free pool < N then p = pool_slot (base pool) (unat (next_free pool)) else h p = None"
    using a m by (auto simp: pool_allocate_def Let_def split: if_splits)
  show "pool_live N pool' h'"
    using a pool_live_mono [OF live] by (auto simp: pool_allocate_def Let_def split: if_splits)
qed

lemma pool_run_slots:
  assumes "pool_live N pool h" and "malloc_fresh malloc"
    and "unat (next_free pool) + allocations xs < 2 ^ 64"
  shows "filter (\<lambda>p. p \<in> pool_slot (base pool) ` {0..<unat N}) (fst (pool_run N malloc xs pool h)) =
    map (pool_slot (base pool)) [unat (next_free pool)..<min (unat (next_free pool) + allocations xs) (unat N)]"
  using assms
proof (induction xs arbitrary: pool h)
  case Nil
  then show ?case by simp
next
  case (Cons x xs)
  let ?S = "pool_slot (base pool) ` {0..<unat N}" and ?n = "unat (next_free pool)"
  show ?case
  proof (cases x)
    case (Deallocate ptr)
    have "pool_live N pool (pool_deallocate N ptr pool h)"
      using Cons.prems(1) by (rule pool_live_deallocate)
    with Cons Deallocate show ?thesis by simp
  next
    case Allocate
    obtain p pool' h' where a: "pool_allocate N malloc pool h = (p, pool', h')"
      by (cases "pool_allocate N malloc pool h") auto
    note step = pool_allocate_step [OF Cons.prems(1,2) a]
    have n: "unat (next_free pool + 1) = Suc ?n"
      using Cons.prems(3) Allocate by (simp add: unat_word_ariths)
    have IH: "filter (\<lambda>p. p \<in> ?S) (fst (pool_run N malloc xs pool' h')) =
        map (pool_slot (base pool)) [Suc ?n..<min (Suc ?n + allocations xs) (unat N)]"
      using Cons.IH [OF step(4) Cons.prems(2)] Cons.prems(3) Allocate n by (simp add: step(3))
    have run: "fst (pool_run N malloc (x # xs) pool h) = p # fst (pool_run N malloc xs pool' h')"
      using a Allocate by (simp add: split_beta)
    show ?thesis
    proof (cases "next_free pool < N")
      case True
      then have "?n < unat N" "p = pool_slot (base pool) ?n" using step(5) by (simp_all add: word_less_nat_alt)
      moreover from this have "[?n..<min (?n + allocations (x # xs)) (unat N)] =
          ?n # [Suc ?n..<min (Suc ?n + allocations xs) (unat N)]"
        using Allocate by (simp add: upt_conv_Cons)
      ultimately show ?thesis unfolding run using IH by simp
    next
      case False
      then have "p \<notin> ?S" using step(5) Cons.prems(1) by (auto simp: pool_live_def)
      moreover have "unat N \<le> ?n" using False by (simp add: word_le_nat_alt not_less)
      ultimately show ?thesis unfolding run using IH by simp
    qed
  qed
qed

section \<open>What the pool promises, and what it does not\<close>

text \<open>C28: \<open>allocate\<close> returns an object that is zero, and touches no other: the next slot of the array while
  slots are left, and then a new object that was not live. Slots follow each other: whatever is
  deallocated in between, a run of fewer than \<open>2 ^ 64\<close> calls hands out the slots in order, each at most
  once, and the array's memory is never reused.\<close>

theorem pool_allocates_distinct_slots:
  assumes "pool_live N pool h" and "malloc_fresh malloc"
    and "unat (next_free pool) + allocations xs < 2 ^ 64"
  shows "filter (\<lambda>p. p \<in> pool_slot (base pool) ` {0..<unat N}) (fst (pool_run N malloc xs pool h)) =
      map (pool_slot (base pool)) [unat (next_free pool)..<min (unat (next_free pool) + allocations xs) (unat N)] \<and>
    (case pool_allocate N malloc pool h of (p, pool', h') \<Rightarrow>
       h' p = Some Order_default \<and> (\<forall>q. q \<noteq> p \<longrightarrow> h' q = h q) \<and> pool_live N pool' h' \<and>
       (if next_free pool < N then p = pool_slot (base pool) (unat (next_free pool)) else h p = None))"
proof -
  obtain p pool' h' where a: "pool_allocate N malloc pool h = (p, pool', h')"
    by (cases "pool_allocate N malloc pool h") auto
  note pool_allocate_step [OF assms(1,2) a]
  with pool_run_slots [OF assms] a show ?thesis by simp
qed

theorem pool_allocates_distinct_slots_witness:
  "filter (\<lambda>p. p \<in> pool_slot 1000 ` {0..<2})
     (fst (pool_run 2 next_address [Allocate, Deallocate (Some 1000), Allocate, Allocate]
        (fst (OrderMemoryPool_new 2 1000 (\<lambda>_. None))) (snd (OrderMemoryPool_new 2 1000 (\<lambda>_. None))))) =
   [1000, 1032]"
proof -
  let ?pool = "fst (OrderMemoryPool_new 2 1000 (\<lambda>_. None))" and ?h = "snd (OrderMemoryPool_new 2 1000 (\<lambda>_. None))"
  have "pool_live 2 ?pool ?h" by (rule pool_live_new) simp
  moreover have "next_free ?pool = 0" "base ?pool = 1000" by (simp_all add: OrderMemoryPool_new_def)
  ultimately show ?thesis
    using pool_allocates_distinct_slots [OF _ next_address_fresh, of 2 ?pool ?h
        "[Allocate, Deallocate (Some 1000), Allocate, Allocate]"]
    by (simp add: pool_slot_def ORDER_SIZE_def upt_rec)
qed

text \<open>\<open>reset\<close> does not look at what is still in use: after it the next \<open>allocate\<close> hands out the first
  slot again and zeroes it. If the order in that slot is in a book, the book is no longer
  well-formed.\<close>

theorem pool_reset_reissues:
  assumes "book_ok bk h" and "getOrder i bk = Some (pool_slot (base pool) 0)" and "0 < N" and "i \<noteq> 0"
  shows "\<exists>pool' h'. pool_allocate N malloc (pool_reset pool) h = (pool_slot (base pool) 0, pool', h') \<and>
    \<not> book_ok bk h'"
proof -
  let ?p = "pool_slot (base pool) 0" and ?h = "h(pool_slot (base pool) 0 \<mapsto> Order_default)"
  have "order_map bk i = Some ?p" using assms(2) by (simp add: getOrder_def)
  then have "\<not> book_wf bk ?h"
    using assms(4) registered_live [of bk ?h i ?p] by (auto simp: Order_default_def)
  moreover have "pool_allocate N malloc (pool_reset pool) h =
      (?p, (pool_reset pool)\<lparr>next_free := 1\<rparr>, ?h)"
    using assms(3) by (simp add: pool_allocate_def pool_reset_def)
  ultimately show ?thesis using book_ok_wf by blast
qed

theorem pool_reset_reissues_witness:
  "\<exists>pool' h'. pool_allocate 4 next_address (pool_reset \<lparr>base = 10, free_list = pool_slot 10, next_free = 1\<rparr>)
      example_heap = (10, pool', h') \<and> \<not> book_ok example_book h'"
proof -
  let ?pool = "\<lparr>base = 10, free_list = pool_slot 10, next_free = 1\<rparr>"
  have s: "pool_slot (base ?pool) 0 = 10" by (simp add: pool_slot_def ORDER_SIZE_def)
  have "getOrder 1 example_book = Some (pool_slot (base ?pool) 0)"
    by (simp add: pool_slot_def ORDER_SIZE_def)
  from pool_reset_reissues [OF example_book_ok this, of 4 next_address] show ?thesis unfolding s by simp
qed

end
