(* ===== verification/Progress.thy ===== *)
theory Progress
  imports Main
begin

text \<open>
  Transition systems that can always finish: an invariant is kept by every step, and where the system has not
  finished some step makes a measure smaller. The steps need not all do so: a loop that polls may go round.
\<close>

locale progress =
  fixes step :: "'s \<Rightarrow> 's \<Rightarrow> bool"
    and inv :: "'s \<Rightarrow> bool"
    and finished :: "'s \<Rightarrow> bool"
    and rank :: "'s \<Rightarrow> nat"
  assumes keeps: "inv s \<Longrightarrow> step s s' \<Longrightarrow> inv s'"
    and moves: "inv s \<Longrightarrow> \<not> finished s \<Longrightarrow> \<exists>s'. step s s' \<and> rank s' < rank s"
begin

lemma keeps_steps: "step\<^sup>*\<^sup>* s s' \<Longrightarrow> inv s \<Longrightarrow> inv s'"
  by (induction rule: rtranclp_induct) (auto intro: keeps)

lemma can_finish: "inv s \<Longrightarrow> \<exists>s'. step\<^sup>*\<^sup>* s s' \<and> finished s'"
proof (induction "rank s" arbitrary: s rule: less_induct)
  case less
  show ?case
  proof (cases "finished s")
    case False
    from moves [OF less.prems this] obtain t where t: "step s t" "rank t < rank s" by blast
    from less.hyps [OF t(2) keeps [OF less.prems t(1)]] t(1) show ?thesis
      by (blast intro: converse_rtranclp_into_rtranclp)
  qed blast
qed

end

text \<open>Two parts of a system: a step of the first may give the second one more item to work on.\<close>

lemma weighted_less:
  "c' < c \<Longrightarrow> n' \<le> Suc n \<Longrightarrow> w' \<le> 13 \<Longrightarrow> 40 * c' + 12 * n' + w' < 40 * c + 12 * n + w" for c n w :: nat
  by linarith

end
