(* ===== verification/SPSC_Access.thy ===== *)
theory SPSC_Access
  imports SPSC_Concurrent
begin

text \<open>
  What a single access inside \<open>push\<close> or \<open>pop\<close> can change for one producer and one consumer, and which accesses
  are always possible. The programs whose threads share a queue build on these facts.
\<close>

fun pending_item :: "'a push_state \<Rightarrow> 'a option" where
  "pending_item Push_idle = None"
| "pending_item (Push_check x cw) = Some x"
| "pending_item (Push_write x cw) = Some x"
| "pending_item (Push_store x cw) = Some x"

lemma conc_step_mono: "conc_step sz {} {} s s' \<Longrightarrow> conc_step sz {0} {0} s s'"
  by (erule conc_step.cases) (auto intro: conc_step.intros)

lemma popped_prefix: "conc_step sz ps cs q q' \<Longrightarrow> \<exists>xs. popped q' = popped q @ xs"
  by (erule conc_step.cases) auto

lemma conc_inv_seen:
  assumes "conc_inv sz q" and "seen_writes q 0 \<le> k" and "k \<le> length (pushed q)"
  shows "conc_inv sz (q\<lparr>seen_writes := (seen_writes q)(0 := k)\<rparr>)"
proof -
  have "pop_inv sz (length (popped q)) k (pushed q) (popping q 0)"
    using conc_invD(10) [OF assms(1)] assms(2) by (cases "popping q 0") auto
  with assms show ?thesis by (simp add: conc_inv_def)
qed

lemma conc_inv_order:
  assumes "conc_inv sz q"
  shows "length (popped q) \<le> length (pushed q)" and "length (pushed q) < length (popped q) + unat sz"
    and "length (writes q) = Suc (length (pushed q))" and "length (reads q) = Suc (length (popped q))"
  using conc_invD(1,2,4-7) [OF assms] by simp_all

text \<open>A queue with fewer than \<open>sz - 1\<close> pushes so far cannot look full, however old the load.\<close>

lemma queue_not_full:
  assumes v: "valid_size sz" and inv: "conc_inv sz q" and few: "Suc (length (pushed q)) < unat sz"
    and "pushing q t = Push_check item cw" and "seen_reads q t \<le> k" and "k < length (reads q)"
  shows "next_pos sz cw \<noteq> reads q ! k"
proof -
  note D = conc_invD [OF inv]
  have t0: "t = 0" using conc_inv_thread(1) [OF inv, of t] assms(4) by simp
  let ?w = "length (pushed q)" and ?r = "length (popped q)"
  have "cw = slot sz ?w" using D(9) assms(4) unfolding t0 by simp
  moreover have "k \<le> ?r" using assms(6) D(2) by simp
  moreover have "?r \<le> ?w" using inv by (rule conc_inv_order)
  ultimately show ?thesis
    using nth_history [of k ?r sz] D(2) few slot_eq_iff [OF v, of k "Suc ?w"]
    by (simp add: next_slot [OF v])
qed

lemma push_access:
  assumes v: "valid_size sz" and step: "conc_step sz {} {} q q'" and inv: "conc_inv sz q"
  shows "pushed q' = pushed q \<and> pending_item (pushing q' 0) = pending_item (pushing q 0) \<or>
    pending_item (pushing q' 0) = None \<and> (\<exists>x. pending_item (pushing q 0) = Some x \<and>
      (pushed q' = pushed q @ [x] \<or> pushed q' = pushed q \<and> unat sz \<le> Suc (length (pushed q))))"
proof -
  have t: "pushing q t \<noteq> Push_idle \<Longrightarrow> t = 0" for t using conc_inv_thread(1) [OF inv] by blast
  from step show ?thesis
  proof (cases rule: conc_step.cases)
    case (push_full t' item cw k)
    then have "t' = 0" using t [of t'] by simp
    moreover have "\<not> Suc (length (pushed q)) < unat sz" using queue_not_full [OF v inv] push_full by blast
    ultimately show ?thesis using push_full by simp
  next
    case (push_room t' item cw k)
    then have "t' = 0" using t [of t'] by simp
    with push_room show ?thesis by simp
  next
    case (push_write t' item cw)
    then have "t' = 0" using t [of t'] by simp
    with push_write show ?thesis by simp
  next
    case (push_store t' item cw)
    then have "t' = 0" using t [of t'] by simp
    with push_store show ?thesis by simp
  qed simp_all
qed

lemma pop_access:
  assumes step: "conc_step sz {} {} q q'" and inv: "conc_inv sz q"
  shows "length (popped q') = length (popped q) \<and> (popping q 0 = Pop_idle \<longrightarrow> popping q' 0 = Pop_idle) \<or>
      popping q 0 \<noteq> Pop_idle \<and> popping q' 0 = Pop_idle \<and> length (popped q') = Suc (length (popped q))"
    and "seen_writes q 0 \<le> seen_writes q' 0"
proof -
  have t: "popping q t \<noteq> Pop_idle \<Longrightarrow> t = 0" for t using conc_inv_thread(2) [OF inv] by blast
  from step show "length (popped q') = length (popped q) \<and> (popping q 0 = Pop_idle \<longrightarrow> popping q' 0 = Pop_idle) \<or>
      popping q 0 \<noteq> Pop_idle \<and> popping q' 0 = Pop_idle \<and> length (popped q') = Suc (length (popped q))"
  proof (cases rule: conc_step.cases)
    case (pop_empty t' cr k)
    then have "t' = 0" using t [of t'] by simp
    with pop_empty show ?thesis by simp
  next
    case (pop_some t' cr k)
    then have "t' = 0" using t [of t'] by simp
    with pop_some show ?thesis by simp
  next
    case (pop_read t' cr)
    then have "t' = 0" using t [of t'] by simp
    with pop_read show ?thesis by simp
  next
    case (pop_store t' item cr)
    then have "t' = 0" using t [of t'] by simp
    with pop_store show ?thesis by simp
  qed simp_all
  from step show "seen_writes q 0 \<le> seen_writes q' 0"
    by (cases rule: conc_step.cases) auto
qed

section \<open>Calls come to their end\<close>

text \<open>
  How many accesses a call has still to make. A \<open>pop\<close> whose loads return the newest position takes an item
  when there is one; \<open>drain_rank\<close> weighs the items that are left, and a call that has taken one returns to a
  loop that looks for the next.
\<close>

fun push_rank :: "'a push_state \<Rightarrow> nat" where
  "push_rank Push_idle = 0"
| "push_rank (Push_store x cw) = 1"
| "push_rank (Push_write x cw) = 2"
| "push_rank (Push_check x cw) = 3"

fun pop_rank :: "bool \<Rightarrow> 'a pop_state \<Rightarrow> nat" where
  "pop_rank items Pop_idle = (if items then 13 else 6)"
| "pop_rank items (Pop_check cr) = 9"
| "pop_rank items (Pop_read cr) = 8"
| "pop_rank items (Pop_store x cr) = 7"

definition items_left :: "'a conc \<Rightarrow> nat" where
  "items_left q = length (pushed q) - length (popped q)"

definition drain_rank :: "'a conc \<Rightarrow> nat" where
  "drain_rank q = 12 * items_left q + pop_rank (0 < items_left q) (popping q 0)"

lemma push_progress:
  assumes inv: "conc_inv sz q" and "pushing q 0 \<noteq> Push_idle"
  obtains q' where "conc_step sz {} {} q q'" and "push_rank (pushing q' 0) < push_rank (pushing q 0)"
    and "items_left q' \<le> Suc (items_left q)"
proof (cases "pushing q 0")
  case (Push_check x cw)
  have k: "seen_reads q 0 \<le> length (popped q)" "length (popped q) < length (reads q)"
    using conc_invD(6) [OF inv] conc_inv_order(4) [OF inv] by simp_all
  show thesis
  proof (cases "next_pos sz cw = reads q ! length (popped q)")
    case True
    from conc_step.push_full [OF Push_check k this] show thesis
      by (rule that) (simp_all add: Push_check items_left_def)
  next
    case False
    from conc_step.push_room [OF Push_check k this] show thesis
      by (rule that) (simp_all add: Push_check items_left_def)
  qed
next
  case (Push_write x cw)
  from conc_step.push_write [OF this] show thesis by (rule that) (simp_all add: Push_write items_left_def)
next
  case (Push_store x cw)
  from conc_step.push_store [OF this] show thesis by (rule that) (simp_all add: Push_store items_left_def)
qed (use assms(2) in simp)

lemma newest_position:
  assumes v: "valid_size sz" and inv: "conc_inv sz q"
  shows "seen_writes q 0 \<le> length (pushed q)" and "length (pushed q) < length (writes q)"
    and "last (reads q) = writes q ! length (pushed q) \<longleftrightarrow> items_left q = 0"
proof -
  note Q = conc_invD [OF inv] conc_inv_order [OF inv]
  show "seen_writes q 0 \<le> length (pushed q)" "length (pushed q) < length (writes q)" using Q by simp_all
  have "writes q ! length (pushed q) = slot sz (length (pushed q))"
    using Q(1) nth_history [of "length (pushed q)" "length (pushed q)" sz] by simp
  then show "last (reads q) = writes q ! length (pushed q) \<longleftrightarrow> items_left q = 0"
    using Q(2) slot_eq_iff [OF v] conc_inv_order(1,2) [OF inv] by (auto simp: items_left_def)
qed

lemma pop_progress:
  assumes v: "valid_size sz" and inv: "conc_inv sz q" and "popping q 0 \<noteq> Pop_idle"
  obtains q' where "conc_step sz {} {} q q'" and "pushing q' = pushing q" and "drain_rank q' < drain_rank q"
proof (cases "popping q 0")
  case (Pop_check cr)
  then have cr: "cr = last (reads q)" using conc_invD(2,10) [OF inv] by simp
  note new = newest_position [OF v inv]
  show thesis
  proof (cases "cr = writes q ! length (pushed q)")
    case True
    from conc_step.pop_empty [OF Pop_check new(1,2) this] show thesis
      by (rule that) (use new(3) True cr in \<open>simp_all add: drain_rank_def items_left_def Pop_check\<close>)
  next
    case False
    from conc_step.pop_some [OF Pop_check new(1,2) this] show thesis
      by (rule that) (simp_all add: drain_rank_def items_left_def Pop_check)
  qed
next
  case (Pop_read cr)
  from conc_step.pop_read [OF this] show thesis
    by (rule that) (simp_all add: drain_rank_def items_left_def Pop_read)
next
  case (Pop_store x cr)
  then have "length (popped q) < length (pushed q)" using conc_invD(5,10) [OF inv] by simp
  then obtain n where "length (pushed q) = length (popped q) + Suc n" using less_imp_Suc_add by auto
  with conc_step.pop_store [OF Pop_store] show thesis
    by (intro that) (assumption, simp_all add: drain_rank_def items_left_def Pop_store)
qed (use assms(3) in simp)

end
