(* ===== verification/Logger_Concurrent.thy ===== *)
theory Logger_Concurrent
  imports Progress SPSC_Access Async_Logger "HOL-Library.Sublist"
begin

text \<open>
  The logger of \<open>include/utils/AsyncLogger.hpp\<close> at the granularity of single accesses to shared memory: one thread
  logs a list of messages and then calls \<open>stop\<close>, the background thread runs \<open>logWorker\<close>. Both use the queue as in
  \<open>SPSC_Concurrent\<close>, with loads that may return old positions; a load of \<open>running_\<close> by the background thread may
  return true until the thread has seen false. Filtering and building a message touch no shared memory:
  \<open>to_log\<close> holds the messages that are left to push, in the order of the calls.
\<close>

section \<open>The two threads\<close>

datatype caller_state = Calling | In_push | Joining | Flushing | Stopped

datatype worker_state =
    At_running
  | At_empty
  | At_pop
  | Popping nat
  | At_last_pop
  | Last_popping nat
  | Worker_done

record 'm log_threads =
  log_queue :: "'m conc"
  caller :: caller_state
  to_log :: "'m list"
  worker :: worker_state
  stopped_at :: "nat option"
  stop_seen :: bool
  written :: "'m list"

definition threads_new :: "(64 word \<Rightarrow> 'm) \<Rightarrow> 'm list \<Rightarrow> 'm log_threads" where
  "threads_new b ms = \<lparr>log_queue = conc_new b, caller = Calling, to_log = ms, worker = At_running, stopped_at = None,
     stop_seen = False, written = []\<rparr>"

text \<open>
  \<open>stopped_at\<close> remembers how many stores to the write position precede the store of false to \<open>running_\<close>; an
  acquire load of that false makes them visible. \<open>Popping\<close> and \<open>Last_popping\<close> remember how many items had been
  popped when the call began, which tells what it returns; the latter is the \<open>pop\<close> in the \<open>flush\<close> at the end of
  \<open>logWorker\<close>. After \<open>join\<close> the caller's own \<open>flush\<close> has the queue for itself.
\<close>

inductive log_step :: "'m log_threads \<Rightarrow> 'm log_threads \<Rightarrow> bool" where
  log_call: "caller s = Calling \<Longrightarrow> to_log s = m # ms \<Longrightarrow>
    log_step s (s\<lparr>caller := In_push, to_log := ms, log_queue := (log_queue s)\<lparr>pushing :=
      (pushing (log_queue s))(0 := Push_check m (last (writes (log_queue s))))\<rparr>\<rparr>)"
| log_return: "caller s = In_push \<Longrightarrow> pushing (log_queue s) 0 = Push_idle \<Longrightarrow>
    log_step s (s\<lparr>caller := Calling\<rparr>)"
| stop_call: "caller s = Calling \<Longrightarrow> to_log s = [] \<Longrightarrow>
    log_step s (s\<lparr>caller := Joining, stopped_at := Some (length (writes (log_queue s)) - 1)\<rparr>)"
| join: "caller s = Joining \<Longrightarrow> worker s = Worker_done \<Longrightarrow>
    log_step s (s\<lparr>caller := Flushing\<rparr>)"
| flush_item: "caller s = Flushing \<Longrightarrow> last (reads (log_queue s)) \<noteq> last (writes (log_queue s)) \<Longrightarrow>
    item = cells (log_queue s) (last (reads (log_queue s))) \<Longrightarrow>
    log_step s (s\<lparr>written := written s @ [item], log_queue := (log_queue s)\<lparr>
      reads := reads (log_queue s) @ [next_pos QUEUE_SIZE (last (reads (log_queue s)))],
      popped := popped (log_queue s) @ [item]\<rparr>\<rparr>)"
| flush_end: "caller s = Flushing \<Longrightarrow> last (reads (log_queue s)) = last (writes (log_queue s)) \<Longrightarrow>
    log_step s (s\<lparr>caller := Stopped\<rparr>)"
| queue_access: "conc_step QUEUE_SIZE {} {} (log_queue s) q \<Longrightarrow>
    log_step s (s\<lparr>log_queue := q\<rparr>)"
| still_running: "worker s = At_running \<Longrightarrow> \<not> stop_seen s \<Longrightarrow>
    log_step s (s\<lparr>worker := At_pop\<rparr>)"
| see_stop: "worker s = At_running \<Longrightarrow> stopped_at s = Some n \<Longrightarrow>
    log_step s (s\<lparr>worker := At_empty, stop_seen := True, log_queue := (log_queue s)\<lparr>seen_writes :=
      (seen_writes (log_queue s))(0 := max n (seen_writes (log_queue s) 0))\<rparr>\<rparr>)"
| test_empty: "worker s = At_empty \<Longrightarrow> seen_writes (log_queue s) 0 \<le> k \<Longrightarrow> k < length (writes (log_queue s)) \<Longrightarrow>
    log_step s (s\<lparr>worker := (if last (reads (log_queue s)) = writes (log_queue s) ! k then At_last_pop else At_pop),
      log_queue := (log_queue s)\<lparr>seen_writes := (seen_writes (log_queue s))(0 := k)\<rparr>\<rparr>)"
| pop_call: "worker s = At_pop \<Longrightarrow>
    log_step s (s\<lparr>worker := Popping (length (popped (log_queue s))), log_queue := (log_queue s)\<lparr>popping :=
      (popping (log_queue s))(0 := Pop_check (last (reads (log_queue s))))\<rparr>\<rparr>)"
| pop_return: "worker s = Popping m \<Longrightarrow> popping (log_queue s) 0 = Pop_idle \<Longrightarrow>
    log_step s (s\<lparr>worker := At_running,
      written := written s @ (if m < length (popped (log_queue s)) then [popped (log_queue s) ! m] else [])\<rparr>)"
| last_pop_call: "worker s = At_last_pop \<Longrightarrow>
    log_step s (s\<lparr>worker := Last_popping (length (popped (log_queue s))), log_queue := (log_queue s)\<lparr>popping :=
      (popping (log_queue s))(0 := Pop_check (last (reads (log_queue s))))\<rparr>\<rparr>)"
| last_pop_return: "worker s = Last_popping m \<Longrightarrow> popping (log_queue s) 0 = Pop_idle \<Longrightarrow>
    log_step s (s\<lparr>worker := (if m < length (popped (log_queue s)) then At_last_pop else Worker_done),
      written := written s @ (if m < length (popped (log_queue s)) then [popped (log_queue s) ! m] else [])\<rparr>)"

inductive log_reachable :: "(64 word \<Rightarrow> 'm) \<Rightarrow> 'm list \<Rightarrow> 'm log_threads \<Rightarrow> bool"
  for b :: "64 word \<Rightarrow> 'm" and ms :: "'m list" where
  log_initial: "log_reachable b ms (threads_new b ms)"
| log_next: "log_reachable b ms s \<Longrightarrow> log_step s s' \<Longrightarrow> log_reachable b ms s'"

section \<open>The invariant\<close>

text \<open>\<open>ended\<close> are the calls so far. As long as they fit into the queue none is dropped.\<close>

definition kept :: "'m list \<Rightarrow> 'm list \<Rightarrow> bool" where
  "kept xs ys \<longleftrightarrow> subseq xs ys \<and> (length ys \<le> 65535 \<longrightarrow> xs = ys)"

lemma kept_refl: "kept xs xs"
  by (simp add: kept_def)

lemma kept_more: "kept xs ys \<Longrightarrow> kept (xs @ [x]) (ys @ [x])"
  by (auto simp: kept_def)

lemma kept_dropped:
  assumes "kept (xs @ [x]) ys" and "65535 \<le> length xs"
  shows "kept xs ys"
proof -
  from assms(1) have "subseq (xs @ [x]) ys" unfolding kept_def by (rule conjunct1)
  then have "subseq xs ys" "Suc (length xs) \<le> length ys"
    using list_emb_length [of "(=)" "xs @ [x]" ys] by (auto intro: subseq_order.trans [rotated])
  with assms(2) show ?thesis by (simp add: kept_def)
qed

primrec opt_list :: "'a option \<Rightarrow> 'a list" where
  "opt_list None = []"
| "opt_list (Some x) = [x]"

definition caller_inv ::
  "'m list \<Rightarrow> 'm list \<Rightarrow> 'm option \<Rightarrow> 'm list \<Rightarrow> nat option \<Rightarrow> caller_state \<Rightarrow> bool" where
  "caller_inv calls items entering left st c \<longleftrightarrow>
     (\<exists>ended. calls = ended @ left \<and> kept (items @ opt_list entering) ended) \<and>
     (c \<noteq> In_push \<longrightarrow> entering = None) \<and>
     (if c \<in> {Joining, Flushing, Stopped} then left = [] \<and> st = Some (length items) else st = None)"

fun not_taking :: "'m pop_state \<Rightarrow> bool" where
  "not_taking Pop_idle = True"
| "not_taking (Pop_check cr) = True"
| "not_taking (Pop_read cr) = False"
| "not_taking (Pop_store x cr) = False"

definition worker_inv :: "'m list \<Rightarrow> 'm list \<Rightarrow> 'm pop_state \<Rightarrow> 'm list \<Rightarrow> bool \<Rightarrow> worker_state \<Rightarrow> bool" where
  "worker_inv items taken pop out seen w \<longleftrightarrow>
     (case w of
        Popping m \<Rightarrow> m \<le> length taken \<and> out = take m taken \<and>
          (if pop = Pop_idle then length taken \<le> Suc m else length taken = m)
      | Last_popping m \<Rightarrow> taken = items \<and> out = taken \<and> m = length taken \<and> seen \<and>
          not_taking pop
      | At_running \<Rightarrow> out = taken \<and> pop = Pop_idle
      | At_pop \<Rightarrow> out = taken \<and> pop = Pop_idle
      | At_empty \<Rightarrow> out = taken \<and> seen \<and> pop = Pop_idle
      | _ \<Rightarrow> taken = items \<and> out = taken \<and> seen \<and> pop = Pop_idle)"

definition threads_inv :: "'m list \<Rightarrow> 'm log_threads \<Rightarrow> bool" where
  "threads_inv calls s \<longleftrightarrow>
     (let q = log_queue s in
      conc_inv QUEUE_SIZE q \<and>
      caller_inv calls (pushed q) (pending_item (pushing q 0)) (to_log s) (stopped_at s) (caller s) \<and>
      worker_inv (pushed q) (popped q) (popping q 0) (written s) (stop_seen s) (worker s) \<and>
      (stop_seen s \<longrightarrow> stopped_at s = Some (seen_writes q 0)) \<and>
      (caller s \<in> {Flushing, Stopped} \<longrightarrow> worker s = Worker_done))"

lemma unat_QUEUE_SIZE: "unat QUEUE_SIZE = 65536"
  by (simp add: QUEUE_SIZE_def)

lemma threads_invD:
  assumes "threads_inv calls s"
  shows "conc_inv QUEUE_SIZE (log_queue s)"
    and "caller_inv calls (pushed (log_queue s)) (pending_item (pushing (log_queue s) 0)) (to_log s)
      (stopped_at s) (caller s)"
    and "worker_inv (pushed (log_queue s)) (popped (log_queue s)) (popping (log_queue s) 0) (written s)
      (stop_seen s) (worker s)"
    and "stop_seen s \<Longrightarrow> stopped_at s = Some (seen_writes (log_queue s) 0)"
    and "caller s \<in> {Flushing, Stopped} \<Longrightarrow> worker s = Worker_done"
  using assms by (simp_all add: threads_inv_def Let_def)

lemma caller_inv_stopped:
  assumes "caller_inv calls items entering left (Some n) c"
  shows "c \<in> {Joining, Flushing, Stopped} \<and> n = length items \<and> left = [] \<and> entering = None"
  using assms unfolding caller_inv_def by (cases c) simp_all

text \<open>Once the background thread has seen false it knows of every push there will be.\<close>

lemma stop_seen_all:
  assumes inv: "threads_inv calls s" and "stop_seen s"
  shows "seen_writes (log_queue s) 0 = length (pushed (log_queue s))"
    and "pending_item (pushing (log_queue s) 0) = None"
  using caller_inv_stopped [OF threads_invD(2) [OF inv, unfolded threads_invD(4) [OF assms]]] by simp_all

lemma threads_inv_new: "threads_inv ms (threads_new b ms)"
  by (simp add: threads_inv_def threads_new_def conc_inv_new [OF valid_QUEUE_SIZE] caller_inv_def worker_inv_def)
    (simp add: conc_new_def kept_refl)

lemma caller_inv_access:
  assumes inv: "caller_inv calls items entering left st c"
    and "items' = items \<and> entering' = entering \<or>
      entering' = None \<and> (\<exists>x. entering = Some x \<and>
        (items' = items @ [x] \<or> items' = items \<and> 65536 \<le> Suc (length items)))"
  shows "caller_inv calls items' entering' left st c"
proof -
  from assms(2) consider "items' = items" "entering' = entering"
    | x where "entering' = None" "entering = Some x" "items' = items @ [x]"
    | x where "entering' = None" "entering = Some x" "items' = items" "65536 \<le> Suc (length items)"
    by blast
  then show ?thesis
  proof cases
    case (2 x)
    moreover from this inv have "c = In_push" unfolding caller_inv_def by (cases c) simp_all
    ultimately show ?thesis using inv by (simp add: caller_inv_def)
  next
    case (3 x)
    moreover from this inv have "c = In_push" unfolding caller_inv_def by (cases c) simp_all
    ultimately show ?thesis using inv by (auto simp: caller_inv_def intro: kept_dropped)
  qed (use inv in simp)
qed

text \<open>When everything has been popped and the thread knows it, its \<open>pop\<close> finds nothing.\<close>

lemma nothing_left:
  assumes step: "conc_step sz {} {} q q'" and inv: "conc_inv sz q"
    and all: "seen_writes q 0 = length (pushed q)" "popped q = pushed q" and "not_taking (popping q 0)"
  shows "popped q' = popped q" and "not_taking (popping q' 0)"
proof -
  note D = conc_invD [OF inv]
  have t: "t = 0" if "popping q t \<noteq> Pop_idle" for t using conc_inv_thread(2) [OF inv that] .
  have "popped q' = popped q \<and> not_taking (popping q' 0)"
    using step
  proof (cases rule: conc_step.cases)
    case (pop_empty t' cr k)
    then show ?thesis using t [of t'] by simp
  next
    case (pop_some t' cr k)
    with t have t': "t' = 0" by simp
    with pop_some all(1) D(1) have "k = length (pushed q)" by simp
    then have "writes q ! k = slot sz (length (pushed q))" using D(1) nth_history [of k k sz] by simp
    moreover have "cr = slot sz (length (pushed q))" using D(10) pop_some(2) all(2) t' by simp
    ultimately show ?thesis using pop_some(5) by simp
  next
    case (pop_read t' cr)
    then show ?thesis using t [of t'] assms(5) by simp
  next
    case (pop_store t' item cr)
    then show ?thesis using t [of t'] assms(5) by simp
  qed (use assms(5) in simp_all)
  then show "popped q' = popped q" "not_taking (popping q' 0)" by blast+
qed

lemma worker_inv_access:
  assumes step: "conc_step QUEUE_SIZE {} {} (log_queue s) q" and inv: "threads_inv calls s"
  shows "worker_inv (pushed q) (popped q) (popping q 0) (written s) (stop_seen s) (worker s)"
proof -
  note D = threads_invD [OF inv]
  note acc = pop_access [OF step D(1)]
  obtain xs where xs: "popped q = popped (log_queue s) @ xs" using popped_prefix [OF step] by blast
  have pd: "pushed q = pushed (log_queue s)" if "stop_seen s"
    using push_access [OF valid_QUEUE_SIZE step D(1)] stop_seen_all(2) [OF inv that] by auto
  show ?thesis
  proof (cases "worker s")
    case (Popping m)
    with D(3) acc(1) xs show ?thesis by (auto simp: worker_inv_def split: if_splits)
  next
    case (Last_popping m)
    then have w: "stop_seen s" "popped (log_queue s) = pushed (log_queue s)" "not_taking (popping (log_queue s) 0)"
      using D(3) by (simp_all add: worker_inv_def)
    from nothing_left [OF step D(1) stop_seen_all(1) [OF inv w(1)] w(2,3)] pd [OF w(1)] D(3) Last_popping
    show ?thesis by (simp add: worker_inv_def)
  qed (use D(3) acc(1) xs pd in \<open>auto simp: worker_inv_def\<close>)
qed

lemma threads_inv_access:
  assumes step: "conc_step QUEUE_SIZE {} {} (log_queue s) q" and inv: "threads_inv calls s"
  shows "threads_inv calls (s\<lparr>log_queue := q\<rparr>)"
proof -
  note D = threads_invD [OF inv]
  have inv': "conc_inv QUEUE_SIZE q"
    using conc_step_mono [OF step] valid_QUEUE_SIZE D(1) by (rule conc_inv_step)
  have acc: "pushed q = pushed (log_queue s) \<and> pending_item (pushing q 0) = pending_item (pushing (log_queue s) 0) \<or>
      pending_item (pushing q 0) = None \<and> (\<exists>x. pending_item (pushing (log_queue s) 0) = Some x \<and>
        (pushed q = pushed (log_queue s) @ [x] \<or> pushed q = pushed (log_queue s) \<and> 65536 \<le> Suc (length (pushed (log_queue s)))))"
    using push_access [OF valid_QUEUE_SIZE step D(1)] unfolding unat_QUEUE_SIZE .
  have "stopped_at s = Some (seen_writes q 0)" if "stop_seen s"
  proof -
    have "pushed q = pushed (log_queue s)" using acc stop_seen_all(2) [OF inv that] by auto
    then show ?thesis
      using D(4) [OF that] stop_seen_all(1) [OF inv that] pop_access(2) [OF step D(1)] conc_invD(5) [OF inv'] by simp
  qed
  then show ?thesis
    using inv' caller_inv_access [OF D(2) acc] worker_inv_access [OF step inv] D(5)
    by (simp add: threads_inv_def)
qed

lemma all_popped_iff:
  assumes "threads_inv calls s"
  shows "last (reads (log_queue s)) = slot QUEUE_SIZE (length (pushed (log_queue s))) \<longleftrightarrow>
    popped (log_queue s) = pushed (log_queue s)"
proof -
  note D = conc_invD [OF threads_invD(1) [OF assms]]
  have "last (reads (log_queue s)) = slot QUEUE_SIZE (length (pushed (log_queue s))) \<longleftrightarrow>
      length (popped (log_queue s)) = length (pushed (log_queue s))"
    using D(2) slot_eq_iff [OF valid_QUEUE_SIZE] conc_inv_order(1,2) [OF threads_invD(1) [OF assms]] by simp
  moreover have "length (popped (log_queue s)) = length (pushed (log_queue s)) \<longleftrightarrow>
      popped (log_queue s) = pushed (log_queue s)" using D(3) by (metis take_all_iff order_refl)
  ultimately show ?thesis by simp
qed

lemma threads_inv_worker:
  assumes inv: "threads_inv calls s" and "conc_inv QUEUE_SIZE q"
    and "pushed q = pushed (log_queue s)" and "pushing q = pushing (log_queue s)"
    and "caller s \<in> {Calling, In_push, Joining}"
    and "worker_inv (pushed q) (popped q) (popping q 0) out seen w"
    and "seen \<Longrightarrow> stopped_at s = Some (seen_writes q 0)"
  shows "threads_inv calls (s\<lparr>worker := w, stop_seen := seen, written := out, log_queue := q\<rparr>)"
  using assms threads_invD(2) [OF inv] by (auto simp: threads_inv_def)

lemma threads_inv_caller:
  assumes inv: "threads_inv calls s" and "conc_inv QUEUE_SIZE q"
    and "pushed q = pushed (log_queue s)" and "popped q = popped (log_queue s)"
    and "popping q = popping (log_queue s)" and "seen_writes q = seen_writes (log_queue s)"
    and "caller_inv calls (pushed q) (pending_item (pushing q 0)) left st c"
    and "stop_seen s \<Longrightarrow> st = stopped_at s"
    and "c \<in> {Flushing, Stopped} \<Longrightarrow> worker s = Worker_done"
  shows "threads_inv calls (s\<lparr>caller := c, to_log := left, stopped_at := st, log_queue := q\<rparr>)"
  using assms threads_invD(3,4) [OF inv] by (auto simp: threads_inv_def)

lemma take_but_last: "m < length xs \<Longrightarrow> length xs \<le> Suc m \<Longrightarrow> take m xs @ [xs ! m] = xs"
  using take_Suc_conv_app_nth [of m xs] by simp

lemma threads_inv_step:
  assumes "log_step s s'" and inv: "threads_inv calls s"
  shows "threads_inv calls s'"
proof -
  note D = threads_invD [OF inv]
  let ?q = "log_queue s"
  have busy: "caller s \<in> {Calling, In_push, Joining}" if "worker s \<noteq> Worker_done"
    using D(5) that by (cases "caller s") simp_all
  note w = threads_inv_worker [OF inv _ _ _ busy] and c = threads_inv_caller [OF inv]
  note begins = conc_inv_push_begin [OF D(1)] conc_inv_pop_begin [OF D(1)]
  from assms(1) show ?thesis
  proof (cases rule: log_step.cases)
    case (log_call m ms)
    then have "caller_inv calls (pushed ?q) (Some m) ms (stopped_at s) In_push"
      using D(2) unfolding caller_inv_def by (auto dest: kept_more [where x = m])
    then show ?thesis using c [OF begins(1), of m ms "stopped_at s" In_push] log_call by simp
  next
    case log_return
    then have "caller_inv calls (pushed ?q) (pending_item (pushing ?q 0)) (to_log s) (stopped_at s) Calling"
      using D(2) by (auto simp: caller_inv_def)
    then show ?thesis using c [OF D(1), of "to_log s" "stopped_at s" Calling] log_return D(5) by simp
  next
    case stop_call
    then have "caller_inv calls (pushed ?q) (pending_item (pushing ?q 0)) (to_log s) (Some (length (pushed ?q))) Joining"
        "stopped_at s = None"
      using D(2) by (auto simp: caller_inv_def)
    then show ?thesis
      using c [OF D(1), of "to_log s" "Some (length (pushed ?q))" Joining] D(4) conc_inv_order(3) [OF D(1)] stop_call(1)
      by auto
  next
    case join
    then have "caller_inv calls (pushed ?q) (pending_item (pushing ?q 0)) (to_log s) (stopped_at s) Flushing"
      using D(2) by (auto simp: caller_inv_def)
    then show ?thesis using c [OF D(1), of "to_log s" "stopped_at s" Flushing] join D(5) by simp
  next
    case (flush_item item)
    then have "popped ?q = pushed ?q" using D(3,5) by (simp add: worker_inv_def)
    then show ?thesis using flush_item all_popped_iff [OF inv] conc_invD(1) [OF D(1)] by simp
  next
    case flush_end
    then have "caller_inv calls (pushed ?q) (pending_item (pushing ?q 0)) (to_log s) (stopped_at s) Stopped"
      using D(2) by (auto simp: caller_inv_def)
    then show ?thesis using c [OF D(1), of "to_log s" "stopped_at s" Stopped] flush_end D(5) by simp
  next
    case (queue_access q)
    then show ?thesis using threads_inv_access [OF _ inv] by simp
  next
    case still_running
    have "threads_inv calls (s\<lparr>worker := At_pop, stop_seen := stop_seen s, written := written s, log_queue := ?q\<rparr>)"
      by (rule w) (use still_running D in \<open>auto simp: worker_inv_def take_but_last split: if_splits\<close>)
    then show ?thesis using still_running(1) by simp
  next
    case (see_stop n)
    from caller_inv_stopped [OF D(2) [unfolded see_stop(3)]] conc_invD(5) [OF D(1)]
    have n: "n = length (pushed ?q)" "max n (seen_writes ?q 0) = n" "seen_writes ?q 0 \<le> n" by simp_all
    have "threads_inv calls (s\<lparr>worker := At_empty, stop_seen := True, written := written s, log_queue := ?q\<lparr>seen_writes := (seen_writes ?q)(0 := max n (seen_writes ?q 0))\<rparr>\<rparr>)"
      by (rule w) (use see_stop D(3) n conc_inv_seen [OF D(1), of n] in \<open>auto simp: worker_inv_def take_but_last split: if_splits\<close>)
    then show ?thesis using see_stop(1) by simp
  next
    case (test_empty k)
    then have seen: "stop_seen s" using D(3) by (simp add: worker_inv_def)
    note all = stop_seen_all(1) [OF inv seen]
    have k: "k = length (pushed ?q)" using test_empty(3,4) all conc_inv_order(3) [OF D(1)] by simp
    then have "writes ?q ! k = slot QUEUE_SIZE k" using conc_invD(1) [OF D(1)] nth_history [of k k QUEUE_SIZE] by simp
    then have e: "last (reads ?q) = writes ?q ! k \<longleftrightarrow> popped ?q = pushed ?q" using all_popped_iff [OF inv] k by simp
    have "threads_inv calls (s\<lparr>worker := if last (reads ?q) = writes ?q ! k then At_last_pop else At_pop, stop_seen := stop_seen s, written := written s, log_queue := ?q\<lparr>seen_writes := (seen_writes ?q)(0 := k)\<rparr>\<rparr>)"
      by (rule w) (use test_empty D(3,4) k all seen e conc_inv_seen [OF D(1), of k] in \<open>auto simp: worker_inv_def take_but_last split: if_splits\<close>)
    then show ?thesis using test_empty(1) by simp
  next
    case pop_call
    have "threads_inv calls (s\<lparr>worker := Popping (length (popped ?q)), stop_seen := stop_seen s, written := written s, log_queue := ?q\<lparr>popping := (popping ?q)(0 := Pop_check (last (reads ?q)))\<rparr>\<rparr>)"
      by (rule w) (use pop_call D(3,4) begins(2) in \<open>auto simp: worker_inv_def take_but_last split: if_splits\<close>)
    then show ?thesis using pop_call(1) by simp
  next
    case (pop_return m)
    have "threads_inv calls (s\<lparr>worker := At_running, stop_seen := stop_seen s, written := written s @ (if m < length (popped ?q) then [popped ?q ! m] else []), log_queue := ?q\<rparr>)"
      by (rule w) (use pop_return D in \<open>auto simp: worker_inv_def take_but_last split: if_splits\<close>)
    then show ?thesis using pop_return(1) by simp
  next
    case last_pop_call
    have "threads_inv calls (s\<lparr>worker := Last_popping (length (popped ?q)), stop_seen := stop_seen s, written := written s, log_queue := ?q\<lparr>popping := (popping ?q)(0 := Pop_check (last (reads ?q)))\<rparr>\<rparr>)"
      by (rule w) (use last_pop_call D(3,4) begins(2) in \<open>auto simp: worker_inv_def take_but_last split: if_splits\<close>)
    then show ?thesis using last_pop_call(1) by simp
  next
    case (last_pop_return m)
    have "threads_inv calls (s\<lparr>worker := if m < length (popped ?q) then At_last_pop else Worker_done, stop_seen := stop_seen s, written := written s @ (if m < length (popped ?q) then [popped ?q ! m] else []), log_queue := ?q\<rparr>)"
      by (rule w) (use last_pop_return D in \<open>auto simp: worker_inv_def take_but_last split: if_splits\<close>)
    then show ?thesis using last_pop_return(1) by simp
  qed
qed

lemma threads_inv_reachable: "log_reachable b ms s \<Longrightarrow> threads_inv ms s"
  by (induction rule: log_reachable.induct) (auto intro: threads_inv_new threads_inv_step)

section \<open>Stopping\<close>

text \<open>How far the threads are from the end of \<open>stop\<close> when every load returns the newest value.\<close>

fun caller_rank :: "nat \<Rightarrow> 'm push_state \<Rightarrow> caller_state \<Rightarrow> nat" where
  "caller_rank n p Calling = 8 * n + 5"
| "caller_rank n p In_push = 8 * n + 6 + push_rank p"
| "caller_rank n p Joining = 2"
| "caller_rank n p Flushing = 1"
| "caller_rank n p Stopped = 0"

fun worker_rank :: "bool \<Rightarrow> 'm pop_state \<Rightarrow> worker_state \<Rightarrow> nat" where
  "worker_rank items p (Popping m) = pop_rank items p"
| "worker_rank items p At_running = (if items then 12 else 5)"
| "worker_rank items p At_empty = (if items then 11 else 4)"
| "worker_rank items p At_pop = 10"
| "worker_rank items p At_last_pop = 3"
| "worker_rank items p (Last_popping m) = (if p = Pop_idle then 1 else 2)"
| "worker_rank items p Worker_done = 0"

definition threads_rank :: "'m log_threads \<Rightarrow> nat" where
  "threads_rank s =
     (let q = log_queue s in
      40 * caller_rank (length (to_log s)) (pushing q 0) (caller s) + 12 * items_left q +
      worker_rank (0 < items_left q) (popping q 0) (worker s))"

lemma worker_rank_le: "worker_rank items p w \<le> 13"
  by (cases w; cases p) simp_all

text \<open>A step of the caller counts more than what its push gives the background thread to do.\<close>

lemma caller_moves:
  assumes "log_step s s'"
    and "caller_rank (length (to_log s')) (pushing (log_queue s') 0) (caller s') <
      caller_rank (length (to_log s)) (pushing (log_queue s) 0) (caller s)"
    and "items_left (log_queue s') \<le> Suc (items_left (log_queue s))"
  shows "\<exists>s'. log_step s s' \<and> threads_rank s' < threads_rank s"
proof -
  have "threads_rank s' < threads_rank s"
    unfolding threads_rank_def Let_def by (rule weighted_less [OF assms(2,3) worker_rank_le])
  with assms(1) show ?thesis by blast
qed

lemma worker_moves:
  "log_step s s' \<Longrightarrow> threads_rank s' < threads_rank s \<Longrightarrow> \<exists>s'. log_step s s' \<and> threads_rank s' < threads_rank s"
  by blast

lemma caller_progress:
  assumes inv: "threads_inv calls s" and "caller s \<in> {Calling, In_push}"
  shows "\<exists>s'. log_step s s' \<and> threads_rank s' < threads_rank s"
proof -
  consider m ms where "caller s = Calling" "to_log s = m # ms" | "caller s = Calling" "to_log s = []"
    | "caller s = In_push" "pushing (log_queue s) 0 = Push_idle"
    | "caller s = In_push" "pushing (log_queue s) 0 \<noteq> Push_idle"
    using assms(2) by (cases "to_log s") auto
  then show ?thesis
  proof cases
    case (1 m ms)
    from log_call [OF this] show ?thesis by (rule caller_moves) (use 1 in \<open>simp_all add: items_left_def\<close>)
  next
    case 2
    from stop_call [OF this] show ?thesis by (rule caller_moves) (use 2 in simp_all)
  next
    case 3
    from log_return [OF this] show ?thesis by (rule caller_moves) (use 3 in simp_all)
  next
    case 4
    from push_progress [OF threads_invD(1) [OF inv] 4(2)] obtain q where
      q: "conc_step QUEUE_SIZE {} {} (log_queue s) q" "push_rank (pushing q 0) < push_rank (pushing (log_queue s) 0)"
        "items_left q \<le> Suc (items_left (log_queue s))" .
    from queue_access [OF q(1)] show ?thesis by (rule caller_moves) (use 4 q in simp_all)
  qed
qed

lemma worker_progress:
  assumes inv: "threads_inv calls s" and join: "caller s = Joining" and "worker s \<noteq> Worker_done"
  shows "\<exists>s'. log_step s s' \<and> threads_rank s' < threads_rank s"
proof -
  note D = threads_invD [OF inv]
  let ?q = "log_queue s"
  note new = newest_position [OF valid_QUEUE_SIZE D(1)] and rank = threads_rank_def items_left_def Let_def
  have st: "stopped_at s = Some (length (pushed ?q))" using D(2) join by (simp add: caller_inv_def)
  show ?thesis
  proof (cases "worker s")
    case At_running
    from see_stop [OF this st] show ?thesis by (rule worker_moves) (simp add: rank At_running)
  next
    case At_empty
    from test_empty [OF this new(1,2)] show ?thesis
      by (rule worker_moves) (use At_empty new(3) in \<open>simp add: rank\<close>)
  next
    case At_pop
    from pop_call [OF this] show ?thesis by (rule worker_moves) (simp add: rank At_pop)
  next
    case (Popping m)
    show ?thesis
    proof (cases "popping ?q 0 = Pop_idle")
      case True
      from pop_return [OF Popping this] show ?thesis by (rule worker_moves) (simp add: rank Popping True)
    next
      case False
      from pop_progress [OF valid_QUEUE_SIZE D(1) this] obtain q where
        q: "conc_step QUEUE_SIZE {} {} ?q q" "pushing q = pushing ?q" "drain_rank q < drain_rank ?q" .
      from queue_access [OF q(1)] show ?thesis
        by (rule worker_moves) (use q(2,3) Popping in \<open>simp add: threads_rank_def drain_rank_def Let_def\<close>)
    qed
  next
    case At_last_pop
    from last_pop_call [OF this] show ?thesis by (rule worker_moves) (simp add: rank At_last_pop)
  next
    case (Last_popping m)
    then have w: "popped ?q = pushed ?q" "m = length (popped ?q)" "not_taking (popping ?q 0)"
      using D(3) by (simp_all add: worker_inv_def)
    show ?thesis
    proof (cases "popping ?q 0")
      case Pop_idle
      from last_pop_return [OF Last_popping this] show ?thesis
        by (rule worker_moves) (simp add: rank Last_popping Pop_idle w)
    next
      case (Pop_check cr)
      then have "cr = writes ?q ! length (pushed ?q)"
        using conc_invD(2,10) [OF D(1)] new(3) w(1) by (simp add: items_left_def)
      from queue_access [OF conc_step.pop_empty [OF Pop_check new(1,2) this]] show ?thesis
        by (rule worker_moves) (simp add: rank Last_popping Pop_check)
    qed (use w(3) in simp_all)
  qed (use assms(3) in simp)
qed

lemma log_no_deadlock:
  assumes inv: "threads_inv calls s" and "caller s \<noteq> Stopped"
  shows "\<exists>s'. log_step s s' \<and> threads_rank s' < threads_rank s"
proof (cases "caller s")
  case Joining
  show ?thesis
  proof (cases "worker s = Worker_done")
    case True
    from join [OF Joining this] show ?thesis by (rule caller_moves) (use Joining in simp_all)
  qed (use worker_progress [OF inv Joining] in blast)
next
  case Flushing
  then have "popped (log_queue s) = pushed (log_queue s)"
    using threads_invD(3,5) [OF inv] by (simp add: worker_inv_def)
  then have "last (reads (log_queue s)) = last (writes (log_queue s))"
    using all_popped_iff [OF inv] conc_invD(1) [OF threads_invD(1) [OF inv]] by simp
  from flush_end [OF Flushing this] show ?thesis by (rule caller_moves) (use Flushing in simp_all)
qed (use caller_progress [OF inv] assms(2) in simp_all)

interpretation stopping: progress log_step "threads_inv calls" "\<lambda>s. caller s = Stopped" threads_rank for calls
  by unfold_locales (auto intro: threads_inv_step log_no_deadlock)

section \<open>What is delivered\<close>

text \<open>C15: In every interleaving of the thread that logs and the background thread, with loads as stale as C++
  permits, what has been written so far is, in this order, a prefix of what was pushed, and some of the
  messages of the calls, in their order, nothing else. When \<open>stop\<close> has returned every message that was pushed
  is written, although the background thread may have seen the stop flag late; and if there were no more
  calls than the queue has room for, every message of every call is.\<close>

theorem concurrent_logger_delivers:
  assumes "log_reachable b ms s"
  shows "prefix (written s) (pushed (log_queue s)) \<and> subseq (pushed (log_queue s)) ms \<and>
    (caller s = Stopped \<longrightarrow> written s = pushed (log_queue s) \<and> (length ms \<le> 65535 \<longrightarrow> written s = ms))"
proof -
  note inv = threads_inv_reachable [OF assms]
  note D = threads_invD [OF inv]
  let ?q = "log_queue s"
  from D(2) obtain ended where e: "ms = ended @ to_log s" "kept (pushed ?q @ opt_list (pending_item (pushing ?q 0))) ended"
    by (auto simp: caller_inv_def)
  have "prefix (written s) (popped ?q)"
    using D(3) by (auto simp: worker_inv_def take_is_prefix split: worker_state.splits)
  moreover have "prefix (popped ?q) (pushed ?q)" using conc_invD(3) [OF D(1)] by (metis take_is_prefix)
  moreover have "subseq (pushed ?q) ms"
    using e by (auto simp: kept_def intro: subseq_order.trans [of _ "pushed ?q @ _"])
  moreover have "written s = pushed ?q \<and> (length ms \<le> 65535 \<longrightarrow> written s = ms)" if "caller s = Stopped"
    using that D(2,3,5) e by (auto simp: worker_inv_def caller_inv_def kept_def)
  ultimately show ?thesis by (blast intro: prefix_order.trans)
qed

lemma log_reachable_steps: "log_step\<^sup>*\<^sup>* s s' \<Longrightarrow> log_reachable b ms s \<Longrightarrow> log_reachable b ms s'"
  by (induction rule: rtranclp_induct) (auto intro: log_next)

theorem concurrent_logger_delivers_witness:
  "\<exists>s. log_reachable (\<lambda>_. ''old'') [''a'', ''b''] s \<and> caller s = Stopped \<and> written s = [''a'', ''b'']"
proof -
  obtain s where s: "log_step\<^sup>*\<^sup>* (threads_new (\<lambda>_. ''old'') [''a'', ''b'']) s" "caller s = Stopped"
    using stopping.can_finish [OF threads_inv_new] by blast
  from log_reachable_steps [OF s(1) log_initial] have r: "log_reachable (\<lambda>_. ''old'') [''a'', ''b''] s" .
  from concurrent_logger_delivers [OF this, THEN conjunct2, THEN conjunct2, rule_format, OF s(2), THEN conjunct2]
  have "written s = [''a'', ''b'']" by simp
  with r s(2) show ?thesis by blast
qed

text \<open>C16: \<open>stop\<close> can always return: from every state that the two threads can reach, however stale the loads
  before, there is a way on in which the calls end, the background thread empties the queue, sees the flag
  and ends, and \<open>stop\<close> returns.\<close>

theorem concurrent_logger_can_stop:
  assumes "log_reachable b ms s"
  shows "\<exists>s'. log_step\<^sup>*\<^sup>* s s' \<and> caller s' = Stopped"
  by (rule stopping.can_finish [OF threads_inv_reachable [OF assms]])

theorem concurrent_logger_can_stop_witness:
  "\<exists>s s'. log_reachable (\<lambda>_. ''old'') [''a''] s \<and> caller s = In_push \<and> log_step\<^sup>*\<^sup>* s s' \<and> caller s' = Stopped"
proof -
  have "caller (threads_new (\<lambda>_ :: 64 word. ''old'') [''a'']) = Calling"
    "to_log (threads_new (\<lambda>_ :: 64 word. ''old'') [''a'']) = ''a'' # []"
    by (simp_all add: threads_new_def)
  from log_next [OF log_initial log_call [OF this]] obtain s where
    s: "log_reachable (\<lambda>_. ''old'') [''a''] s" "caller s = In_push" by fastforce
  from concurrent_logger_can_stop [OF s(1)] s show ?thesis by blast
qed

end
