(* ===== verification/Cpp_Outcome.thy ===== *)
theory Cpp_Outcome
  imports Complex_Main
begin

text \<open>
  Results of C++ code that throws: a value, an exception derived from \<open>std::exception\<close> with the text of its
  \<open>what()\<close>, or undefined behaviour. The JSON library (nlohmann) is not part of the repository; what the code
  uses of it is a record of operations that the definitions take as a parameter.
\<close>

section \<open>Values, exceptions, undefined behaviour\<close>

datatype cpp_exception =
    Parse_error string
  | Type_error string
  | System_error string
  | Other_exception string

primrec what :: "cpp_exception \<Rightarrow> string" where
  "what (Parse_error s) = s"
| "what (Type_error s) = s"
| "what (System_error s) = s"
| "what (Other_exception s) = s"

datatype 'a outcome = Value 'a | Throws cpp_exception | Undefined

definition and_then :: "'a outcome \<Rightarrow> ('a \<Rightarrow> 'b outcome) \<Rightarrow> 'b outcome" where
  "and_then r f = (case r of Value x \<Rightarrow> f x | Throws x \<Rightarrow> Throws x | Undefined \<Rightarrow> Undefined)"

lemma and_then_simps [simp]:
  "and_then (Value x) f = f x"
  "and_then (Throws e) f = Throws e"
  "and_then Undefined f = Undefined"
  by (simp_all add: and_then_def)

lemma and_then_eq_Value_iff: "and_then r f = Value y \<longleftrightarrow> (\<exists>x. r = Value x \<and> f x = Value y)"
  by (cases r) simp_all

text \<open>The same with a state, which an exception leaves as it is at that point.\<close>

definition then_run :: "'a outcome \<times> 's \<Rightarrow> ('a \<Rightarrow> 's \<Rightarrow> 'b outcome \<times> 's) \<Rightarrow> 'b outcome \<times> 's" where
  "then_run r f =
     (case r of (Value x, s) \<Rightarrow> f x s | (Throws x, s) \<Rightarrow> (Throws x, s) | (Undefined, s) \<Rightarrow> (Undefined, s))"

lemma then_run_simps [simp]:
  "then_run (Value x, s) f = f x s"
  "then_run (Throws e, s) f = (Throws e, s)"
  "then_run (Undefined, s) f = (Undefined, s)"
  by (simp_all add: then_run_def)

text \<open>A pointer that is null where a C string is needed: \<open>std::string(nullptr)\<close> is undefined.\<close>

definition string_of_pointer :: "string option \<Rightarrow> string outcome" where
  "string_of_pointer p = (case p of None \<Rightarrow> Undefined | Some s \<Rightarrow> Value s)"

section \<open>The JSON library\<close>

text \<open>
  \<open>json_at\<close> is \<open>operator[]\<close> of a constant value, \<open>json_slot\<close> that of a variable one, which may add the key;
  \<open>json_is\<close> compares with a string; the conversions are the implicit ones.
\<close>

record 'j json_lib =
  json_parse :: "string \<Rightarrow> 'j outcome"
  json_at :: "'j \<Rightarrow> string \<Rightarrow> 'j outcome"
  json_slot :: "'j \<Rightarrow> string \<Rightarrow> 'j outcome"
  json_is :: "'j \<Rightarrow> string \<Rightarrow> bool"
  to_text :: "'j \<Rightarrow> string outcome"
  to_bool :: "'j \<Rightarrow> bool outcome"
  to_double :: "'j \<Rightarrow> rat outcome"

text \<open>
  What the documentation says of the operations. \<open>view\<close> tells what a value is: an object with its fields, a
  string, null, or something else.
\<close>

datatype 'j json_view = Object "string \<Rightarrow> 'j option" | Text string | Null | Other_json

definition json_laws :: "'j json_lib \<Rightarrow> ('j \<Rightarrow> 'j json_view) \<Rightarrow> bool" where
  "json_laws js view \<longleftrightarrow>
     (\<forall>v m k. view v = Object m \<longrightarrow> json_at js v k = (case m k of None \<Rightarrow> Undefined | Some x \<Rightarrow> Value x)) \<and>
     (\<forall>v k. (\<forall>m. view v \<noteq> Object m) \<longrightarrow> (\<exists>t. json_at js v k = Throws (Type_error t))) \<and>
     (\<forall>v m k x. view v = Object m \<longrightarrow> m k = Some x \<longrightarrow> json_slot js v k = Value x) \<and>
     (\<forall>v m k. view v = Object m \<longrightarrow> m k = None \<longrightarrow> (\<exists>x. json_slot js v k = Value x \<and> view x = Null)) \<and>
     (\<forall>v k. (\<forall>m. view v \<noteq> Object m) \<longrightarrow> view v \<noteq> Null \<longrightarrow> (\<exists>t. json_slot js v k = Throws (Type_error t))) \<and>
     (\<forall>v k. view v = Null \<longrightarrow> (\<exists>x. json_slot js v k = Value x \<and> view x = Null)) \<and>
     (\<forall>v s. view v = Text s \<longrightarrow> to_text js v = Value s) \<and>
     (\<forall>v. (\<forall>s. view v \<noteq> Text s) \<longrightarrow> (\<exists>t. to_text js v = Throws (Type_error t))) \<and>
     (\<forall>v s. view v = Text s \<longrightarrow> (\<exists>t. to_double js v = Throws (Type_error t))) \<and>
     (\<forall>v. view v = Null \<longrightarrow> (\<exists>t. to_double js v = Throws (Type_error t))) \<and>
     (\<forall>v m. view v = Object m \<longrightarrow> (\<exists>t. to_double js v = Throws (Type_error t))) \<and>
     (\<forall>v. (\<exists>d. to_double js v = Value d) \<or> (\<exists>t. to_double js v = Throws (Type_error t))) \<and>
     (\<forall>v s. json_is js v s \<longleftrightarrow> view v = Text s)"

lemma json_lawsD:
  assumes "json_laws js view"
  shows "view v = Object m \<Longrightarrow> m k = None \<Longrightarrow> json_at js v k = Undefined"
    and "view v = Object m \<Longrightarrow> m k = Some x \<Longrightarrow> json_at js v k = Value x"
    and "view v = Object m \<Longrightarrow> m k = Some x \<Longrightarrow> json_slot js v k = Value x"
    and "view v = Object m \<Longrightarrow> m k = None \<Longrightarrow> \<exists>x. json_slot js v k = Value x \<and> view x = Null"
    and "view v = Null \<Longrightarrow> \<exists>x. json_slot js v k = Value x \<and> view x = Null"
    and "view v = Text s \<Longrightarrow> to_text js v = Value s"
    and "(\<And>s. view v \<noteq> Text s) \<Longrightarrow> \<exists>t. to_text js v = Throws (Type_error t)"
    and "view v = Text s \<Longrightarrow> \<exists>t. to_double js v = Throws (Type_error t)"
    and "json_is js v s \<longleftrightarrow> view v = Text s"
    and "(\<And>m. view v \<noteq> Object m) \<Longrightarrow> view v \<noteq> Null \<Longrightarrow> \<exists>t. json_slot js v k = Throws (Type_error t)"
    and "view v = Null \<Longrightarrow> \<exists>t. to_double js v = Throws (Type_error t)"
    and "view v = Object m \<Longrightarrow> \<exists>t. to_double js v = Throws (Type_error t)"
    and "(\<exists>d. to_double js v = Value d) \<or> (\<exists>t. to_double js v = Throws (Type_error t))"
  using assms unfolding json_laws_def by simp_all

section \<open>A small JSON library\<close>

text \<open>
  Values as trees and a table of texts: an instance of the record on which the laws hold, to evaluate the
  code on. Its parser knows the texts of the table only.
\<close>

datatype tree = Fields "(string \<times> tree) list" | Str string | Number rat | Truth bool | Nothing

fun tree_view :: "tree \<Rightarrow> tree json_view" where
  "tree_view (Fields kvs) = Object (map_of kvs)"
| "tree_view (Str s) = Text s"
| "tree_view Nothing = Null"
| "tree_view (Number r) = Other_json"
| "tree_view (Truth b) = Other_json"

fun tree_at :: "tree \<Rightarrow> string \<Rightarrow> tree outcome" where
  "tree_at (Fields kvs) k = (case map_of kvs k of None \<Rightarrow> Undefined | Some x \<Rightarrow> Value x)"
| "tree_at v k = Throws (Type_error ''cannot use operator[]'')"

fun tree_slot :: "tree \<Rightarrow> string \<Rightarrow> tree outcome" where
  "tree_slot (Fields kvs) k = (case map_of kvs k of None \<Rightarrow> Value Nothing | Some x \<Rightarrow> Value x)"
| "tree_slot Nothing k = Value Nothing"
| "tree_slot v k = Throws (Type_error ''cannot use operator[]'')"

fun tree_text :: "tree \<Rightarrow> string outcome" where
  "tree_text (Str s) = Value s"
| "tree_text v = Throws (Type_error ''type must be string'')"

fun tree_bool :: "tree \<Rightarrow> bool outcome" where
  "tree_bool (Truth b) = Value b"
| "tree_bool v = Throws (Type_error ''type must be boolean'')"

fun tree_number :: "tree \<Rightarrow> rat outcome" where
  "tree_number (Number r) = Value r"
| "tree_number v = Throws (Type_error ''type must be number'')"

definition tree_json :: "(string \<times> tree) list \<Rightarrow> tree json_lib" where
  "tree_json texts = \<lparr>json_parse = (\<lambda>s. case map_of texts s of None \<Rightarrow> Throws (Parse_error ''syntax error'') | Some v \<Rightarrow> Value v),
     json_at = tree_at, json_slot = tree_slot, json_is = (\<lambda>v s. v = Str s), to_text = tree_text,
     to_bool = tree_bool, to_double = tree_number\<rparr>"

lemma tree_json_laws: "json_laws (tree_json texts) tree_view"
  unfolding json_laws_def
proof (intro conjI allI)
  fix v k
  show "(\<forall>m. tree_view v \<noteq> Object m) \<longrightarrow> (\<exists>t. json_at (tree_json texts) v k = Throws (Type_error t))"
    by (cases v) (simp_all add: tree_json_def)
  show "tree_view v = Null \<longrightarrow> (\<exists>x. json_slot (tree_json texts) v k = Value x \<and> tree_view x = Null)"
    by (cases v) (simp_all add: tree_json_def)
  show "(\<forall>m. tree_view v \<noteq> Object m) \<longrightarrow> tree_view v \<noteq> Null \<longrightarrow>
      (\<exists>t. json_slot (tree_json texts) v k = Throws (Type_error t))"
    by (cases v) (simp_all add: tree_json_def)
next
  fix v m k
  show "tree_view v = Object m \<longrightarrow>
      json_at (tree_json texts) v k = (case m k of None \<Rightarrow> Undefined | Some x \<Rightarrow> Value x)"
    by (cases v) (simp_all add: tree_json_def)
  show "tree_view v = Object m \<longrightarrow> m k = None \<longrightarrow>
      (\<exists>x. json_slot (tree_json texts) v k = Value x \<and> tree_view x = Null)"
    by (cases v) (auto simp: tree_json_def)
next
  fix v m k x
  show "tree_view v = Object m \<longrightarrow> m k = Some x \<longrightarrow> json_slot (tree_json texts) v k = Value x"
    by (cases v) (auto simp: tree_json_def)
next
  fix v
  show "(\<forall>s. tree_view v \<noteq> Text s) \<longrightarrow> (\<exists>t. to_text (tree_json texts) v = Throws (Type_error t))"
    by (cases v) (simp_all add: tree_json_def)
  show "tree_view v = Null \<longrightarrow> (\<exists>t. to_double (tree_json texts) v = Throws (Type_error t))"
    by (cases v) (simp_all add: tree_json_def)
  show "(\<exists>d. to_double (tree_json texts) v = Value d) \<or> (\<exists>t. to_double (tree_json texts) v = Throws (Type_error t))"
    by (cases v) (simp_all add: tree_json_def)
next
  fix v m
  show "tree_view v = Object m \<longrightarrow> (\<exists>t. to_double (tree_json texts) v = Throws (Type_error t))"
    by (cases v) (simp_all add: tree_json_def)
next
  fix v s
  show "tree_view v = Text s \<longrightarrow> to_text (tree_json texts) v = Value s"
    by (cases v) (simp_all add: tree_json_def)
  show "tree_view v = Text s \<longrightarrow> (\<exists>t. to_double (tree_json texts) v = Throws (Type_error t))"
    by (cases v) (simp_all add: tree_json_def)
  show "json_is (tree_json texts) v s \<longleftrightarrow> tree_view v = Text s"
    by (cases v) (simp_all add: tree_json_def)
qed

end
