(* ===== verification/Http_Client.thy ===== *)
theory Http_Client
  imports Main
begin

text \<open>
  \<open>src/src/networking/client.cpp\<close>: reading environment variables from a file, and the two requests through
  libcurl. The file, the library's initialisation and its transfer are parameters; the output of the
  program is returned as text.
\<close>

section \<open>Reading lines\<close>

text \<open>
  \<open>std::getline\<close> with a delimiter: it fails when no character is left, otherwise it extracts up to the
  delimiter, which it removes, or up to the end.
\<close>

definition getline :: "char \<Rightarrow> string \<Rightarrow> (string \<times> string) option" where
  "getline d text =
     (if text = [] then None
      else Some (takeWhile (\<lambda>c. c \<noteq> d) text, drop 1 (dropWhile (\<lambda>c. c \<noteq> d) text)))"

definition newline :: char where
  "newline = CHR 0x0A"

lemma getline_shorter: "getline d s = Some (line, rest) \<Longrightarrow> length rest < length s"
  using length_dropWhile_le [of "\<lambda>c. c \<noteq> d" s]
  by (cases s) (auto simp: getline_def split: if_splits)

section \<open>The environment\<close>

type_synonym environment = "string \<Rightarrow> string option"

definition until_nul :: "string \<Rightarrow> string" where
  "until_nul s = takeWhile (\<lambda>c. c \<noteq> CHR 0x00) s"

text \<open>\<open>setenv\<close> with overwriting: an empty name or one with an equals sign is refused.\<close>

definition setenv :: "string \<Rightarrow> string \<Rightarrow> environment \<Rightarrow> environment" where
  "setenv name val env =
     (if until_nul name = [] \<or> CHR ''='' \<in> set (until_nul name) then env
      else env(until_nul name \<mapsto> until_nul val))"

definition load_line :: "string \<Rightarrow> environment \<Rightarrow> environment" where
  "load_line line env =
     (case getline (CHR ''='') line of
        None \<Rightarrow> env
      | Some (name, rest) \<Rightarrow>
          (case getline newline rest of None \<Rightarrow> env | Some (val, _) \<Rightarrow> setenv name val env))"

function load_lines :: "string \<Rightarrow> environment \<Rightarrow> environment" where
  "load_lines text env =
     (case getline newline text of
        None \<Rightarrow> env
      | Some (line, rest) \<Rightarrow> load_lines rest (load_line line env))"
  by auto
termination
  by (relation "measure (length \<circ> fst)") (auto dest: getline_shorter)

declare load_lines.simps [simp del]

text \<open>The file is absent when it cannot be opened; the second result goes to the error stream.\<close>

definition loadEnv :: "string option \<Rightarrow> environment \<Rightarrow> environment \<times> string" where
  "loadEnv file env =
     (case file of
        None \<Rightarrow> (env, ''Failed to open .env file'' @ [newline])
      | Some text \<Rightarrow> (load_lines text env, []))"

section \<open>Requests\<close>

text \<open>The transfer hands the received blocks to the callback one after the other.\<close>

definition WriteCallback :: "string \<Rightarrow> string \<Rightarrow> string \<times> nat" where
  "WriteCallback contents buffer = (buffer @ contents, length contents)"

record curl_request =
  request_url :: string
  post_fields :: "string option"
  timeout_seconds :: nat
  verify_peer :: bool
  verify_host :: bool

record curl_outcome =
  blocks :: "string list"
  curl_error :: "string option"

record client_result =
  response :: string
  out_text :: string
  err_text :: string

definition perform_request :: "bool \<Rightarrow> (curl_request \<Rightarrow> curl_outcome) \<Rightarrow> curl_request \<Rightarrow> client_result" where
  "perform_request initialised transfer req =
     (let (body, err) =
        (if initialised
         then let outcome = transfer req
              in (fold (\<lambda>b buffer. fst (WriteCallback b buffer)) (blocks outcome) [],
                  case curl_error outcome of None \<Rightarrow> [] | Some e \<Rightarrow> ''cURL error: '' @ e @ [newline])
         else ([], ''Failed to initialize cURL'' @ [newline]))
      in \<lparr>response = body, out_text = ''Response: '' @ body @ [newline], err_text = err\<rparr>)"

definition fetchMarketData :: "bool \<Rightarrow> (curl_request \<Rightarrow> curl_outcome) \<Rightarrow> string \<Rightarrow> string \<Rightarrow> client_result" where
  "fetchMarketData initialised transfer apiKey symbol =
     perform_request initialised transfer
       \<lparr>request_url = ''https://www.alphavantage.co/query?function=TIME_SERIES_INTRADAY&symbol='' @ symbol @
          ''&interval=5min&apikey='' @ apiKey,
        post_fields = None, timeout_seconds = 10, verify_peer = False, verify_host = False\<rparr>"

text \<open>\<open>request_dump\<close> is the JSON text of the request.\<close>

definition sendRequestToServer :: "bool \<Rightarrow> (curl_request \<Rightarrow> curl_outcome) \<Rightarrow> string \<Rightarrow> string \<Rightarrow> client_result" where
  "sendRequestToServer initialised transfer serverAddress request_dump =
     perform_request initialised transfer
       \<lparr>request_url = serverAddress, post_fields = Some request_dump, timeout_seconds = 10, verify_peer = False,
        verify_host = False\<rparr>"

section \<open>Files of assignments\<close>

definition env_line :: "string \<times> string \<Rightarrow> string" where
  "env_line kv = fst kv @ ''='' @ snd kv"

definition env_file :: "(string \<times> string) list \<Rightarrow> string" where
  "env_file kvs = concat (map (\<lambda>kv. env_line kv @ [newline]) kvs)"

definition plain_name :: "string \<Rightarrow> bool" where
  "plain_name s \<longleftrightarrow> s \<noteq> [] \<and> set s \<inter> {CHR ''='', newline, CHR 0x00} = {}"

definition plain_value :: "string \<Rightarrow> bool" where
  "plain_value s \<longleftrightarrow> set s \<inter> {newline, CHR 0x00} = {}"

definition assign :: "string \<times> string \<Rightarrow> environment \<Rightarrow> environment" where
  "assign kv env = (if snd kv = [] then env else env(fst kv \<mapsto> snd kv))"

lemma takeWhile_stop: "x \<notin> set xs \<Longrightarrow> takeWhile (\<lambda>c. c \<noteq> x) (xs @ x # ys) = xs"
  by (induction xs) auto

lemma dropWhile_stop: "x \<notin> set xs \<Longrightarrow> dropWhile (\<lambda>c. c \<noteq> x) (xs @ x # ys) = x # ys"
  by (induction xs) auto

lemma takeWhile_all: "x \<notin> set xs \<Longrightarrow> takeWhile (\<lambda>c. c \<noteq> x) xs = xs"
  by (induction xs) auto

lemma dropWhile_all: "x \<notin> set xs \<Longrightarrow> dropWhile (\<lambda>c. c \<noteq> x) xs = []"
  by (induction xs) auto

lemma getline_stop: "d \<notin> set xs \<Longrightarrow> getline d (xs @ d # ys) = Some (xs, ys)"
  by (simp add: getline_def takeWhile_stop dropWhile_stop)

lemma getline_end: "d \<notin> set xs \<Longrightarrow> xs \<noteq> [] \<Longrightarrow> getline d xs = Some (xs, [])"
  by (simp add: getline_def takeWhile_all dropWhile_all)

lemma load_env_line:
  assumes "plain_name k" and "plain_value v"
  shows "load_line (env_line (k, v)) env = assign (k, v) env"
proof -
  have k: "CHR ''='' \<notin> set k" "until_nul k = k" "k \<noteq> []"
    using assms(1) by (auto simp: plain_name_def until_nul_def takeWhile_all)
  have v: "newline \<notin> set v" "until_nul v = v"
    using assms(2) by (auto simp: plain_value_def until_nul_def takeWhile_all)
  have "getline newline v = (if v = [] then None else Some (v, []))"
    using v(1) by (simp add: getline_end) (simp add: getline_def)
  then show ?thesis
    using k v by (simp add: load_line_def env_line_def getline_stop assign_def setenv_def)
qed

text \<open>C34: Loading a file of \<open>NAME=value\<close> lines makes exactly these assignments, in the order of the file, so that the
  last one wins, and a value may contain equals signs. A line with an empty value is not an
  assignment of the empty string: it leaves an older value of the name as it is.\<close>

theorem load_env_file:
  assumes "\<And>k v. (k, v) \<in> set kvs \<Longrightarrow> plain_name k \<and> plain_value v"
  shows "loadEnv (Some (env_file kvs)) env = (fold assign kvs env, [])"
proof -
  have "load_lines (env_file kvs) env = fold assign kvs env"
    using assms
  proof (induction kvs arbitrary: env)
    case Nil
    then show ?case by (simp add: env_file_def load_lines.simps getline_def)
  next
    case (Cons kv kvs)
    obtain k v where kv: "kv = (k, v)" by (cases kv)
    have p: "plain_name k" "plain_value v" using Cons.prems kv by auto
    have "newline \<notin> set (env_line kv)"
      using p by (auto simp: kv env_line_def plain_name_def plain_value_def newline_def)
    then have "getline newline (env_file (kv # kvs)) = Some (env_line kv, env_file kvs)"
      by (simp add: env_file_def getline_stop)
    moreover have "load_lines (env_file kvs) (assign kv env) = fold assign kvs (assign kv env)"
      by (rule Cons.IH) (use Cons.prems in auto)
    ultimately show ?case
      using load_env_line [OF p] by (subst load_lines.simps) (simp add: kv)
  qed
  then show ?thesis by (simp add: loadEnv_def)
qed

theorem load_env_file_witness:
  "loadEnv (Some (env_file [(''A'', ''1''), (''K'', ''x=y''), (''A'', [])])) Map.empty =
    ([''A'' \<mapsto> ''1'', ''K'' \<mapsto> ''x=y''], [])"
proof -
  have "plain_name k \<and> plain_value v" if "(k, v) \<in> set [(''A'', ''1''), (''K'', ''x=y''), (''A'', [])]" for k v
    using that by (auto simp: plain_name_def plain_value_def newline_def)
  from load_env_file [where kvs = "[(''A'', ''1''), (''K'', ''x=y''), (''A'', [])]" and env = Map.empty, OF this] show ?thesis by (simp add: assign_def)
qed

end
