(* ===== verification/Trading_Server.thy ===== *)
theory Trading_Server
  imports Cpp_Outcome Http_Client
begin

text \<open>
  \<open>src/src/networking/server.cpp\<close>: a server that accepts connections for ever, with a thread per client that
  reads requests, one JSON value per line, and answers each with a line. Boost.Asio, the JSON library
  and the order interface the file was written for (\<open>Order<double>\<close>, \<open>AddOrder\<close>, \<open>MatchOrders\<close>, which the
  repository no longer has) are parameters.
\<close>

section \<open>Requests\<close>

record ('i, 'q, 'p) placed_order =
  placed_id :: 'i
  placed_buy :: bool
  placed_quantity :: 'q
  placed_price :: 'p

text \<open>The conversions to the types of the fields, and the two calls on the server's book and matcher \<open>'e\<close>.\<close>

record ('j, 'i, 'q, 'p, 'e) order_lib =
  to_order_id :: "'j \<Rightarrow> 'i outcome"
  to_quantity :: "'j \<Rightarrow> 'q outcome"
  to_price :: "'j \<Rightarrow> 'p outcome"
  AddOrder :: "'i \<Rightarrow> 'q \<Rightarrow> 'p \<Rightarrow> bool \<Rightarrow> 'e \<Rightarrow> unit outcome \<times> 'e"
  MatchOrders :: "'e \<Rightarrow> unit outcome \<times> 'e"

definition json_field :: "'j json_lib \<Rightarrow> ('j \<Rightarrow> 'a outcome) \<Rightarrow> string \<Rightarrow> 'j \<Rightarrow> 'a outcome" where
  "json_field js conv key request = and_then (json_at js request key) conv"

definition handleMarketDataRequest :: "'j json_lib \<Rightarrow> 'j \<Rightarrow> string outcome" where
  "handleMarketDataRequest js request =
     and_then (json_field js (to_text js) ''symbol'' request) (\<lambda>symbol. Value (''Market data for '' @ symbol))"

definition read_order ::
  "'j json_lib \<Rightarrow> ('j, 'i, 'q, 'p, 'e) order_lib \<Rightarrow> 'j \<Rightarrow> ('i, 'q, 'p) placed_order outcome" where
  "read_order js ol request =
     and_then (json_field js (to_order_id ol) ''order_id'' request) (\<lambda>i.
     and_then (json_field js (to_bool js) ''is_buy_order'' request) (\<lambda>b.
     and_then (json_field js (to_quantity ol) ''quantity'' request) (\<lambda>q.
     and_then (json_field js (to_price ol) ''price'' request) (\<lambda>p.
       Value \<lparr>placed_id = i, placed_buy = b, placed_quantity = q, placed_price = p\<rparr>))))"

definition handleOrderRequest ::
  "'j json_lib \<Rightarrow> ('j, 'i, 'q, 'p, 'e) order_lib \<Rightarrow> 'j \<Rightarrow> 'e \<Rightarrow> string outcome \<times> 'e" where
  "handleOrderRequest js ol request e =
     then_run (read_order js ol request, e) (\<lambda>ord e.
     then_run (AddOrder ol (placed_id ord) (placed_quantity ord) (placed_price ord) (placed_buy ord) e) (\<lambda>_ e.
     then_run (MatchOrders ol e) (\<lambda>_ e.
       (Value ''Order placed successfully.'', e))))"

definition processRequest ::
  "'j json_lib \<Rightarrow> ('j, 'i, 'q, 'p, 'e) order_lib \<Rightarrow> 'j \<Rightarrow> 'e \<Rightarrow> string outcome \<times> 'e" where
  "processRequest js ol request e =
     (case then_run (json_at js request ''type'', e) (\<lambda>t e.
            if json_is js t ''fetch_market_data'' then (handleMarketDataRequest js request, e)
            else then_run (json_at js request ''type'', e) (\<lambda>t e.
                   if json_is js t ''place_order'' then handleOrderRequest js ol request e
                   else (Value [], e))) of
        (Throws x, e') \<Rightarrow> (Value (''Error processing request: '' @ what x), e')
      | r \<Rightarrow> r)"

section \<open>A client's thread\<close>

text \<open>
  The socket gives the bytes of \<open>received\<close> and then the exception \<open>read_end\<close>, which \<open>read_until\<close> throws when
  it cannot read up to another newline. \<open>write_error n\<close> is the exception of the \<open>n\<close>-th write, if there is one.
\<close>

record client_socket =
  received :: string
  read_end :: cpp_exception
  write_error :: "nat \<Rightarrow> cpp_exception option"

datatype client_event = Printed string | Error_printed string | Sent string

definition shown_request :: "string \<Rightarrow> client_event" where
  "shown_request line = Printed (''Received request: '' @ line @ [newline])"

definition ended_by :: "cpp_exception \<Rightarrow> client_event" where
  "ended_by x = Error_printed (''Client disconnected: '' @ what x @ [newline])"

text \<open>
  The loop ends with an exception; \<open>None\<close> says that it ran into undefined behaviour. \<open>read_until\<close> leaves
  what follows the line in the buffer, from which the next round reads first.
\<close>

function client_loop ::
  "'j json_lib \<Rightarrow> ('j, 'i, 'q, 'p, 'e) order_lib \<Rightarrow> client_socket \<Rightarrow> nat \<Rightarrow> string \<Rightarrow> 'e \<Rightarrow>
    cpp_exception option \<times> 'e \<times> client_event list" where
  "client_loop js ol sock n text e =
     (if newline \<notin> set text then (Some (read_end sock), e, [])
      else case getline newline text of
        None \<Rightarrow> (Some (read_end sock), e, [])
      | Some (line, rest) \<Rightarrow>
          if line = [] then client_loop js ol sock n rest e
          else case then_run (json_parse js line, e) (\<lambda>request. processRequest js ol request) of
            (Undefined, e') \<Rightarrow> (None, e', [shown_request line])
          | (Throws x, e') \<Rightarrow> (Some x, e', [shown_request line])
          | (Value answer, e') \<Rightarrow>
              (case write_error sock n of
                 Some x \<Rightarrow> (Some x, e', [shown_request line])
               | None \<Rightarrow>
                   let (x, e'', events) = client_loop js ol sock (Suc n) rest e'
                   in (x, e'', shown_request line # Sent (answer @ [newline]) # events)))"
  by pat_completeness auto
termination
  by (relation "measure (\<lambda>(js, ol, sock, n, text, e). length text)") (auto dest: getline_shorter)

declare client_loop.simps [simp del]

definition handleClient ::
  "'j json_lib \<Rightarrow> ('j, 'i, 'q, 'p, 'e) order_lib \<Rightarrow> client_socket \<Rightarrow> 'e \<Rightarrow> unit outcome \<times> 'e \<times> client_event list" where
  "handleClient js ol sock e =
     (case client_loop js ol sock 0 (received sock) e of
        (None, e', events) \<Rightarrow> (Undefined, e', events)
      | (Some x, e', events) \<Rightarrow> (Value (), e', events @ [ended_by x]))"

section \<open>Accepting connections\<close>

text \<open>
  Sockets are numbered in the order of their creation. \<open>pending\<close> are those of an outstanding \<open>async_accept\<close>,
  \<open>served\<close> those whose thread was started.
\<close>

record server =
  next_socket :: nat
  pending :: "nat list"
  served :: "nat list"
  server_out :: string

definition acceptConnection :: "server \<Rightarrow> server" where
  "acceptConnection s = s\<lparr>next_socket := Suc (next_socket s), pending := pending s @ [next_socket s]\<rparr>"

definition Server_new :: server where
  "Server_new = acceptConnection \<lparr>next_socket = 0, pending = [], served = [], server_out = []\<rparr>"

text \<open>
  The completion handler of \<open>async_accept\<close> for a socket; \<open>thread_error\<close> is the exception of the constructor of
  \<open>std::thread\<close>, if it throws. Then the handler ends before the next accept.
\<close>

definition accept_handler :: "bool \<Rightarrow> cpp_exception option \<Rightarrow> nat \<Rightarrow> server \<Rightarrow> unit outcome \<times> server" where
  "accept_handler failed thread_error sock s =
     then_run
       (if failed then (Value (), s)
        else let s' = s\<lparr>server_out := server_out s @ ''New client connected!'' @ [newline]\<rparr>
             in case thread_error of
                  Some x \<Rightarrow> (Throws x, s')
                | None \<Rightarrow> (Value (), s'\<lparr>served := served s' @ [sock]\<rparr>))
       (\<lambda>_ s. (Value (), acceptConnection s))"

text \<open>
  \<open>io_context::run\<close>: the completions of the accepts in their order, each for the socket that has been pending
  longest; it returns when nothing is pending, and an exception of a handler leaves it.
\<close>

fun io_run :: "(bool \<times> cpp_exception option) list \<Rightarrow> server \<Rightarrow> unit outcome \<times> server" where
  "io_run [] s = (Value (), s)"
| "io_run ((failed, thread_error) # cs) s =
     (case pending s of
        [] \<Rightarrow> (Value (), s)
      | sock # socks \<Rightarrow>
          then_run (accept_handler failed thread_error sock (s\<lparr>pending := socks\<rparr>)) (\<lambda>_. io_run cs))"

end
