(* ===== verification/Server_Theorems.thy ===== *)
theory Server_Theorems
  imports Trading_Server
begin

text \<open>
  What a client of the server sees: every line answered once and in order until one is not JSON, the
  errors of a request as answers, and the accepts. \<open>demo_orders\<close> is a small order interface to evaluate the
  server on: its engine is the list of the orders.
\<close>

section \<open>Lines and answers\<close>

definition lines_text :: "string list \<Rightarrow> string" where
  "lines_text ls = concat (map (\<lambda>l. l @ [newline]) ls)"

text \<open>The answers to requests that are processed one after the other, when none fails to be JSON.\<close>

primrec answers ::
  "'j json_lib \<Rightarrow> ('j, 'i, 'q, 'p, 'e) order_lib \<Rightarrow> string list \<Rightarrow> 'e \<Rightarrow> (string list \<times> 'e) option" where
  "answers js ol [] e = Some ([], e)"
| "answers js ol (l # ls) e =
     (case json_parse js l of
        Value request \<Rightarrow>
          (case processRequest js ol request e of
             (Value a, e') \<Rightarrow> map_option (\<lambda>(as, e''). (a # as, e'')) (answers js ol ls e')
           | _ \<Rightarrow> None)
      | _ \<Rightarrow> None)"

definition exchange :: "string list \<Rightarrow> string list \<Rightarrow> client_event list" where
  "exchange ls as = concat (map2 (\<lambda>l a. [shown_request l, Sent (a @ [newline])]) ls as)"

definition nonempty :: "string list \<Rightarrow> string list" where
  "nonempty ls = filter (\<lambda>l. l \<noteq> []) ls"

lemma client_loop_lines:
  assumes "\<forall>l \<in> set ls. newline \<notin> set l" and "answers js ol (nonempty ls) e = Some (as, e')"
    and "\<And>k. write_error sock k = None"
  shows "client_loop js ol sock n (lines_text ls @ rest) e =
    (let (x, e'', events) = client_loop js ol sock (n + length as) rest e'
     in (x, e'', exchange (nonempty ls) as @ events))"
  using assms(1,2)
proof (induction ls arbitrary: n e as)
  case Nil
  then show ?case by (simp add: nonempty_def lines_text_def exchange_def)
next
  case (Cons l ls)
  have l: "newline \<notin> set l" using Cons.prems(1) by simp
  let ?tail = "lines_text ls @ rest"
  have split: "lines_text (l # ls) @ rest = l @ newline # ?tail" by (simp add: lines_text_def)
  note loop = client_loop.simps [of js ol sock n "l @ newline # ?tail" e, unfolded getline_stop [OF l], simplified]
  show ?case
  proof (cases "l = []")
    case True
    with Cons show ?thesis unfolding split loop by (simp add: nonempty_def)
  next
    case False
    with Cons.prems(2) obtain request a e1 as' where
      s: "json_parse js l = Value request" "processRequest js ol request e = (Value a, e1)"
        "answers js ol (nonempty ls) e1 = Some (as', e')" "as = a # as'"
      by (auto simp: nonempty_def split: outcome.splits prod.splits)
    have "client_loop js ol sock (Suc n) ?tail e1 =
        (let (x, e'', events) = client_loop js ol sock (Suc n + length as') rest e'
         in (x, e'', exchange (nonempty ls) as' @ events))"
      using Cons.IH [OF _ s(3)] Cons.prems(1) by simp
    with False s assms(3) show ?thesis
      unfolding split loop by (simp add: nonempty_def exchange_def case_prod_beta Let_def)
  qed
qed

text \<open>
  How a client's thread ends when \<open>rest\<close> are the non-empty lines still to be answered and \<open>n\<close> answers have been
  written: the exception, if there is one, the engine and the last output. It ends at the end of the
  connection, at a line that is not JSON, at a request without a defined result, and at an answer that cannot be
  written.
\<close>

definition stops ::
  "'j json_lib \<Rightarrow> ('j, 'i, 'q, 'p, 'e) order_lib \<Rightarrow> client_socket \<Rightarrow> nat \<Rightarrow> string list \<Rightarrow> 'e \<Rightarrow>
    cpp_exception option \<times> 'e \<times> client_event list \<Rightarrow> bool" where
  "stops js ol sock n rest e ending \<longleftrightarrow>
     (case rest of
        [] \<Rightarrow> ending = (Some (read_end sock), e, [])
      | l # _ \<Rightarrow>
          (case json_parse js l of
             Throws x \<Rightarrow> ending = (Some x, e, [shown_request l])
           | Undefined \<Rightarrow> ending = (None, e, [shown_request l])
           | Value request \<Rightarrow>
               (case processRequest js ol request e of
                  (Undefined, e') \<Rightarrow> ending = (None, e', [shown_request l])
                | (Value a, e') \<Rightarrow> \<exists>x. write_error sock n = Some x \<and> ending = (Some x, e', [shown_request l])
                | (Throws x, e') \<Rightarrow> False)))"

lemma processRequest_no_throw: "processRequest js ol request e \<noteq> (Throws x, e')"
  by (auto simp: processRequest_def split: outcome.splits prod.splits)

lemma client_loop_stops:
  assumes "\<forall>l \<in> set ls. newline \<notin> set l" and "newline \<notin> set unfinished"
  shows "\<exists>k as e1 x e2 last. k \<le> length (nonempty ls) \<and> answers js ol (take k (nonempty ls)) e = Some (as, e1) \<and>
    (\<forall>i < k. write_error sock (n + i) = None) \<and> stops js ol sock (n + k) (drop k (nonempty ls)) e1 (x, e2, last) \<and>
    client_loop js ol sock n (lines_text ls @ unfinished) e = (x, e2, exchange (take k (nonempty ls)) as @ last)"
  using assms(1)
proof (induction ls arbitrary: n e)
  case Nil
  then show ?case
    using assms(2) by (simp add: nonempty_def lines_text_def exchange_def client_loop.simps [of _ _ _ _ unfinished] stops_def)
next
  case (Cons l ls)
  have l: "newline \<notin> set l" using Cons.prems by simp
  let ?tail = "lines_text ls @ unfinished"
  have split: "lines_text (l # ls) @ unfinished = l @ newline # ?tail" by (simp add: lines_text_def)
  note loop = client_loop.simps [of js ol sock n "l @ newline # ?tail" e, unfolded getline_stop [OF l], simplified]
  show ?case
  proof (cases "l = []")
    case True
    then show ?thesis using Cons unfolding split loop by (simp add: nonempty_def)
  next
    case False
    then have ne: "nonempty (l # ls) = l # nonempty ls" by (simp add: nonempty_def)
    show ?thesis
    proof (cases "\<exists>request a e1. json_parse js l = Value request \<and> processRequest js ol request e = (Value a, e1) \<and>
        write_error sock n = None")
      case True
      then obtain request a e1 where s: "json_parse js l = Value request" "processRequest js ol request e = (Value a, e1)"
        "write_error sock n = None" by blast
      from Cons.IH [of e1 "Suc n"] Cons.prems obtain k as e2 x e3 last where
        k: "k \<le> length (nonempty ls)" "answers js ol (take k (nonempty ls)) e1 = Some (as, e2)"
        "\<forall>i < k. write_error sock (Suc n + i) = None" "stops js ol sock (Suc n + k) (drop k (nonempty ls)) e2 (x, e3, last)"
        "client_loop js ol sock (Suc n) ?tail e1 = (x, e3, exchange (take k (nonempty ls)) as @ last)"
        by auto
      have "\<forall>i < Suc k. write_error sock (n + i) = None" using k(3) s(3) by (auto simp: less_Suc_eq_0_disj)
      with k s False show ?thesis
        unfolding split loop ne
        by (intro exI [of _ "Suc k"] exI [of _ "a # as"] exI [of _ e2] exI [of _ x] exI [of _ e3] exI [of _ last])
          (simp add: exchange_def)
    next
      case failed: False
      have "\<exists>x e2 last. stops js ol sock n (l # nonempty ls) e (x, e2, last) \<and>
          client_loop js ol sock n (l @ newline # ?tail) e = (x, e2, last)"
      proof (cases "json_parse js l")
        case (Value request)
        obtain o' e' where p: "processRequest js ol request e = (o', e')" by (cases "processRequest js ol request e")
        show ?thesis
        proof (cases o')
          case v: (Value a)
          then have "write_error sock n \<noteq> None" using failed Value p v by auto
          then obtain x where "write_error sock n = Some x" by blast
          with False Value p v show ?thesis unfolding loop by (simp add: stops_def)
        next
          case (Throws x)
          then show ?thesis using p processRequest_no_throw by metis
        qed (use False Value p in \<open>simp add: loop stops_def\<close>)
      qed (use False in \<open>simp_all add: loop stops_def\<close>)
      then show ?thesis unfolding split ne
        by (intro exI [of _ 0]) (simp add: exchange_def)
    qed
  qed
qed

text \<open>C35: A client's thread answers the non-empty lines that it receives one by one, each exactly once and in the order of
  the lines, each on the book that the requests before it have left, until it ends. It ends at the first line that
  is not JSON, at the first request without a defined result, at the first answer that cannot be written, or when all
  whole lines are answered and the connection ends; what was received of an unfinished line is dropped. Every
  end but the undefined one is reported with its reason, and no line after it has any effect.\<close>

theorem server_answers_in_order:
  assumes "received sock = lines_text ls @ unfinished" and "\<forall>l \<in> set ls. newline \<notin> set l" and "newline \<notin> set unfinished"
  shows "\<exists>k as e1 x e2 last. k \<le> length (nonempty ls) \<and> answers js ol (take k (nonempty ls)) e = Some (as, e1) \<and>
    (\<forall>i < k. write_error sock i = None) \<and> stops js ol sock k (drop k (nonempty ls)) e1 (x, e2, last) \<and>
    handleClient js ol sock e =
      (case x of
         None \<Rightarrow> (Undefined, e2, exchange (take k (nonempty ls)) as @ last)
       | Some ex \<Rightarrow> (Value (), e2, exchange (take k (nonempty ls)) as @ last @ [ended_by ex]))"
proof -
  obtain k as e1 x e2 last where k: "k \<le> length (nonempty ls)" "answers js ol (take k (nonempty ls)) e = Some (as, e1)"
    "\<forall>i < k. write_error sock i = None" "stops js ol sock k (drop k (nonempty ls)) e1 (x, e2, last)"
    "client_loop js ol sock 0 (lines_text ls @ unfinished) e = (x, e2, exchange (take k (nonempty ls)) as @ last)"
    using client_loop_stops [OF assms(2,3), of js ol e sock 0] by auto
  then show ?thesis
    by (intro exI [of _ k] exI [of _ as] exI [of _ e1] exI [of _ x] exI [of _ e2] exI [of _ last])
      (simp add: handleClient_def assms(1) split: option.split)
qed

text \<open>The first line that is not JSON ends the connection: the requests before it are answered, it and
  everything after it are not, although the rest of the class turns errors into answers. This is what happens
  to the HTTP request that the repository's own client sends, at its request line.\<close>

theorem malformed_line_disconnects:
  assumes "received sock = lines_text ls @ bad @ newline # later" and "\<forall>l \<in> set ls. newline \<notin> set l"
    and "newline \<notin> set bad" and "bad \<noteq> []" and "json_parse js bad = Throws x"
    and "answers js ol (nonempty ls) e = Some (as, e')" and "\<And>k. write_error sock k = None"
  shows "handleClient js ol sock e = (Value (), e', exchange (nonempty ls) as @ [shown_request bad, ended_by x])"
  using client_loop_lines [OF assms(2,6,7), where rest = "bad @ newline # later" and n = 0] assms(1,4,5)
  by (simp add: handleClient_def client_loop.simps [of _ _ _ _ "bad @ newline # later"] getline_stop [OF assms(3)])

section \<open>The branches of a request\<close>

lemma market_data_branch:
  assumes laws: "json_laws js view" and obj: "view request = Object m"
    and t: "json_at js request ''type'' = Value t" "view t = Text ''fetch_market_data''"
  shows "(case m ''symbol'' of
      None \<Rightarrow> processRequest js ol request e = (Undefined, e)
    | Some v \<Rightarrow>
        (case view v of
           Text s \<Rightarrow> processRequest js ol request e = (Value (''Market data for '' @ s), e)
         | _ \<Rightarrow> \<exists>x. processRequest js ol request e = (Value (''Error processing request: '' @ x), e)))"
proof (cases "m ''symbol''")
  case None
  with t json_lawsD(9) [OF laws] json_lawsD(1) [OF laws obj] show ?thesis
    by (simp add: processRequest_def handleMarketDataRequest_def json_field_def)
next
  case (Some v)
  note at = json_lawsD(2) [OF laws obj Some]
  show ?thesis
  proof (cases "\<exists>s. view v = Text s")
    case True
    with t json_lawsD(6,9) [OF laws] at Some show ?thesis
      by (auto simp: processRequest_def handleMarketDataRequest_def json_field_def)
  next
    case False
    then obtain x where "to_text js v = Throws (Type_error x)" using json_lawsD(7) [OF laws, of v] by blast
    with t json_lawsD(9) [OF laws] at have
      "processRequest js ol request e = (Value (''Error processing request: '' @ x), e)"
      by (simp add: processRequest_def handleMarketDataRequest_def json_field_def)
    with False Some show ?thesis by (auto split: json_view.splits)
  qed
qed

lemma not_an_object:
  assumes "json_laws js view" and "\<And>m. view request \<noteq> Object m"
  shows "\<exists>x. processRequest js ol request e = (Value (''Error processing request: '' @ x), e)"
proof -
  obtain x where "json_at js request ''type'' = Throws (Type_error x)"
    using assms unfolding json_laws_def by metis
  then show ?thesis by (simp add: processRequest_def)
qed

text \<open>Reading a field: the constant \<open>operator[]\<close> is undefined where the key is missing.\<close>

definition field :: "('j \<Rightarrow> 'a outcome) \<Rightarrow> 'j option \<Rightarrow> 'a outcome" where
  "field conv v = (case v of None \<Rightarrow> Undefined | Some x \<Rightarrow> conv x)"

lemma json_field_view:
  assumes "json_laws js view" and "view request = Object m"
  shows "json_field js conv key request = field conv (m key)"
  using json_lawsD(1,2) [OF assms] by (cases "m key") (simp_all add: json_field_def field_def)

definition error_answer :: "cpp_exception \<Rightarrow> string" where
  "error_answer x = ''Error processing request: '' @ what x"

lemma place_order_branch:
  assumes laws: "json_laws js view" and obj: "view request = Object m"
    and t: "json_at js request ''type'' = Value t" "view t = Text ''place_order''"
  shows "processRequest js ol request e =
    (case and_then (field (to_order_id ol) (m ''order_id'')) (\<lambda>i.
       and_then (field (to_bool js) (m ''is_buy_order'')) (\<lambda>b.
       and_then (field (to_quantity ol) (m ''quantity'')) (\<lambda>q.
       and_then (field (to_price ol) (m ''price'')) (\<lambda>p. Value (i, b, q, p))))) of
       Undefined \<Rightarrow> (Undefined, e)
     | Throws x \<Rightarrow> (Value (error_answer x), e)
     | Value (i, b, q, p) \<Rightarrow>
         (case AddOrder ol i q p b e of
            (Undefined, e1) \<Rightarrow> (Undefined, e1)
          | (Throws x, e1) \<Rightarrow> (Value (error_answer x), e1)
          | (Value _, e1) \<Rightarrow>
              (case MatchOrders ol e1 of
                 (Undefined, e2) \<Rightarrow> (Undefined, e2)
               | (Throws x, e2) \<Rightarrow> (Value (error_answer x), e2)
               | (Value _, e2) \<Rightarrow> (Value ''Order placed successfully.'', e2))))"
proof -
  have place: "processRequest js ol request e =
      (case handleOrderRequest js ol request e of
         (Throws x, e') \<Rightarrow> (Value (error_answer x), e') | r \<Rightarrow> r)"
    using t json_lawsD(9) [OF laws] by (simp add: processRequest_def error_answer_def split: outcome.split prod.split)
  show ?thesis
    unfolding place handleOrderRequest_def read_order_def json_field_view [OF laws obj]
    by (auto simp: and_then_def then_run_def split: outcome.split prod.split)
qed

text \<open>C36: What a request is answered, on every branch, by the documented behaviour of the JSON library. A quote
  needs a symbol that is a string. An order is placed with the number, the side, the quantity and the price of the
  fields of these names, read in this order; when one of them does not convert, the answer is its error and
  the book is as it was; an exception of \<open>AddOrder\<close> or \<open>MatchOrders\<close> is answered too, and leaves what they had
  done. Another type gets an empty answer. But the error handling has a hole: a missing field, the \<open>type\<close> or
  another, makes the constant \<open>operator[]\<close> undefined instead of throwing.\<close>

theorem processRequest_branches:
  assumes laws: "json_laws js view"
  shows "(case view request of
      Object m \<Rightarrow>
        (case m ''type'' of
           None \<Rightarrow> processRequest js ol request e = (Undefined, e)
         | Some t \<Rightarrow>
             (view t = Text ''fetch_market_data'' \<longrightarrow>
               (case m ''symbol'' of
                  None \<Rightarrow> processRequest js ol request e = (Undefined, e)
                | Some v \<Rightarrow>
                    (case view v of
                       Text s \<Rightarrow> processRequest js ol request e = (Value (''Market data for '' @ s), e)
                     | _ \<Rightarrow> \<exists>x. processRequest js ol request e = (Value (''Error processing request: '' @ x), e)))) \<and>
             (view t = Text ''place_order'' \<longrightarrow>
               processRequest js ol request e =
                 (case and_then (field (to_order_id ol) (m ''order_id'')) (\<lambda>i.
                    and_then (field (to_bool js) (m ''is_buy_order'')) (\<lambda>b.
                    and_then (field (to_quantity ol) (m ''quantity'')) (\<lambda>q.
                    and_then (field (to_price ol) (m ''price'')) (\<lambda>p. Value (i, b, q, p))))) of
                    Undefined \<Rightarrow> (Undefined, e)
                  | Throws x \<Rightarrow> (Value (error_answer x), e)
                  | Value (i, b, q, p) \<Rightarrow>
                      (case AddOrder ol i q p b e of
                         (Undefined, e1) \<Rightarrow> (Undefined, e1)
                       | (Throws x, e1) \<Rightarrow> (Value (error_answer x), e1)
                       | (Value _, e1) \<Rightarrow>
                           (case MatchOrders ol e1 of
                              (Undefined, e2) \<Rightarrow> (Undefined, e2)
                            | (Throws x, e2) \<Rightarrow> (Value (error_answer x), e2)
                            | (Value _, e2) \<Rightarrow> (Value ''Order placed successfully.'', e2))))) \<and>
             (view t \<noteq> Text ''fetch_market_data'' \<and> view t \<noteq> Text ''place_order'' \<longrightarrow>
               processRequest js ol request e = (Value [], e)))
    | _ \<Rightarrow> \<exists>x. processRequest js ol request e = (Value (''Error processing request: '' @ x), e))"
proof (cases "view request")
  case (Object m)
  show ?thesis
  proof (cases "m ''type''")
    case None
    with Object json_lawsD(1) [OF laws Object] show ?thesis by (simp add: processRequest_def)
  next
    case (Some t)
    have at: "json_at js request ''type'' = Value t" using json_lawsD(2) [OF laws Object Some] .
    have other: "processRequest js ol request e = (Value [], e)"
      if "view t \<noteq> Text ''fetch_market_data''" and "view t \<noteq> Text ''place_order''"
      using that at json_lawsD(9) [OF laws] by (simp add: processRequest_def)
    show ?thesis unfolding Object json_view.case Some option.case(2)
    proof (intro conjI impI)
      show "processRequest js ol request e = (Value [], e)"
        if "view t \<noteq> Text ''fetch_market_data'' \<and> view t \<noteq> Text ''place_order''"
        using that other by blast
    qed (rule market_data_branch [OF laws Object at] place_order_branch [OF laws Object at], assumption)+
  qed
qed (use not_an_object [OF laws, of request ol e] in simp_all)

section \<open>The accepts\<close>

definition greeting :: string where
  "greeting = ''New client connected!'' @ [newline]"

lemma io_run_append: "fst (io_run cs s) = Value () \<Longrightarrow> pending (snd (io_run cs s)) \<noteq> [] \<Longrightarrow>
    io_run (cs @ cs') s = io_run cs' (snd (io_run cs s))"
proof (induction cs s rule: io_run.induct)
  case (2 failed thread_error cs s)
  then show ?case
    by (cases "pending s"; cases "accept_handler failed thread_error (hd (pending s)) (s\<lparr>pending := tl (pending s)\<rparr>)";
        cases "fst (accept_handler failed thread_error (hd (pending s)) (s\<lparr>pending := tl (pending s)\<rparr>))") auto
qed simp

lemma accept_handler_ok:
  "accept_handler failed None sock s = (Value (), acceptConnection
     (if failed then s else s\<lparr>server_out := server_out s @ greeting, served := served s @ [sock]\<rparr>))"
  by (simp add: accept_handler_def greeting_def)

lemma io_run_Nil: "io_run [] = Pair (Value ())"
  by (rule ext) simp

lemma io_run_snoc:
  assumes "io_run cs s = (Value (), s')" and "pending s' = [sock]"
  shows "io_run (cs @ [(failed, thread_error)]) s = accept_handler failed thread_error sock (s'\<lparr>pending := []\<rparr>)"
proof -
  have "then_run r (\<lambda>_. Pair (Value ())) = r" for r :: "unit outcome \<times> server"
    by (cases r; cases "fst r") auto
  with assms io_run_append [of cs s] show ?thesis by (simp add: io_run_Nil)
qed

lemma io_run_accepts:
  assumes "\<forall>c \<in> set cs. snd c = None"
  shows "io_run cs Server_new =
    (Value (), \<lparr>next_socket = Suc (length cs), pending = [length cs],
       served = filter (\<lambda>i. \<not> fst (cs ! i)) [0..<length cs],
       server_out = concat (replicate (length (filter (\<lambda>c. \<not> fst c) cs)) greeting)\<rparr>)"
  using assms
proof (induction cs rule: rev_induct)
  case Nil
  then show ?case by (simp add: Server_new_def acceptConnection_def)
next
  case (snoc c cs)
  obtain failed where c: "c = (failed, None)" using snoc.prems by (cases c) auto
  have old: "filter (\<lambda>i. \<not> fst ((cs @ [c]) ! i)) [0..<length cs] = filter (\<lambda>i. \<not> fst (cs ! i)) [0..<length cs]"
    by (rule filter_cong) (simp_all add: nth_append)
  have app: "concat (replicate n greeting) @ greeting = greeting @ concat (replicate n greeting)" for n
    by (induction n) simp_all
  have "io_run (cs @ [c]) Server_new = accept_handler failed None (length cs)
      \<lparr>next_socket = Suc (length cs), pending = [], served = filter (\<lambda>i. \<not> fst (cs ! i)) [0..<length cs],
       server_out = concat (replicate (length (filter (\<lambda>c. \<not> fst c) cs)) greeting)\<rparr>"
    using io_run_snoc [OF snoc.IH, of "length cs"] snoc.prems by (simp add: c)
  then show ?case
    using old by (simp add: c accept_handler_ok acceptConnection_def app nth_append)
qed

text \<open>C37: Exactly one accept is outstanding at all times, every connection that was accepted is handed to one
  thread, in the order of the connections, and failed accepts are skipped: as long as threads can be started
  the server never stops accepting. When one cannot, the exception leaves the handler before the next accept,
  and nothing is accepted any more.\<close>

theorem server_keeps_accepting:
  assumes "\<forall>c \<in> set cs. snd c = None"
  shows "io_run cs Server_new =
      (Value (), \<lparr>next_socket = Suc (length cs), pending = [length cs],
         served = filter (\<lambda>i. \<not> fst (cs ! i)) [0..<length cs],
         server_out = concat (replicate (length (filter (\<lambda>c. \<not> fst c) cs)) greeting)\<rparr>) \<and>
    fst (io_run (cs @ (False, Some x) # later) Server_new) = Throws x \<and>
    pending (snd (io_run (cs @ (False, Some x) # later) Server_new)) = []"
  using io_run_accepts [OF assms] io_run_append [of cs Server_new "(False, Some x) # later"]
  by (simp add: accept_handler_def)

theorem server_keeps_accepting_witness:
  "io_run [(False, None), (True, None), (False, None)] Server_new =
    (Value (), \<lparr>next_socket = 4, pending = [3], served = [0, 2], server_out = greeting @ greeting\<rparr>)"
  using server_keeps_accepting [of "[(False, None), (True, None), (False, None)]"] by (simp add: upt_rec)

section \<open>A concrete server\<close>

type_synonym demo_engine = "(rat \<times> rat \<times> rat \<times> bool) list"

definition demo_orders :: "(tree, rat, rat, rat, demo_engine) order_lib" where
  "demo_orders = \<lparr>to_order_id = tree_number, to_quantity = tree_number, to_price = tree_number,
     AddOrder = (\<lambda>i q p b e. (Value (), e @ [(i, q, p, b)])), MatchOrders = (\<lambda>e. (Value (), e))\<rparr>"

definition order_request :: tree where
  "order_request = Fields [(''type'', Str ''place_order''), (''order_id'', Number 1), (''is_buy_order'', Truth True),
     (''quantity'', Number 10), (''price'', Number 145), (''symbol'', Str ''IBM'')]"

definition quote_request :: tree where
  "quote_request = Fields [(''type'', Str ''fetch_market_data''), (''symbol'', Str ''IBM'')]"

definition demo_json :: "tree json_lib" where
  "demo_json = tree_json [(''order'', order_request), (''quote'', quote_request)]"

lemma demo_json_simps:
  "json_parse demo_json ''order'' = Value order_request" "json_parse demo_json ''quote'' = Value quote_request"
  "json_parse demo_json ''POST /'' = Throws (Parse_error ''syntax error'')"
  "json_at demo_json = tree_at" "json_is demo_json = (\<lambda>v s. v = Str s)" "to_text demo_json = tree_text"
  "to_bool demo_json = tree_bool"
  by (simp_all add: demo_json_def tree_json_def)

lemma demo_answers:
  "answers demo_json demo_orders (nonempty [''quote'', [], ''order'']) [] =
    Some ([''Market data for IBM'', ''Order placed successfully.''], [(1, 10, 145, True)])"
  by (simp add: nonempty_def demo_json_simps processRequest_def handleMarketDataRequest_def handleOrderRequest_def
      read_order_def json_field_def quote_request_def order_request_def demo_orders_def)

definition demo_socket :: "string \<Rightarrow> client_socket" where
  "demo_socket s = \<lparr>received = s, read_end = System_error ''End of file'', write_error = (\<lambda>_. None)\<rparr>"

text \<open>Two requests, the second after an empty line, and then a line that is not JSON.\<close>

theorem server_answers_in_order_witness:
  "handleClient demo_json demo_orders (demo_socket (lines_text [''quote'', [], ''order'', ''POST /''] @ ''ord'')) [] =
    (Value (), [(1, 10, 145, True)],
     [shown_request ''quote'', Sent (''Market data for IBM'' @ [newline]),
      shown_request ''order'', Sent (''Order placed successfully.'' @ [newline]),
      shown_request ''POST /'', ended_by (Parse_error ''syntax error'')])"
proof -
  let ?sock = "demo_socket (lines_text [''quote'', [], ''order'', ''POST /''] @ ''ord'')"
  let ?ls = "nonempty [''quote'', [], ''order'', ''POST /'']"
  have ls: "?ls = [''quote'', ''order'', ''POST /'']" by (simp add: nonempty_def)
  have w: "write_error ?sock n = None" for n by (simp add: demo_socket_def)
  have q: "processRequest demo_json demo_orders quote_request [] = (Value ''Market data for IBM'', [])"
    "processRequest demo_json demo_orders order_request [] = (Value ''Order placed successfully.'', [(1, 10, 145, True)])"
    by (simp_all add: demo_json_simps processRequest_def handleMarketDataRequest_def handleOrderRequest_def
      read_order_def json_field_def quote_request_def order_request_def demo_orders_def)
  obtain k as e1 x e2 last where k: "k \<le> length ?ls" "answers demo_json demo_orders (take k ?ls) [] = Some (as, e1)"
    "stops demo_json demo_orders ?sock k (drop k ?ls) e1 (x, e2, last)"
    "handleClient demo_json demo_orders ?sock [] =
      (case x of
         None \<Rightarrow> (Undefined, e2, exchange (take k ?ls) as @ last)
       | Some ex \<Rightarrow> (Value (), e2, exchange (take k ?ls) as @ last @ [ended_by ex]))"
    using server_answers_in_order [where sock = ?sock and ls = "[''quote'', [], ''order'', ''POST /'']"
        and unfinished = "''ord''" and js = demo_json and ol = demo_orders and e = "[]"]
    by (auto simp: demo_socket_def newline_def)
  have "k = 0 \<or> k = 1 \<or> k = 2 \<or> k = 3" using k(1) by (auto simp: ls)
  then show ?thesis
  proof (elim disjE)
    assume "k = 2"
    with k show ?thesis by (auto simp: ls stops_def w demo_json_simps q exchange_def)
  qed (use k in \<open>simp_all add: ls stops_def w demo_json_simps q\<close>)
qed

theorem malformed_line_disconnects_witness:
  "handleClient demo_json demo_orders (demo_socket (lines_text [''quote'', ''order''] @ ''POST /'' @ newline # ''order'' @ [newline])) [] =
    (Value (), [(1, 10, 145, True)],
     [shown_request ''quote'', Sent (''Market data for IBM'' @ [newline]),
      shown_request ''order'', Sent (''Order placed successfully.'' @ [newline]),
      shown_request ''POST /'', ended_by (Parse_error ''syntax error'')])"
  using malformed_line_disconnects [where ls = "[''quote'', ''order'']" and bad = "''POST /''" and e = "[]"
      and later = "''order'' @ [newline]"
      and sock = "demo_socket (lines_text [''quote'', ''order''] @ ''POST /'' @ newline # ''order'' @ [newline])"
      and js = demo_json and ol = demo_orders, OF _ _ _ _ demo_json_simps(3) _]
    demo_answers
  by (simp add: demo_socket_def newline_def exchange_def nonempty_def)

theorem processRequest_branches_witness:
  "processRequest demo_json demo_orders (Fields [(''order_id'', Number 1)]) [] = (Undefined, []) \<and>
   processRequest demo_json demo_orders quote_request [] = (Value ''Market data for IBM'', []) \<and>
   processRequest demo_json demo_orders order_request [] = (Value ''Order placed successfully.'', [(1, 10, 145, True)])"
proof (intro conjI)
  have laws: "json_laws demo_json tree_view" unfolding demo_json_def by (rule tree_json_laws)
  note P = processRequest_branches [OF laws, where ol = demo_orders and e = "[]"]
  from P [of "Fields [(''order_id'', Number 1)]"]
  show "processRequest demo_json demo_orders (Fields [(''order_id'', Number 1)]) [] = (Undefined, [])" by simp
  from P [of quote_request]
  show "processRequest demo_json demo_orders quote_request [] = (Value ''Market data for IBM'', [])"
    by (simp add: quote_request_def)
  from P [of order_request]
  show "processRequest demo_json demo_orders order_request [] = (Value ''Order placed successfully.'', [(1, 10, 145, True)])"
    by (simp add: order_request_def field_def demo_orders_def demo_json_simps)
qed

end
