(* ===== verification/Binary64.thy ===== *)
theory Binary64
  imports Complex_Main "HOL-Library.Log_Nat" Int64
begin

text \<open>
  The type \<open>double\<close> as far as the code uses it: finite IEEE 754 binary64 numbers are rationals, and an
  operation rounds the exact result to 53 significant bits, half to even, with the subnormal spacing
  below. Infinities and NaN do not occur: the conversion of a number beyond the range of \<open>int64_t\<close> is
  undefined behaviour, a fault here, long before a \<open>double\<close> overflows.
\<close>

type_synonym float64 = rat

section \<open>Rounding\<close>

text \<open>The exponent \<open>e\<close> with \<open>2 ^ e \<le> x < 2 ^ (e + 1)\<close>, for positive \<open>x\<close>.\<close>

definition binade :: "rat \<Rightarrow> int" where
  "binade x =
     (let (n, d) = quotient_of x; e = int (floorlog 2 (nat n)) - int (floorlog 2 (nat d))
      in if 2 powi e \<le> x then e else e - 1)"

definition round_half_even :: "rat \<Rightarrow> int" where
  "round_half_even x =
     (let f = \<lfloor>x\<rfloor>; r = x - of_int f
      in if r < 1 / 2 then f else if 1 / 2 < r then f + 1 else if even f then f else f + 1)"

definition fround :: "rat \<Rightarrow> float64" where
  "fround x =
     (if x = 0 then 0
      else let u = 2 powi (max (binade \<bar>x\<bar> - 52) (- 1074))
           in of_int (round_half_even (x / u)) * u)"

definition fadd :: "float64 \<Rightarrow> float64 \<Rightarrow> float64" where
  "fadd x y = fround (x + y)"

definition fmul :: "float64 \<Rightarrow> float64 \<Rightarrow> float64" where
  "fmul x y = fround (x * y)"

definition fdiv :: "float64 \<Rightarrow> float64 \<Rightarrow> float64" where
  "fdiv x y = fround (x / y)"

text \<open>Conversions from and to integers; the latter truncates, and must be in range.\<close>

definition float_of_int :: "int \<Rightarrow> float64" where
  "float_of_int n = fround (of_int n)"

definition trunc_float :: "float64 \<Rightarrow> int" where
  "trunc_float x = (if x < 0 then - \<lfloor>- x\<rfloor> else \<lfloor>x\<rfloor>)"

definition float_to_i64 :: "float64 \<Rightarrow> i64 res" where
  "float_to_i64 x = (if in_i64 (trunc_float x) then Inr (i64_of (trunc_float x)) else Inl OutOfRange)"

section \<open>The error of rounding\<close>

lemma floorlog_bounds: "0 < n \<Longrightarrow> 2 ^ (floorlog 2 n - 1) \<le> n \<and> n < 2 ^ floorlog 2 n"
  using floorlog_bounds [of n 2] by simp

lemma binade_bounds:
  assumes "0 < x"
  shows "2 powi binade x \<le> x" and "x < 2 powi (binade x + 1)"
proof -
  obtain n d where q: "quotient_of x = (n, d)" by (cases "quotient_of x")
  then have d: "0 < d" and x: "x = of_int n / of_int d"
    by (simp_all add: quotient_of_denom_pos quotient_of_div)
  with assms have n: "0 < n" by (simp add: zero_less_divide_iff)
  define a where "a = floorlog 2 (nat n)"
  define b where "b = floorlog 2 (nat d)"
  have a: "2 ^ (a - 1) \<le> nat n" "nat n < 2 ^ a" and b: "2 ^ (b - 1) \<le> nat d" "nat d < 2 ^ b"
    using floorlog_bounds [of "nat n"] floorlog_bounds [of "nat d"] n d by (simp_all add: a_def b_def)
  have pos: "0 < a" "0 < b" using a(2) b(2) n d by (cases a; cases b; simp)+
  have na: "(2 :: rat) ^ (a - 1) \<le> of_int n" "of_int n < (2 :: rat) ^ a"
    using a n by (simp_all add: le_nat_iff nat_less_iff)
  have db: "(2 :: rat) ^ (b - 1) \<le> of_int d" "of_int d < (2 :: rat) ^ b"
    using b d by (simp_all add: le_nat_iff nat_less_iff)
  let ?E = "int a - int b"
  have powi_diff: "(2 :: rat) powi (int i - int j) = 2 ^ i / 2 ^ j" for i j
    by (simp add: power_int_diff)
  have "?E - 1 = int (a - 1) - int b" "?E + 1 = int a - int (b - 1)" using pos by simp_all
  then have half: "(2 :: rat) powi (?E - 1) = 2 ^ (a - 1) / 2 ^ b"
    and double: "(2 :: rat) powi (?E + 1) = 2 ^ a / 2 ^ (b - 1)"
    by (simp_all only: powi_diff)
  have up: "x < 2 powi (?E + 1)"
    unfolding double x using na db d n by (intro frac_less) simp_all
  have low: "2 powi (?E - 1) \<le> x"
    unfolding half x using na db d n by (intro frac_le) simp_all
  have binade: "binade x = (if 2 powi ?E \<le> x then ?E else ?E - 1)"
    by (simp add: binade_def q a_def b_def Let_def)
  show "2 powi binade x \<le> x" "x < 2 powi (binade x + 1)"
    using up low by (simp_all add: binade)
qed

lemma round_half_even_error: "\<bar>of_int (round_half_even x) - x\<bar> \<le> 1 / 2"
  using floor_correct [of x] by (auto simp: round_half_even_def Let_def abs_le_iff)

lemma round_half_even_int [simp]: "round_half_even (of_int n) = n"
  by (simp add: round_half_even_def Let_def)

text \<open>Every number that needs at most 53 bits is kept.\<close>

definition unit_of :: "rat \<Rightarrow> rat" where
  "unit_of x = 2 powi (max (binade \<bar>x\<bar> - 52) (- 1074))"

lemma unit_of_pos: "0 < unit_of x"
  by (simp add: unit_of_def)

lemma fround_exact: "x = of_int k * unit_of x \<Longrightarrow> fround x = x"
proof -
  assume x: "x = of_int k * unit_of x"
  then have "x / unit_of x = of_int k" using unit_of_pos [of x] by (metis nonzero_mult_div_cancel_right less_irrefl)
  then have "fround x = (if x = 0 then 0 else of_int k * unit_of x)"
    by (simp add: fround_def Let_def flip: unit_of_def)
  then show ?thesis using x by auto
qed

lemma fround_error: "\<bar>fround x - x\<bar> \<le> unit_of x / 2"
proof (cases "x = 0")
  case True
  then show ?thesis using unit_of_pos [of x] by (simp add: fround_def)
next
  case False
  let ?u = "unit_of x"
  have "\<bar>of_int (round_half_even (x / ?u)) - x / ?u\<bar> * ?u \<le> 1 / 2 * ?u"
    using round_half_even_error unit_of_pos [of x] by (intro mult_right_mono) simp_all
  moreover have "of_int (round_half_even (x / ?u)) * ?u - x = (of_int (round_half_even (x / ?u)) - x / ?u) * ?u"
    using unit_of_pos [of x] by (simp add: left_diff_distrib)
  then have "\<bar>of_int (round_half_even (x / ?u)) - x / ?u\<bar> * ?u = \<bar>of_int (round_half_even (x / ?u)) * ?u - x\<bar>"
    using unit_of_pos [of x] by (simp only: abs_mult)
  moreover have "fround x = of_int (round_half_even (x / ?u)) * ?u"
    using False by (simp add: fround_def Let_def flip: unit_of_def)
  ultimately show ?thesis by simp
qed

lemma binade_le: "0 < x \<Longrightarrow> x < 2 powi (e + 1) \<Longrightarrow> binade x \<le> e"
proof -
  assume "0 < x" and less: "x < 2 powi (e + 1)"
  then have *: "2 powi binade x < (2 :: rat) powi (e + 1)" using binade_bounds(1) [of x] by linarith
  show ?thesis
  proof (rule ccontr)
    assume "\<not> ?thesis"
    then have "(2 :: rat) powi (e + 1) \<le> 2 powi binade x" by (intro power_int_increasing) simp_all
    with * show False by simp
  qed
qed

lemma unit_of_le:
  assumes "x \<noteq> 0" and "\<bar>x\<bar> < 2 powi (e + 1)" and "- 1022 \<le> e"
  shows "unit_of x \<le> 2 powi (e - 52)"
proof -
  have "binade \<bar>x\<bar> \<le> e" using assms by (intro binade_le) simp_all
  then show ?thesis using assms(3) by (simp add: unit_of_def power_int_increasing)
qed

lemma fround_zero [simp]: "fround 0 = 0"
  by (simp add: fround_def)

lemma fround_error_bound:
  assumes "\<bar>x\<bar> < 2 powi (e + 1)" and "- 1022 \<le> e"
  shows "\<bar>fround x - x\<bar> \<le> 2 powi (e - 53)"
proof (cases "x = 0")
  case False
  have "(2 :: rat) powi (e - 52) = 2 powi (e - 53) * 2"
    using power_int_add_1 [of "2 :: rat" "e - 53"] by simp
  with fround_error [of x] unit_of_le [OF False assms] show ?thesis by simp
qed simp

text \<open>Integers of at most 53 bits are exact.\<close>

lemma fround_int:
  assumes "\<bar>n\<bar> < 2 ^ 53"
  shows "fround (of_int n) = of_int n"
proof (cases "n = 0")
  case False
  have "\<bar>of_int n\<bar> < (2 :: rat) powi (52 + 1)"
  proof -
    have "(of_int \<bar>n\<bar> :: rat) < of_int (2 ^ 53)" using assms by (simp only: of_int_less_iff)
    then show ?thesis by simp
  qed
  then have "binade \<bar>of_int n\<bar> \<le> 52" using False by (intro binade_le) simp_all
  define k where "k = nat (- max (binade \<bar>of_int n\<bar> - 52) (- 1074))"
  with \<open>binade \<bar>of_int n\<bar> \<le> 52\<close> have k: "max (binade \<bar>of_int n\<bar> - 52) (- 1074) = - int k" by simp
  have "unit_of (of_int n) = 1 / 2 ^ k" by (simp add: unit_of_def k power_int_minus divide_inverse)
  then have "of_int n = of_int (n * 2 ^ k) * unit_of (of_int n)" by simp
  then show ?thesis by (rule fround_exact)
qed simp

end
