(* ===== verification/Float_Format.thy ===== *)
theory Float_Format
  imports Binary64 Cformat
begin

text \<open>
  How the code prints a \<open>double\<close>: in fixed notation with two decimals, and in one place by an output stream in its
  default state; both round the exact value.
\<close>

text \<open>\<open>%.2f\<close>, or \<open>std::fixed\<close> with a precision of 2, of a finite number.\<close>

definition show_fixed2 :: "float64 \<Rightarrow> string" where
  "show_fixed2 x =
     (let n = round_half_even (\<bar>x\<bar> * 100)
      in (if x < 0 then ''-'' else []) @ show_unsigned (nat (n div 100)) @ ''.'' @ show_padded 2 (n mod 100))"

text \<open>
  \<open>operator<<\<close> of a stream in its default state, which is \<open>%g\<close>: six significant digits without zeros at the
  end, with an exponent when it is below -4 or above 5. \<open>decade\<close> is the exponent \<open>e\<close> with
  \<open>10 ^ e \<le> x < 10 ^ (e + 1)\<close>.
\<close>

definition decade :: "rat \<Rightarrow> int" where
  "decade x =
     (let (n, d) = quotient_of x; e = int (floorlog 10 (nat n)) - int (floorlog 10 (nat d))
      in if 10 powi e \<le> x then e else e - 1)"

definition fraction_text :: "string \<Rightarrow> string" where
  "fraction_text ds =
     (let kept = rev (dropWhile (\<lambda>c. c = CHR ''0'') (rev ds))
      in if kept = [] then [] else ''.'' @ kept)"

definition show_general :: "float64 \<Rightarrow> string" where
  "show_general x =
     (if x = 0 then ''0''
      else let
        e0 = decade \<bar>x\<bar>;
        m0 = round_half_even (\<bar>x\<bar> * 10 powi (5 - e0));
        (e, m) = (if m0 = 1000000 then (e0 + 1, 100000) else (e0, m0));
        ds = show_padded 6 m
      in (if x < 0 then ''-'' else []) @
         (if e < - 4 \<or> 6 \<le> e
          then take 1 ds @ fraction_text (drop 1 ds) @ ''e'' @ (if e < 0 then ''-'' else ''+'') @ show_padded 2 \<bar>e\<bar>
          else if e < 0 then ''0'' @ fraction_text (replicate (nat (- e - 1)) (CHR ''0'') @ ds)
          else take (nat (e + 1)) ds @ fraction_text (drop (nat (e + 1)) ds)))"

end
