(* ===== verification/Market_Data.thy ===== *)
theory Market_Data
  imports Cpp_Outcome Http_Client Float_Format
begin

text \<open>
  \<open>src/src/market_data/MarketDataHandler.cpp\<close>: fetching a quote with the HTTP client and reading it as JSON. The
  JSON library and the transfer of libcurl are parameters; the two output streams are texts.
\<close>

record console =
  con_out :: string
  con_err :: string

definition print_out :: "string \<Rightarrow> console \<Rightarrow> console" where
  "print_out s c = c\<lparr>con_out := con_out c @ s\<rparr>"

definition print_err :: "string \<Rightarrow> console \<Rightarrow> console" where
  "print_err s c = c\<lparr>con_err := con_err c @ s\<rparr>"

text \<open>
  A chain of \<open>operator[]\<close> on a variable value: a missing key is added with null, which the next key turns into an
  object, and null converts to nothing. The changed value is not used again at these keys.
\<close>

primrec json_path :: "'j json_lib \<Rightarrow> string list \<Rightarrow> 'j \<Rightarrow> 'j outcome" where
  "json_path js [] v = Value v"
| "json_path js (k # ks) v = and_then (json_slot js v k) (json_path js ks)"

text \<open>Only \<open>parse_error\<close> is caught.\<close>

definition parseMarketData :: "'j json_lib \<Rightarrow> string \<Rightarrow> console \<Rightarrow> unit outcome \<times> console" where
  "parseMarketData js jsonData c =
     (case then_run (json_parse js jsonData, c) (\<lambda>json c.
            then_run (Value (), print_out (''Processing market data...'' @ [newline]) c) (\<lambda>_ c.
            then_run (and_then (json_path js [''Meta Data'', ''2. Symbol''] json) (to_text js), c) (\<lambda>symbol c.
            then_run (and_then (json_path js [''Time Series (5min)'', ''2023-09-22 16:00:00'', ''4. close''] json)
              (to_double js), c) (\<lambda>closePrice c.
            (Value (), print_out (''Symbol: '' @ symbol @ '', Close Price: '' @ show_general closePrice @ [newline]) c))))) of
        (Throws (Parse_error s), c') \<Rightarrow> (Value (), print_err (''JSON parse error: '' @ s @ [newline]) c')
      | r \<Rightarrow> r)"

definition show_result :: "client_result \<Rightarrow> console \<Rightarrow> console" where
  "show_result r c = print_err (err_text r) (print_out (out_text r) c)"

definition updateMarketData ::
  "'j json_lib \<Rightarrow> environment \<Rightarrow> bool \<Rightarrow> (curl_request \<Rightarrow> curl_outcome) \<Rightarrow> string \<Rightarrow> console \<Rightarrow> unit outcome \<times> console" where
  "updateMarketData js env initialised transfer symbol c =
     then_run (string_of_pointer (env ''ALPHA_VANTAGE_API_KEY''), c) (\<lambda>apiKey c.
       let r = fetchMarketData initialised transfer apiKey symbol; c = show_result r c
       in if response r \<noteq> [] then parseMarketData js (response r) c else (Value (), c))"

section \<open>What a quote does\<close>

text \<open>
  Where a path of keys leads: to a value, to a place that is missing, or into something that is neither an object
  nor null.
\<close>

datatype 'j place = Found 'j | Missing | Blocked

primrec reach :: "('j \<Rightarrow> 'j json_view) \<Rightarrow> string list \<Rightarrow> 'j \<Rightarrow> 'j place" where
  "reach view [] v = Found v"
| "reach view (k # ks) v =
     (case view v of
        Object m \<Rightarrow> (case m k of Some x \<Rightarrow> reach view ks x | None \<Rightarrow> Missing)
      | Null \<Rightarrow> Missing
      | _ \<Rightarrow> Blocked)"

lemma json_path_null:
  assumes "json_laws js view"
  shows "view v = Null \<Longrightarrow> \<exists>x. json_path js ks v = Value x \<and> view x = Null"
proof (induction ks arbitrary: v)
  case (Cons k ks)
  obtain x where "json_slot js v k = Value x" "view x = Null" using json_lawsD(5) [OF assms Cons.prems] by blast
  with Cons.IH show ?case by simp
qed simp

text \<open>A missing place is null, and a blocked one throws.\<close>

lemma json_path_reach:
  assumes laws: "json_laws js view"
  shows "case reach view ks v of
      Found x \<Rightarrow> json_path js ks v = Value x
    | Missing \<Rightarrow> \<exists>x. json_path js ks v = Value x \<and> view x = Null
    | Blocked \<Rightarrow> \<exists>w. json_path js ks v = Throws (Type_error w)"
proof (induction ks arbitrary: v)
  case (Cons k ks)
  show ?case
  proof (cases "view v")
    case (Object m)
    show ?thesis
    proof (cases "m k")
      case None
      then obtain x where "json_slot js v k = Value x" "view x = Null" using json_lawsD(4) [OF laws Object] by blast
      with Object None json_path_null [OF laws] show ?thesis by simp
    next
      case (Some x)
      then have "json_slot js v k = Value x" by (rule json_lawsD(3) [OF laws Object])
      then have "json_path js (k # ks) v = json_path js ks x" "reach view (k # ks) v = reach view ks x"
        using Object Some by simp_all
      then show ?thesis using Cons [of x] by (simp only:)
    qed
  next
    case Null
    then obtain x where "json_slot js v k = Value x" "view x = Null" using json_lawsD(5) [OF laws] by blast
    with Null json_path_null [OF laws] show ?thesis by simp
  qed (use json_lawsD(10) [OF laws, of v k] in auto)
qed simp

abbreviation symbol_place :: "('j \<Rightarrow> 'j json_view) \<Rightarrow> 'j \<Rightarrow> 'j place" where
  "symbol_place view \<equiv> reach view [''Meta Data'', ''2. Symbol'']"

abbreviation close_place :: "('j \<Rightarrow> 'j json_view) \<Rightarrow> 'j \<Rightarrow> 'j place" where
  "close_place view \<equiv> reach view [''Time Series (5min)'', ''2023-09-22 16:00:00'', ''4. close'']"

lemma read_symbol:
  assumes laws: "json_laws js view"
  shows "(\<forall>sy s. symbol_place view v = Found sy \<and> view sy = Text s \<longrightarrow>
      and_then (json_path js [''Meta Data'', ''2. Symbol''] v) (to_text js) = Value s) \<and>
    ((\<nexists>sy s. symbol_place view v = Found sy \<and> view sy = Text s) \<longrightarrow>
      (\<exists>w. and_then (json_path js [''Meta Data'', ''2. Symbol''] v) (to_text js) = Throws (Type_error w)))"
  using json_path_reach [OF laws, of "[''Meta Data'', ''2. Symbol'']" v] json_lawsD(6,7) [OF laws]
  by (cases "symbol_place view v") (fastforce simp del: json_path.simps reach.simps)+

lemma read_close:
  assumes laws: "json_laws js view"
  shows "case close_place view v of
      Found x \<Rightarrow> and_then (json_path js [''Time Series (5min)'', ''2023-09-22 16:00:00'', ''4. close''] v) (to_double js) = to_double js x
    | _ \<Rightarrow> \<exists>w. and_then (json_path js [''Time Series (5min)'', ''2023-09-22 16:00:00'', ''4. close''] v) (to_double js) =
        Throws (Type_error w)"
  using json_path_reach [OF laws, of "[''Time Series (5min)'', ''2023-09-22 16:00:00'', ''4. close'']" v] json_lawsD(11) [OF laws]
  by (cases "close_place view v") (fastforce simp del: json_path.simps reach.simps)+

text \<open>The console after the first line of \<open>parseMarketData\<close>.\<close>

abbreviation processing :: "console \<Rightarrow> console" where
  "processing c \<equiv> print_out (''Processing market data...'' @ [newline]) c"

definition quote_outcome :: "'j json_lib \<Rightarrow> ('j \<Rightarrow> 'j json_view) \<Rightarrow> 'j \<Rightarrow> console \<Rightarrow> unit outcome \<times> console \<Rightarrow> bool" where
  "quote_outcome js view v c res \<longleftrightarrow>
     (case (symbol_place view v, close_place view v) of
        (Found sy, Found close) \<Rightarrow>
          (case (view sy, to_double js close) of
             (Text s, Value d) \<Rightarrow>
               res = (Value (), print_out (''Symbol: '' @ s @ '', Close Price: '' @ show_general d @ [newline]) (processing c))
           | _ \<Rightarrow> \<exists>w. res = (Throws (Type_error w), processing c))
      | _ \<Rightarrow> \<exists>w. res = (Throws (Type_error w), processing c))"

lemma parse_outcome:
  assumes laws: "json_laws js view" and v: "json_parse js reply = Value v"
  shows "quote_outcome js view v c (parseMarketData js reply c)"
proof -
  let ?sym = "and_then (json_path js [''Meta Data'', ''2. Symbol''] v) (to_text js)"
  let ?close = "and_then (json_path js [''Time Series (5min)'', ''2023-09-22 16:00:00'', ''4. close''] v) (to_double js)"
  note parse = parseMarketData_def [of js reply c, unfolded v then_run_simps]
  note keep = json_path.simps reach.simps
  show ?thesis
  proof (cases "\<exists>sy s. symbol_place view v = Found sy \<and> view sy = Text s")
    case False
    then obtain w where "?sym = Throws (Type_error w)" using read_symbol [OF laws, of v] by blast
    then have "parseMarketData js reply c = (Throws (Type_error w), processing c)" unfolding parse by simp
    with False show ?thesis
      by (auto simp: quote_outcome_def simp del: keep split: place.split json_view.split outcome.split)
  next
    case True
    then obtain sy s where sy: "symbol_place view v = Found sy" "view sy = Text s" by blast
    then have sym: "?sym = Value s" using read_symbol [OF laws, of v] by blast
    note parse' = parse [unfolded sym then_run_simps]
    show ?thesis
    proof (cases "\<exists>w. ?close = Throws (Type_error w)")
      case True
      then obtain w where w: "?close = Throws (Type_error w)" by blast
      then have "parseMarketData js reply c = (Throws (Type_error w), processing c)" unfolding parse' by simp
      moreover have "to_double js x = Throws (Type_error w)" if "close_place view v = Found x" for x
        using read_close [OF laws, of v] w that by (simp del: keep)
      ultimately show ?thesis
        using sy by (auto simp: quote_outcome_def simp del: keep split: place.split)
    next
      case False
      then obtain x where x: "close_place view v = Found x" "?close = to_double js x"
        using read_close [OF laws, of v] by (cases "close_place view v") (auto simp del: keep)
      then obtain d where "to_double js x = Value d" using False json_lawsD(13) [OF laws, of x] by metis
      with x sy show ?thesis by (simp add: quote_outcome_def parse' del: keep)
    qed
  qed
qed

text \<open>C38: What \<open>updateMarketData\<close> does, on every branch, by the documented behaviour of the JSON library. Without the
  environment variable it is undefined. An empty reply is ignored, one that does not parse is reported and
  ignored, another exception of the parser escapes. A JSON reply is announced on the output. If the symbol is there and a
  string, and the closing price is there and a number, both are printed; in every other case, the fields missing, null
  or of another type, or the reply no object, a type error is thrown, which is not the exception that is caught and leaves
  the function. So it does for a reply of the service, whose prices are strings.\<close>

theorem updateMarketData_outcomes:
  assumes laws: "json_laws js view" and env: "env ''ALPHA_VANTAGE_API_KEY'' = Some k"
    and reply: "fetchMarketData initialised transfer k symbol = r"
    and res: "updateMarketData js env initialised transfer symbol c = res"
  shows "(\<forall>e. e ''ALPHA_VANTAGE_API_KEY'' = None \<longrightarrow> updateMarketData js e initialised transfer symbol c = (Undefined, c)) \<and>
    (if response r = [] then res = (Value (), show_result r c)
     else case json_parse js (response r) of
       Undefined \<Rightarrow> res = (Undefined, show_result r c)
     | Throws (Parse_error x) \<Rightarrow> res = (Value (), print_err (''JSON parse error: '' @ x @ [newline]) (show_result r c))
     | Throws x \<Rightarrow> res = (Throws x, show_result r c)
     | Value v \<Rightarrow>
         (case (reach view [''Meta Data'', ''2. Symbol''] v,
                reach view [''Time Series (5min)'', ''2023-09-22 16:00:00'', ''4. close''] v) of
            (Found sy, Found close) \<Rightarrow>
              (case (view sy, to_double js close) of
                 (Text s, Value d) \<Rightarrow>
                   res = (Value (), print_out (''Symbol: '' @ s @ '', Close Price: '' @ show_general d @ [newline])
                     (print_out (''Processing market data...'' @ [newline]) (show_result r c)))
               | _ \<Rightarrow> \<exists>w. res = (Throws (Type_error w), print_out (''Processing market data...'' @ [newline]) (show_result r c)))
          | _ \<Rightarrow> \<exists>w. res = (Throws (Type_error w), print_out (''Processing market data...'' @ [newline]) (show_result r c)))) \<and>
    (\<forall>close t. view close = Text t \<longrightarrow> (\<exists>w. to_double js close = Throws (Type_error w)))"
proof -
  have upd: "res = (if response r \<noteq> [] then parseMarketData js (response r) (show_result r c) else (Value (), show_result r c))"
    using res unfolding updateMarketData_def env string_of_pointer_def option.case then_run_simps Let_def reply by auto
  have unset: "updateMarketData js e initialised transfer symbol c = (Undefined, c)" if "e ''ALPHA_VANTAGE_API_KEY'' = None" for e
    using that by (simp add: updateMarketData_def string_of_pointer_def)
  have quote: "quote_outcome js view v (show_result r c) res" if "response r \<noteq> []" "json_parse js (response r) = Value v" for v
    using parse_outcome [OF laws that(2), of "show_result r c"] that(1) upd by simp
  show ?thesis
  proof (intro conjI allI impI)
    show "if response r = [] then res = (Value (), show_result r c)
     else case json_parse js (response r) of
       Undefined \<Rightarrow> res = (Undefined, show_result r c)
     | Throws (Parse_error x) \<Rightarrow> res = (Value (), print_err (''JSON parse error: '' @ x @ [newline]) (show_result r c))
     | Throws x \<Rightarrow> res = (Throws x, show_result r c)
     | Value v \<Rightarrow>
         (case (symbol_place view v, close_place view v) of
            (Found sy, Found close) \<Rightarrow>
              (case (view sy, to_double js close) of
                 (Text s, Value d) \<Rightarrow>
                   res = (Value (), print_out (''Symbol: '' @ s @ '', Close Price: '' @ show_general d @ [newline])
                     (processing (show_result r c)))
               | _ \<Rightarrow> \<exists>w. res = (Throws (Type_error w), processing (show_result r c)))
          | _ \<Rightarrow> \<exists>w. res = (Throws (Type_error w), processing (show_result r c)))"
    proof (cases "response r = []")
      case False
      show ?thesis
      proof (cases "json_parse js (response r)")
        case (Value v)
        from quote [OF False Value] show ?thesis
          by (simp only: False Value if_False outcome.case quote_outcome_def)
      next
        case (Throws x)
        with False upd show ?thesis by (cases x) (simp_all add: parseMarketData_def)
      qed (use False upd in \<open>simp add: parseMarketData_def\<close>)
    qed (use upd in simp)
  qed (use unset json_lawsD(8) [OF laws] in blast)+
qed

text \<open>A reply of the service: the prices are strings.\<close>

definition service_quote :: "tree \<Rightarrow> tree" where
  "service_quote close = Fields
     [(''Meta Data'', Fields [(''1. Information'', Str ''Intraday (5min)''), (''2. Symbol'', Str ''IBM'')]),
      (''Time Series (5min)'', Fields [(''2023-09-22 16:00:00'', Fields [(''1. open'', close), (''4. close'', close)])])]"

theorem updateMarketData_outcomes_witness:
  "\<exists>w. updateMarketData (tree_json [(''quote'', service_quote (Str ''146.94''))]) [''ALPHA_VANTAGE_API_KEY'' \<mapsto> ''key''] True
      (\<lambda>_. \<lparr>blocks = [''quo'', ''te''], curl_error = None\<rparr>) ''IBM'' \<lparr>con_out = [], con_err = []\<rparr> =
    (Throws (Type_error w),
     \<lparr>con_out = ''Response: quote'' @ newline # ''Processing market data...'' @ [newline], con_err = []\<rparr>)"
proof -
  let ?js = "tree_json [(''quote'', service_quote (Str ''146.94''))]" and ?transfer = "\<lambda>_. \<lparr>blocks = [''quo'', ''te''], curl_error = None\<rparr>"
  let ?c = "\<lparr>con_out = [], con_err = []\<rparr>"
  have r: "fetchMarketData True ?transfer ''key'' ''IBM'' =
      \<lparr>response = ''quote'', out_text = ''Response: quote'' @ [newline], err_text = []\<rparr>"
    by (simp add: fetchMarketData_def perform_request_def WriteCallback_def)
  have parsed: "json_parse ?js ''quote'' = Value (service_quote (Str ''146.94''))" by (simp add: tree_json_def)
  have places: "symbol_place tree_view (service_quote (Str ''146.94'')) = Found (Str ''IBM'')"
    "close_place tree_view (service_quote (Str ''146.94'')) = Found (Str ''146.94'')"
    by (simp_all add: service_quote_def)
  have no_number: "to_double ?js (Str ''146.94'') = Throws (Type_error ''type must be number'')" by (simp add: tree_json_def)
  have "\<exists>w. updateMarketData ?js [''ALPHA_VANTAGE_API_KEY'' \<mapsto> ''key''] True ?transfer ''IBM'' ?c =
      (Throws (Type_error w), print_out (''Processing market data...'' @ [newline])
        (show_result \<lparr>response = ''quote'', out_text = ''Response: quote'' @ [newline], err_text = []\<rparr> ?c))"
    using updateMarketData_outcomes [OF tree_json_laws, of "[''ALPHA_VANTAGE_API_KEY'' \<mapsto> ''key'']" "''key''", OF _ r refl,
      of "[(''quote'', service_quote (Str ''146.94''))]" ?c]
    by (simp add: parsed places no_number del: reach.simps)
  then show ?thesis by (simp add: show_result_def print_out_def print_err_def)
qed

end
