(* ===== verification/Network_Mains.thy ===== *)
theory Network_Mains
  imports Server_Theorems Market_Data
begin

text \<open>
  \<open>src/src/networking/Server_main.cpp\<close> and \<open>Client_main.cpp\<close>: the command lines of the server and of the client. The
  arguments include the name of the program; the pointer after the last argument is null.
\<close>

section \<open>Numbers on the command line\<close>

definition c_space :: "char \<Rightarrow> bool" where
  "c_space c \<longleftrightarrow> c \<in> {CHR '' '', CHR 0x09, CHR 0x0A, CHR 0x0B, CHR 0x0C, CHR 0x0D}"

definition c_digit :: "char \<Rightarrow> bool" where
  "c_digit c \<longleftrightarrow> 48 \<le> (of_char c :: nat) \<and> (of_char c :: nat) \<le> 57"

definition digits_value :: "string \<Rightarrow> int" where
  "digits_value ds = foldl (\<lambda>n c. 10 * n + (int (of_char c) - 48)) 0 ds"

text \<open>\<open>std::atoi\<close>: white space, a sign, digits; what follows is ignored. A value out of range is undefined.\<close>

definition atoi :: "string \<Rightarrow> int option" where
  "atoi s =
     (let t = dropWhile c_space s;
          (neg, u) = (case t of [] \<Rightarrow> (False, [])
                      | c # cs \<Rightarrow> if c = CHR ''-'' then (True, cs) else if c = CHR ''+'' then (False, cs) else (False, t));
          n = digits_value (takeWhile c_digit u);
          v = (if neg then - n else n)
      in if - (2 ^ 31) \<le> v \<and> v < 2 ^ 31 then Some v else None)"

text \<open>\<open>short port = std::atoi(...)\<close> keeps 16 bits; the endpoint takes them as an unsigned number.\<close>

definition port_of :: "string \<Rightarrow> 16 word option" where
  "port_of s = map_option word_of_int (atoi s)"

section \<open>The server's main\<close>

definition argv :: "string list \<Rightarrow> nat \<Rightarrow> string option" where
  "argv args i = (if i < length args then Some (args ! i) else None)"

definition report_exception :: "cpp_exception \<Rightarrow> console \<Rightarrow> console" where
  "report_exception x = print_err (''Exception: '' @ what x @ [newline])"

text \<open>
  \<open>open_port\<close> is the exception of opening, binding and listening, if there is one. The result is the exit
  status; the completions are those of the accepts while the program runs.
\<close>

definition server_main ::
  "string list \<Rightarrow> (16 word \<Rightarrow> cpp_exception option) \<Rightarrow> (bool \<times> cpp_exception option) list \<Rightarrow> console \<Rightarrow> nat outcome \<times> console" where
  "server_main args open_port completions c =
     (if length args \<noteq> 2 then (Value 1, print_err (''Usage: server <port>'' @ [newline]) c)
      else case port_of (args ! 1) of
        None \<Rightarrow> (Undefined, c)
      | Some port \<Rightarrow>
          (case open_port port of
             Some x \<Rightarrow> (Value 0, report_exception x c)
           | None \<Rightarrow>
               (case io_run completions Server_new of
                  (Value _, s) \<Rightarrow> (Value 0, print_out (server_out s) c)
                | (Throws x, s) \<Rightarrow> (Value 0, report_exception x (print_out (server_out s) c))
                | (Undefined, s) \<Rightarrow> (Undefined, print_out (server_out s) c))))"

section \<open>The client's main\<close>

text \<open>The order as the initializer list of a JSON object; \<open>dump\<close> is the library's text of it.\<close>

datatype json_literal = Lit_string string | Lit_int int | Lit_bool bool | Lit_double float64

definition order_literal :: "string \<Rightarrow> (string \<times> json_literal) list" where
  "order_literal symbol =
     [(''type'', Lit_string ''place_order''), (''order_id'', Lit_int 1), (''is_buy_order'', Lit_bool True),
      (''quantity'', Lit_int 10), (''price'', Lit_double 145), (''symbol'', Lit_string symbol)]"

definition client_main ::
  "string list \<Rightarrow> environment \<Rightarrow> bool \<Rightarrow> (curl_request \<Rightarrow> curl_outcome) \<Rightarrow> ((string \<times> json_literal) list \<Rightarrow> string) \<Rightarrow>
    console \<Rightarrow> nat outcome \<times> console" where
  "client_main args env initialised transfer dump c =
     (if length args < 2 then (Value 1, print_err (''Usage: client <server_address> <symbol>'' @ [newline]) c)
      else
        then_run (string_of_pointer (argv args 1), c) (\<lambda>serverAddress c.
        then_run (string_of_pointer (argv args 2), c) (\<lambda>symbol c.
        then_run (string_of_pointer (env ''API_KEY''), c) (\<lambda>apiKey c.
          let r = fetchMarketData initialised transfer apiKey symbol;
              c = print_out (''Fetched Market Data: '' @ response r @ [newline]) (show_result r c);
              r' = sendRequestToServer initialised transfer serverAddress (dump (order_literal symbol));
              c = print_out (''Server response: '' @ response r' @ [newline]) (show_result r' c)
          in (Value 0, c)))))"

section \<open>The port\<close>

lemma digit_char_value: "d < 10 \<Longrightarrow> c_digit (digit_char d) \<and> int (of_char (digit_char d)) = 48 + int d"
  by (simp add: c_digit_def digit_char_def)

lemma digits_are_digits: "\<forall>c \<in> set (digits n). c_digit c"
proof (induction n rule: digits.induct)
  case (1 n)
  then show ?case by (subst digits.simps) (auto simp: digit_char_value)
qed

lemma digits_value_digits: "digits_value (digits n) = int n"
proof (induction n rule: digits.induct)
  case (1 n)
  show ?case
  proof (cases "n < 10")
    case True
    then show ?thesis by (subst digits.simps) (simp add: digits_value_def digit_char_value)
  next
    case False
    have "digits_value (digits (n div 10) @ [digit_char (n mod 10)]) = 10 * int (n div 10) + int (n mod 10)"
      using "1.IH" [OF False] by (simp add: digits_value_def digit_char_value)
    also have "\<dots> = int n" by (metis mult_div_mod_eq of_nat_add of_nat_mult of_nat_numeral)
    finally show ?thesis using False by (subst digits.simps) simp
  qed
qed

lemma atoi_digits: "atoi (digits n) = (if n < 2 ^ 31 then Some (int n) else None)"
proof -
  obtain c cs where d: "digits n = c # cs" by (cases "digits n") simp_all
  have c: "c_digit c" using digits_are_digits [of n] d by simp
  then have "\<not> c_space c" "c \<noteq> CHR ''-''" "c \<noteq> CHR ''+''" by (auto simp: c_digit_def c_space_def)
  moreover have "takeWhile c_digit (c # cs) = c # cs" using digits_are_digits [of n] d by simp
  ultimately show ?thesis
    using digits_value_digits [of n] unfolding atoi_def d by (auto simp: Let_def)
qed

text \<open>The server listens on the port that its argument names, as long as that is below 65536. A greater number is
  not refused: 16 of its bits are kept, so that a number and 65536 more are the same command. From
  \<open>2 ^ 31\<close> on the conversion is undefined.\<close>

theorem server_port:
  "map_option unat (port_of (show_unsigned n)) = (if n < 2 ^ 31 then Some (n mod 65536) else None) \<and>
   (n + 65536 < 2 ^ 31 \<longrightarrow>
      server_main [prog, show_unsigned (n + 65536)] open_port cs c = server_main [prog, show_unsigned n] open_port cs c) \<and>
   (2 ^ 31 \<le> n \<longrightarrow> server_main [prog, show_unsigned n] open_port cs c = (Undefined, c))"
proof -
  have port: "port_of (show_unsigned k) = (if k < 2 ^ 31 then Some (of_nat k) else None)" for k
    by (simp add: port_of_def show_unsigned_def atoi_digits)
  have zero: "(65536 :: 16 word) = 0" by (rule word_unat_eq_iff [THEN iffD2]) simp
  then show ?thesis by (simp add: server_main_def port unat_of_nat zero)
qed

theorem server_port_witness:
  "server_main [''server'', show_unsigned 70000] (\<lambda>p. if p = 4464 then None else Some (System_error ''in use'')) [] \<lparr>con_out = [], con_err = []\<rparr> =
    (Value 0, \<lparr>con_out = [], con_err = []\<rparr>)"
proof -
  let ?o = "\<lambda>p :: 16 word. if p = 4464 then None else Some (System_error ''in use'')"
  have "unat p = 4464 \<Longrightarrow> p = 4464" for p :: "16 word" by (simp add: word_unat_eq_iff)
  moreover have "map_option unat (port_of (show_unsigned 4464)) = Some 4464"
    using server_port [of 4464] by simp
  ultimately have "port_of (show_unsigned 4464) = Some 4464" by auto
  then have "server_main [''server'', show_unsigned 4464] ?o [] \<lparr>con_out = [], con_err = []\<rparr> =
      (Value 0, \<lparr>con_out = [], con_err = []\<rparr>)"
    by (simp add: server_main_def Server_new_def acceptConnection_def print_out_def)
  then show ?thesis
    using server_port [of 4464 "''server''" ?o "[]" "\<lparr>con_out = [], con_err = []\<rparr>"] by simp
qed

section \<open>The client\<close>

text \<open>The client checks for one argument but uses two: with one it is undefined, as it is without the environment
  variable. Otherwise it always ends normally, whatever the transfers give: a failed request is printed like
  an empty answer. The order it sends always has the same fields.\<close>

theorem client_main_outcomes:
  "fst (client_main args env initialised transfer dump c) =
    (if length args < 2 then Value 1
     else if length args = 2 \<or> env ''API_KEY'' = None then Undefined
     else Value 0)"
  by (simp add: client_main_def argv_def string_of_pointer_def Let_def split: option.splits)

end
