(* ===== verification/Price_Conversion.thy ===== *)
theory Price_Conversion
  imports Orders Binary64
begin

text \<open>The conversions of \<open>Order.hpp\<close> between scaled integer prices and \<open>double\<close>.\<close>

definition priceAsDouble :: "order \<Rightarrow> float64" where
  "priceAsDouble od = fdiv (float_of_int (ival (price_scaled od))) (float_of_int (ival PRICE_SCALE))"

definition doubleToPrice :: "float64 \<Rightarrow> price res" where
  "doubleToPrice pr = float_to_i64 (fadd (fmul pr (float_of_int (ival PRICE_SCALE))) (1 / 2))"

section \<open>Rounding to the nearest price\<close>

lemma price_scale_float: "float_of_int (ival PRICE_SCALE) = 1000000"
proof -
  have "ival PRICE_SCALE = 1000000" by (simp add: PRICE_SCALE_def in_i64_def)
  then show ?thesis using fround_int [of 1000000] by (simp add: float_of_int_def)
qed

lemma powi_small: "(2 :: rat) powi (- 4) = 1 / 16" "(2 :: rat) powi (- 23) = 1 / 8388608"
  "(2 :: rat) powi 50 = 1125899906842624" "(2 :: rat) powi 31 = 2147483648"
  by (simp_all add: power_int_minus)

text \<open>The sum before the truncation lies within a quarter of \<open>p + 1/2\<close>.\<close>

lemma scaled_near:
  assumes "\<bar>d * 1000000 - of_int p\<bar> \<le> 1 / 8" and "\<bar>p\<bar> < 2 ^ 50"
  shows "\<bar>fadd (fmul d 1000000) (1 / 2) - (of_int p + 1 / 2)\<bar> \<le> 1 / 4"
proof -
  have near: "d * 1000000 - of_int p \<le> 1 / 8" "- (d * 1000000 - of_int p) \<le> 1 / 8"
    using assms(1) unfolding abs_le_iff by blast+
  have p: "of_int p \<le> (1125899906842623 :: rat)" "- of_int p \<le> (1125899906842623 :: rat)"
  proof -
    have "\<bar>p\<bar> \<le> 1125899906842623" using assms(2) by simp
    then have "(of_int \<bar>p\<bar> :: rat) \<le> of_int 1125899906842623" by (simp only: of_int_le_iff)
    then show "of_int p \<le> (1125899906842623 :: rat)" "- of_int p \<le> (1125899906842623 :: rat)"
      by (simp_all add: abs_le_iff)
  qed
  have "\<bar>d * 1000000\<bar> < 1125899906842624" unfolding abs_less_iff using near p by linarith
  then have "\<bar>d * 1000000\<bar> < 2 powi (49 + 1)" by (simp add: powi_small)
  from fround_error_bound [OF this] have "\<bar>fmul d 1000000 - d * 1000000\<bar> \<le> 1 / 16"
    by (simp add: fmul_def powi_small)
  then have y: "fmul d 1000000 - d * 1000000 \<le> 1 / 16" "- (fmul d 1000000 - d * 1000000) \<le> 1 / 16"
    unfolding abs_le_iff by blast+
  have "\<bar>fmul d 1000000 + 1 / 2\<bar> < 1125899906842624" unfolding abs_less_iff using near p y by linarith
  then have "\<bar>fmul d 1000000 + 1 / 2\<bar> < 2 powi (49 + 1)" by (simp add: powi_small)
  from fround_error_bound [OF this]
  have "\<bar>fadd (fmul d 1000000) (1 / 2) - (fmul d 1000000 + 1 / 2)\<bar> \<le> 1 / 16"
    by (simp add: fadd_def powi_small)
  then show ?thesis using y near unfolding abs_le_iff by linarith
qed

lemma trunc_float_near:
  assumes "\<bar>x - (of_int p + 1 / 2)\<bar> \<le> 1 / 4"
  shows "trunc_float x = (if 0 \<le> p then p else p + 1)"
proof (cases "0 \<le> p")
  case True
  then have "(0 :: rat) \<le> of_int p" by simp
  with assms have "\<not> x < 0" "of_int p \<le> x" "x < of_int p + 1" unfolding abs_le_iff by linarith+
  then have "\<lfloor>x\<rfloor> = p" by (intro floor_unique)
  with True \<open>\<not> x < 0\<close> show ?thesis by (simp add: trunc_float_def)
next
  case False
  then have "p \<le> - 1" by simp
  then have "(of_int p :: rat) \<le> of_int (- 1)" by (simp only: of_int_le_iff)
  then have "of_int p \<le> (- 1 :: rat)" by simp
  with assms have "x < 0" "- of_int p - 1 \<le> - x" "- x < - of_int p - 1 + 1"
    unfolding abs_le_iff by linarith+
  then have "\<lfloor>- x\<rfloor> = - p - 1"
    by (intro floor_unique) (simp_all only: of_int_diff of_int_minus of_int_1)
  with False \<open>x < 0\<close> show ?thesis by (simp only: trunc_float_def if_True if_False)
qed

lemma doubleToPrice_near:
  assumes "\<bar>d * 1000000 - of_int p\<bar> \<le> 1 / 8" and "\<bar>p\<bar> < 2 ^ 50"
  shows "doubleToPrice d = Inr (i64_of (if 0 \<le> p then p else p + 1))"
proof -
  have t: "trunc_float (fadd (fmul d 1000000) (1 / 2)) = (if 0 \<le> p then p else p + 1)"
    using scaled_near [OF assms] by (rule trunc_float_near)
  have "in_i64 (if 0 \<le> p then p else p + 1)" using assms(2) by (auto simp: in_i64_def abs_less_iff)
  then show ?thesis by (simp only: doubleToPrice_def price_scale_float float_to_i64_def t if_True)
qed

lemma priceAsDouble_near:
  assumes "\<bar>ival (price_scaled od)\<bar> < 2 ^ 50"
  shows "\<bar>priceAsDouble od * 1000000 - of_int (ival (price_scaled od))\<bar> \<le> 1 / 8"
proof -
  let ?p = "ival (price_scaled od)"
  have "(of_int \<bar>?p\<bar> :: rat) < of_int (2 ^ 50)" using assms by (simp only: of_int_less_iff)
  then have b: "\<bar>of_int ?p\<bar> < (1125899906842624 :: rat)" by simp
  have "fround (of_int ?p) = of_int ?p" using assms by (intro fround_int) simp
  then have "float_of_int ?p = of_int ?p" by (simp add: float_of_int_def)
  then have d: "priceAsDouble od = fround (of_int ?p / 1000000)"
    by (simp only: priceAsDouble_def price_scale_float fdiv_def)
  have "\<bar>of_int ?p / 1000000\<bar> < (2 :: rat) powi (30 + 1)" using b by (simp add: powi_small)
  from fround_error_bound [OF this] show ?thesis unfolding d abs_le_iff by (simp add: powi_small)
qed

section \<open>Round trip\<close>

text \<open>C25: A price below \<open>2 ^ 50\<close> micro-dollars that is not negative survives the conversion to \<open>double\<close> and
  back, in spite of the roundings of both. A negative price does not: it comes back one
  micro-dollar higher, because the conversion adds one half and truncates towards zero.\<close>

theorem price_round_trip:
  assumes "\<bar>ival (price_scaled od)\<bar> < 2 ^ 50"
  shows "doubleToPrice (priceAsDouble od) =
    Inr (if 0 \<le> price_scaled od then price_scaled od else i64_of (ival (price_scaled od) + 1))"
  using doubleToPrice_near [OF priceAsDouble_near [OF assms] assms] by (simp add: less_eq_i64_def)

theorem price_round_trip_witness:
  "doubleToPrice (priceAsDouble (Order_new 1 True 100 (i64_of 100500000) 0 0)) = Inr (i64_of 100500000) \<and>
   doubleToPrice (priceAsDouble (Order_new 1 True 100 (i64_of (- 1000000)) 0 0)) = Inr (i64_of (- 999999))"
proof -
  have v: "ival (i64_of 100500000) = 100500000" "ival (i64_of (- 1000000)) = - 1000000"
    by (simp_all add: in_i64_def)
  show ?thesis
    using price_round_trip [of "Order_new 1 True 100 (i64_of 100500000) 0 0"]
      price_round_trip [of "Order_new 1 True 100 (i64_of (- 1000000)) 0 0"]
    by (simp add: v less_eq_i64_def)
qed

end
