(* ===== verification/Rdtsc_Calibration.thy ===== *)
theory Rdtsc_Calibration
  imports Timestamp Binary64
begin

text \<open>
  Class \<open>RDTSCCalibrator\<close> of \<open>include/utils/Timestamp.hpp\<close> and what uses it: the conversion between cycles
  and nanoseconds by two \<open>double\<close> factors, measured once against the monotonic clock.
\<close>

record calibrator =
  calibrated :: bool
  cycles_per_ns :: float64
  ns_per_cycle :: float64

text \<open>The initial values, as the decimal literals round.\<close>

definition RDTSCCalibrator_init :: calibrator where
  "RDTSCCalibrator_init = \<lparr>calibrated = False, cycles_per_ns = fround (5 / 2), ns_per_cycle = fround (2 / 5)\<rparr>"

text \<open>\<open>(end.tv_sec - start.tv_sec) * 1'000'000'000LL + (end.tv_nsec - start.tv_nsec)\<close>.\<close>

definition timespec_diff :: "timespec \<Rightarrow> timespec \<Rightarrow> i64 res" where
  "timespec_diff ts_end ts_start =
     andThen (i64_sub (tv_sec ts_end) (tv_sec ts_start)) (\<lambda>s.
       andThen (i64_mul s (i64_of 1000000000)) (\<lambda>s_ns.
         andThen (i64_sub (tv_nsec ts_end) (tv_nsec ts_start)) (\<lambda>n. i64_add s_ns n)))"

definition calibrate_from :: "64 word \<Rightarrow> i64 \<Rightarrow> calibrator" where
  "calibrate_from cycles_elapsed ns_elapsed =
     (if 0 < cycles_elapsed \<and> 0 < ns_elapsed
      then let per_ns = fdiv (float_of_int (uint cycles_elapsed)) (float_of_int (ival ns_elapsed))
           in \<lparr>calibrated = True, cycles_per_ns = per_ns, ns_per_cycle = fdiv 1 per_ns\<rparr>
      else \<lparr>calibrated = True, cycles_per_ns = fround (5 / 2), ns_per_cycle = fround (2 / 5)\<rparr>)"

definition calibrate :: "calibrator \<Rightarrow> clocks \<Rightarrow> (calibrator \<times> clocks) res" where
  "calibrate cal c =
     (if calibrated cal then Inr (cal, c)
      else
        let (rdtsc_start, c1) = rdtsc c; (ts_start, c2) = clock_gettime_monotonic c1;
            (rdtsc_end, c3) = rdtsc c2; (ts_end, c4) = clock_gettime_monotonic c3
        in andThen (timespec_diff ts_end ts_start) (\<lambda>ns_elapsed.
             Inr (calibrate_from (rdtsc_end - rdtsc_start) ns_elapsed, c4)))"

definition cyclesToNs :: "64 word \<Rightarrow> calibrator \<Rightarrow> clocks \<Rightarrow> (i64 \<times> calibrator \<times> clocks) res" where
  "cyclesToNs cycles cal c =
     andThen (calibrate cal c) (\<lambda>(cal', c').
       andThen (float_to_i64 (fmul (float_of_int (uint cycles)) (ns_per_cycle cal'))) (\<lambda>ns.
         Inr (ns, cal', c')))"

definition float_to_u64 :: "float64 \<Rightarrow> 64 word res" where
  "float_to_u64 x =
     (if 0 \<le> trunc_float x \<and> trunc_float x < 2 ^ 64 then Inr (word_of_int (trunc_float x)) else Inl OutOfRange)"

definition nsToCycles :: "i64 \<Rightarrow> calibrator \<Rightarrow> clocks \<Rightarrow> (64 word \<times> calibrator \<times> clocks) res" where
  "nsToCycles ns cal c =
     andThen (calibrate cal c) (\<lambda>(cal', c').
       andThen (float_to_u64 (fmul (float_of_int (ival ns)) (cycles_per_ns cal'))) (\<lambda>cycles.
         Inr (cycles, cal', c')))"

definition getTimestampNsRDTSC :: "calibrator \<Rightarrow> clocks \<Rightarrow> (i64 \<times> calibrator \<times> clocks) res" where
  "getTimestampNsRDTSC cal c = (let (t, c') = rdtsc c in cyclesToNs t cal c')"

definition rdtsc_elapsedNs ::
  "latency_timer_rdtsc \<Rightarrow> calibrator \<Rightarrow> clocks \<Rightarrow> (i64 \<times> calibrator \<times> clocks) res" where
  "rdtsc_elapsedNs tm cal c =
     (let (end_cycles, c') = rdtsc c in cyclesToNs (end_cycles - start_cycles tm) cal c')"

definition rdtsc_elapsedUs ::
  "latency_timer_rdtsc \<Rightarrow> calibrator \<Rightarrow> clocks \<Rightarrow> (i64 \<times> calibrator \<times> clocks) res" where
  "rdtsc_elapsedUs tm cal c =
     andThen (rdtsc_elapsedNs tm cal c) (\<lambda>(d, r). Inr (i64_quot d 1000, r))"

section \<open>Relative rounding error\<close>

lemma fround_relative:
  assumes "1 / 2 ^ 60 \<le> \<bar>x\<bar>"
  shows "\<bar>fround x - x\<bar> \<le> \<bar>x\<bar> / 2 ^ 53"
proof -
  have pos: "0 < \<bar>x\<bar>" by (rule less_le_trans [OF _ assms]) simp
  have "- 61 < binade \<bar>x\<bar>"
  proof (rule ccontr)
    assume "\<not> ?thesis"
    then have "(2 :: rat) powi (binade \<bar>x\<bar> + 1) \<le> 2 powi (- 60)" by (intro power_int_increasing) simp_all
    also have "\<dots> = 1 / 2 ^ 60" by (simp add: power_int_minus)
    finally show False using binade_bounds(2) [OF pos] assms by linarith
  qed
  then have "max (binade \<bar>x\<bar> - 52) (- 1074) = binade \<bar>x\<bar> - 52" by simp
  then have "unit_of x = 2 powi binade \<bar>x\<bar> / 2 powi 52" by (simp add: unit_of_def power_int_diff)
  also have "\<dots> \<le> \<bar>x\<bar> / 2 powi 52" using binade_bounds(1) [OF pos] by (simp add: divide_right_mono)
  finally show ?thesis using fround_error [of x] by simp
qed

lemma fround_factor:
  assumes "1 / 2 ^ 60 \<le> x"
  obtains a where "fround x = x * (1 + a)" and "\<bar>a\<bar> \<le> 1 / 2 ^ 53"
proof -
  have pos: "0 < x" by (rule less_le_trans [OF _ assms]) simp
  let ?a = "(fround x - x) / x"
  have "fround x = x * (1 + ?a)" using pos by (simp add: field_simps)
  moreover have "\<bar>?a\<bar> = \<bar>fround x - x\<bar> / x" using pos by simp
  then have "\<bar>?a\<bar> \<le> (x / 2 ^ 53) / x"
    using fround_relative [of x] assms pos by (simp only: abs_of_pos divide_right_mono less_imp_le)
  then have "\<bar>?a\<bar> \<le> 1 / 2 ^ 53" using pos by simp
  ultimately show thesis by (rule that)
qed

text \<open>Three roundings move a quotient of quotients by less than four units of the last place.\<close>

lemma three_roundings:
  fixes a b d :: rat
  assumes "\<bar>a\<bar> \<le> 1 / 2 ^ 53" and "\<bar>b\<bar> \<le> 1 / 2 ^ 53" and "\<bar>d\<bar> \<le> 1 / 2 ^ 53"
  shows "(1 + b) * (1 + d) / (1 + a) \<le> 1 + 4 / 2 ^ 53" and "1 - 4 / 2 ^ 53 \<le> (1 + b) * (1 + d) / (1 + a)"
proof -
  let ?u = "1 / 2 ^ 53 :: rat"
  have a: "1 - ?u \<le> 1 + a" "1 + a \<le> 1 + ?u" and b: "1 - ?u \<le> 1 + b" "1 + b \<le> 1 + ?u"
    and d: "1 - ?u \<le> 1 + d" "1 + d \<le> 1 + ?u"
    using assms unfolding abs_le_iff by linarith+
  have up: "(1 + b) * (1 + d) \<le> (1 + ?u) * (1 + ?u)"
    using b d by (intro mult_mono) simp_all
  have low: "(1 - ?u) * (1 - ?u) \<le> (1 + b) * (1 + d)"
    using b d by (intro mult_mono) simp_all
  have pos: "0 < 1 + a" by (rule less_le_trans [OF _ a(1)]) simp
  have "(1 + ?u) * (1 + ?u) \<le> (1 + 4 / 2 ^ 53) * (1 - ?u)" by simp
  also have "\<dots> \<le> (1 + 4 / 2 ^ 53) * (1 + a)" using a(1) by (intro mult_left_mono) simp_all
  finally show "(1 + b) * (1 + d) / (1 + a) \<le> 1 + 4 / 2 ^ 53"
    using up pos by (simp add: pos_divide_le_eq)
  have "(1 - 4 / 2 ^ 53) * (1 + a) \<le> (1 - 4 / 2 ^ 53) * (1 + ?u)" using a(2) by (intro mult_left_mono) simp_all
  also have "\<dots> \<le> (1 - ?u) * (1 - ?u)" by simp
  finally show "1 - 4 / 2 ^ 53 \<le> (1 + b) * (1 + d) / (1 + a)"
    using low pos by (simp add: pos_le_divide_eq)
qed

text \<open>The product with the measured rate, and with its reciprocal.\<close>

lemma relative_near:
  fixes x g k :: rat
  assumes "0 \<le> x" and "g \<le> 1 + k" and "1 - k \<le> g" and "x * k \<le> e"
  shows "\<bar>x * g - x\<bar> \<le> e"
proof -
  have "x * g \<le> x * (1 + k)" "x * (1 - k) \<le> x * g" using assms(1-3) by (intro mult_left_mono; simp)+
  then have "x * g \<le> x + x * k" "x - x * k \<le> x * g" by (simp_all only: distrib_left right_diff_distrib mult_1_right)
  then show ?thesis using assms(4) unfolding abs_le_iff by linarith
qed

lemma measured_quotient:
  fixes c t :: rat
  assumes c: "1 \<le> c" "c \<le> 2 ^ 50" and t: "1 \<le> t" "t \<le> 2 ^ 50"
  obtains a where "fdiv c t = c / t * (1 + a)" and "\<bar>a\<bar> \<le> 1 / 2 ^ 53" and "1 / 2 \<le> 1 + a" and "1 + a \<le> 2"
    and "1 / 2 ^ 50 \<le> c / t"
proof -
  have ct: "1 / 2 ^ 50 \<le> c / t" using c t by (intro frac_le) simp_all
  have "1 / 2 ^ 60 \<le> c / t" by (rule order_trans [OF _ ct]) simp
  then obtain a where a: "fdiv c t = c / t * (1 + a)" "\<bar>a\<bar> \<le> 1 / 2 ^ 53"
    unfolding fdiv_def by (rule fround_factor)
  have u: "1 / 2 ^ 53 \<le> (1 / 2 :: rat)" by simp
  then have "1 / 2 \<le> 1 + a" "1 + a \<le> 2" using a(2) unfolding abs_le_iff by linarith+
  with a ct show thesis by (intro that)
qed

lemma rate_product:
  fixes c t x :: rat
  assumes c: "1 \<le> c" "c \<le> 2 ^ 50" and t: "1 \<le> t" "t \<le> 2 ^ 50" and x: "1 \<le> x" "x * (c / t) \<le> 2 ^ 50"
  shows "\<bar>fmul x (fdiv c t) - x * (c / t)\<bar> \<le> 3 / 8"
proof -
  obtain a where a: "fdiv c t = c / t * (1 + a)" "\<bar>a\<bar> \<le> 1 / 2 ^ 53" "1 / 2 \<le> 1 + a" "1 + a \<le> 2" "1 / 2 ^ 50 \<le> c / t"
    using c t by (rule measured_quotient)
  let ?p = "x * (c / t)"
  have prod: "x * fdiv c t = ?p * (1 + a)" unfolding a(1) by simp
  have p0: "0 \<le> ?p" using c t x by simp
  have "1 * (1 / 2 ^ 50) * (1 / 2) \<le> ?p * (1 + a)" using a x p0 by (intro mult_mono) simp_all
  then have "1 / 2 ^ 60 \<le> x * fdiv c t" unfolding prod by (rule order_trans [rotated]) simp
  then obtain d where d: "fmul x (fdiv c t) = x * fdiv c t * (1 + d)" "\<bar>d\<bar> \<le> 1 / 2 ^ 53"
    unfolding fmul_def by (rule fround_factor)
  let ?u = "1 / 2 ^ 53 :: rat"
  have d': "1 - ?u \<le> 1 + d" "1 + d \<le> 1 + ?u" and a': "1 - ?u \<le> 1 + a" "1 + a \<le> 1 + ?u"
    using a(2) d(2) unfolding abs_le_iff by linarith+
  have "(1 + a) * (1 + d) \<le> (1 + ?u) * (1 + ?u)" using a' d' by (intro mult_mono) simp_all
  also have "\<dots> \<le> 1 + 3 / 2 ^ 53" by simp
  finally have up: "(1 + a) * (1 + d) \<le> 1 + 3 / 2 ^ 53" .
  have "1 - 3 / 2 ^ 53 \<le> (1 - ?u) * (1 - ?u)" by simp
  also have "\<dots> \<le> (1 + a) * (1 + d)" using a' d' by (intro mult_mono) simp_all
  finally have low: "1 - 3 / 2 ^ 53 \<le> (1 + a) * (1 + d)" .
  have "?p * (3 / 2 ^ 53) \<le> 2 ^ 50 * (3 / 2 ^ 53)" using x(2) by (intro mult_right_mono) simp_all
  then have "?p * (3 / 2 ^ 53) \<le> 3 / 8" by simp
  from relative_near [OF p0 up low this] show ?thesis unfolding d(1) prod by (simp only: mult.assoc)
qed

lemma reciprocal_product:
  fixes c t k :: rat
  assumes c: "1 \<le> c" "c \<le> 2 ^ 50" and t: "1 \<le> t" "t \<le> 2 ^ 50" and k: "1 \<le> k" "k * (t / c) \<le> 2 ^ 50"
  shows "\<bar>fmul k (fdiv 1 (fdiv c t)) - k * (t / c)\<bar> \<le> 1 / 2"
proof -
  obtain a where a: "fdiv c t = c / t * (1 + a)" "\<bar>a\<bar> \<le> 1 / 2 ^ 53" "1 / 2 \<le> 1 + a" "1 + a \<le> 2"
    using c t by (rule measured_quotient)
  have "c / t \<le> c / 1" using c t by (intro divide_left_mono) simp_all
  then have "c / t * (1 + a) \<le> 2 ^ 50 * 2" using c a t by (intro mult_mono) simp_all
  moreover have "0 < c / t * (1 + a)" using c t a by (intro mult_pos_pos divide_pos_pos) linarith+
  ultimately have "1 / (2 ^ 50 * 2) \<le> 1 / (c / t * (1 + a))" by (intro frac_le) simp_all
  then have "1 / 2 ^ 60 \<le> 1 / fdiv c t" unfolding a(1) by (rule order_trans [rotated]) simp
  then obtain b where b: "fdiv 1 (fdiv c t) = 1 / fdiv c t * (1 + b)" "\<bar>b\<bar> \<le> 1 / 2 ^ 53"
    unfolding fdiv_def [of 1] by (rule fround_factor)
  have "1 / 2 ^ 53 \<le> (1 / 2 :: rat)" by simp
  then have b': "1 / 2 \<le> 1 + b" using b(2) unfolding abs_le_iff by linarith
  let ?p = "k * (t / c)"
  have "k * fdiv 1 (fdiv c t) = k * (1 / (c / t * (1 + a)) * (1 + b))" using b(1) unfolding a(1) by simp
  also have "\<dots> = ?p * (1 + b) / (1 + a)" using c t a by simp
  finally have prod: "k * fdiv 1 (fdiv c t) = ?p * (1 + b) / (1 + a)" .
  have tc: "1 / 2 ^ 50 \<le> t / c" using c t by (intro frac_le) simp_all
  have p0: "0 \<le> ?p" using c t k by simp
  have "1 * (1 / 2 ^ 50) \<le> ?p" using k tc by (intro mult_mono) simp_all
  from mult_mono [OF this b' p0] have "1 * (1 / 2 ^ 50) * (1 / 2) \<le> ?p * (1 + b)" by simp
  moreover have "0 \<le> ?p * (1 + b)" using b' by (intro mult_nonneg_nonneg [OF p0]) linarith
  ultimately have "1 * (1 / 2 ^ 50) * (1 / 2) / 2 \<le> ?p * (1 + b) / (1 + a)"
    using a by (intro frac_le) simp_all
  then have "1 / 2 ^ 60 \<le> k * fdiv 1 (fdiv c t)" unfolding prod by (rule order_trans [rotated]) simp
  then obtain d where d: "fmul k (fdiv 1 (fdiv c t)) = k * fdiv 1 (fdiv c t) * (1 + d)" "\<bar>d\<bar> \<le> 1 / 2 ^ 53"
    unfolding fmul_def by (rule fround_factor)
  have y: "fmul k (fdiv 1 (fdiv c t)) = ?p * ((1 + b) * (1 + d) / (1 + a))" unfolding d(1) prod by (simp add: field_simps)
  have "?p * (4 / 2 ^ 53) \<le> 2 ^ 50 * (4 / 2 ^ 53)" using k(2) by (intro mult_right_mono) simp_all
  then have "?p * (4 / 2 ^ 53) \<le> 1 / 2" by simp
  from relative_near [OF p0 three_roundings [OF a(2) b(2) d(2)] this] show ?thesis unfolding y .
qed

lemma fmul_0 [simp]: "fmul 0 r = 0"
  by (simp add: fmul_def)

section \<open>What the calibration promises\<close>

text \<open>A calibration from \<open>c\<close> cycles in \<open>t\<close> nanoseconds, its conversions as operations on numbers.\<close>

definition converts :: "calibrator \<Rightarrow> rat \<Rightarrow> rat \<Rightarrow> bool" where
  "converts cal c t \<longleftrightarrow> calibrated cal \<and> cycles_per_ns cal = fdiv c t \<and> ns_per_cycle cal = fdiv 1 (fdiv c t) \<and>
     1 \<le> c \<and> c \<le> 2 ^ 50 \<and> 1 \<le> t \<and> t \<le> 2 ^ 50"

lemma float_of_small: "0 \<le> n \<Longrightarrow> n \<le> 2 ^ 50 \<Longrightarrow> float_of_int n = of_int n"
  unfolding float_of_int_def by (rule fround_int) simp

lemma small_of_int: "1 \<le> n \<Longrightarrow> n \<le> 2 ^ 50 \<Longrightarrow> 1 \<le> (of_int n :: rat) \<and> (of_int n :: rat) \<le> 2 ^ 50"
  using of_int_le_iff [of n "2 ^ 50", where 'a = rat] by simp

lemma calibrate_from_converts:
  assumes "0 < cycles" and "uint cycles < 2 ^ 50" and "0 < ns" and "ival ns < 2 ^ 50"
  shows "converts (calibrate_from cycles ns) (of_int (uint cycles)) (of_int (ival ns))"
proof -
  have "1 \<le> uint cycles" using assms(1) by (simp add: word_less_def int_one_le_iff_zero_less)
  moreover have "1 \<le> ival ns" using assms(3) by (simp add: less_i64_def)
  moreover have "calibrate_from cycles ns = (let per_ns = fdiv (float_of_int (uint cycles)) (float_of_int (ival ns))
      in \<lparr>calibrated = True, cycles_per_ns = per_ns, ns_per_cycle = fdiv 1 per_ns\<rparr>)"
    using assms(1,3) unfolding calibrate_from_def by (simp only: simp_thms if_True)
  ultimately show ?thesis
    using assms(2,4) small_of_int [of "uint cycles"] small_of_int [of "ival ns"]
    by (simp add: converts_def Let_def float_of_small)
qed

lemma trunc_near:
  assumes "\<bar>y - p\<bar> \<le> e" and "0 \<le> p" and "e < 1"
  shows "of_int (trunc_float y) \<le> p + e" and "p - e < of_int (trunc_float y) + 1" and "0 \<le> trunc_float y"
proof -
  have y: "y \<le> p + e" "p - e \<le> y" using assms(1) unfolding abs_le_iff by linarith+
  have e: "0 \<le> e" using assms(1) by linarith
  have "\<lfloor>- y\<rfloor> = 0" if "y < 0"
  proof (rule floor_unique)
    show "of_int 0 \<le> - y" "- y < of_int 0 + 1" using that y assms(2,3) unfolding of_int_0 by linarith+
  qed
  then have neg: "trunc_float y = 0" if "y < 0" using that by (simp add: trunc_float_def)
  have pos: "trunc_float y = \<lfloor>y\<rfloor>" if "\<not> y < 0" using that by (simp add: trunc_float_def)
  have fl: "of_int \<lfloor>y\<rfloor> \<le> y" "y < of_int \<lfloor>y\<rfloor> + 1" using floor_correct [of y] by auto
  show "of_int (trunc_float y) \<le> p + e"
    using neg pos fl y e assms(2) by (cases "y < 0") (simp_all, linarith)
  show "p - e < of_int (trunc_float y) + 1"
  proof (cases "y < 0")
    case True
    then show ?thesis using y unfolding neg [OF True] of_int_0 by linarith
  next
    case False
    then show ?thesis using y fl unfolding pos [OF False] by linarith
  qed
  show "0 \<le> trunc_float y" using neg pos by (cases "y < 0") simp_all
qed

lemma cyclesToNs_near:
  assumes "converts cal c t" and "uint k \<le> 2 ^ 50" and "of_int (uint k) * (t / c) \<le> 2 ^ 50"
  obtains d where "cyclesToNs k cal clk = Inr (d, cal, clk)"
    and "0 \<le> ival d" and "of_int (ival d) \<le> of_int (uint k) * (t / c) + 1 / 2"
    and "of_int (uint k) * (t / c) - 1 / 2 < of_int (ival d) + 1"
proof (cases "k = 0")
  case True
  then have "cyclesToNs k cal clk = Inr (i64_of 0, cal, clk)"
    using assms(1) by (simp add: cyclesToNs_def calibrate_def converts_def float_to_i64_def float_of_int_def trunc_float_def in_i64_def)
  moreover have "ival (i64_of 0) = 0" "uint k = 0" using True by (simp_all add: in_i64_def)
  ultimately show thesis by (intro that [of "i64_of 0"]) (simp_all only:)
next
  case False
  then have k1: "1 \<le> uint k" by (metis int_one_le_iff_zero_less uint_0_iff uint_lt_0 not_less_iff_gr_or_eq)
  let ?k = "of_int (uint k) :: rat" and ?y = "fmul (of_int (uint k)) (fdiv 1 (fdiv c t))"
  have cv: "1 \<le> c" "c \<le> 2 ^ 50" "1 \<le> t" "t \<le> 2 ^ 50" "calibrated cal" "ns_per_cycle cal = fdiv 1 (fdiv c t)"
    using assms(1) by (simp_all add: converts_def)
  have kk: "1 \<le> ?k" using small_of_int [OF k1 assms(2)] by simp
  have fl: "float_of_int (uint k) = ?k" using k1 assms(2) by (simp add: float_of_small)
  have p0: "0 \<le> ?k * (t / c)" using cv kk by simp
  note tr = trunc_near [OF reciprocal_product [OF cv(1-4) kk assms(3)] p0]
  have "of_int (trunc_float ?y) \<le> (2 :: rat) ^ 50 + 1 / 2" using tr(1) assms(3) by linarith
  also have "\<dots> < of_int (2 ^ 51)" by simp
  finally have "trunc_float ?y < 2 ^ 51" by (simp only: of_int_less_iff)
  then have in64: "in_i64 (trunc_float ?y)" using tr(3) by (simp add: in_i64_def)
  have "cyclesToNs k cal clk = Inr (i64_of (trunc_float ?y), cal, clk)"
    using cv(5,6) in64 by (simp add: cyclesToNs_def calibrate_def float_to_i64_def fl)
  then show thesis
    by (rule that [of "i64_of (trunc_float ?y)"]) (use in64 tr in \<open>simp_all del: of_int_uint\<close>)
qed

lemma nsToCycles_near:
  assumes "converts cal c t" and "0 \<le> x" and "ival x \<le> 2 ^ 50" and "of_int (ival x) * (c / t) \<le> 2 ^ 50"
  obtains k where "nsToCycles x cal clk = Inr (k, cal, clk)"
    and "of_int (uint k) \<le> of_int (ival x) * (c / t) + 3 / 8"
    and "of_int (ival x) * (c / t) - 3 / 8 < of_int (uint k) + 1"
proof (cases "ival x = 0")
  case True
  then have "nsToCycles x cal clk = Inr (0, cal, clk)"
    using assms(1) by (simp add: nsToCycles_def calibrate_def converts_def float_to_u64_def float_of_int_def trunc_float_def)
  moreover have "uint (0 :: 64 word) = 0" by simp
  ultimately show thesis using True by (intro that [of 0]) (simp_all only:)
next
  case False
  then have x1: "1 \<le> ival x" using assms(2) unfolding less_eq_i64_def ival_zero by linarith
  let ?x = "of_int (ival x) :: rat" and ?z = "fmul (of_int (ival x)) (fdiv c t)"
  have cv: "1 \<le> c" "c \<le> 2 ^ 50" "1 \<le> t" "t \<le> 2 ^ 50" "calibrated cal" "cycles_per_ns cal = fdiv c t"
    using assms(1) by (simp_all add: converts_def)
  have xx: "1 \<le> ?x" using small_of_int [OF x1 assms(3)] by simp
  have fl: "float_of_int (ival x) = ?x" using x1 assms(3) by (simp add: float_of_small)
  have p0: "0 \<le> ?x * (c / t)" using cv xx by simp
  note tr = trunc_near [OF rate_product [OF cv(1-4) xx assms(4)] p0]
  have "of_int (trunc_float ?z) \<le> (2 :: rat) ^ 50 + 3 / 8" using tr(1) assms(4) by linarith
  also have "\<dots> < of_int (2 ^ 51)" by simp
  finally have lt: "trunc_float ?z < 2 ^ 51" by (simp only: of_int_less_iff)
  have u: "uint (word_of_int (trunc_float ?z) :: 64 word) = trunc_float ?z"
    using lt tr(3) by (simp add: uint_word_of_int)
  have "nsToCycles x cal clk = Inr (word_of_int (trunc_float ?z), cal, clk)"
    using cv(5,6) lt tr(3) by (simp add: nsToCycles_def calibrate_def float_to_u64_def fl)
  then show thesis
    by (rule that [of "word_of_int (trunc_float ?z)"]) (simp_all only: u, use tr in simp_all)
qed

lemma rates_inverse:
  fixes c t :: rat
  assumes "1 \<le> c" and "1 \<le> t" and "t \<le> c"
  shows "1 \<le> c / t" and "0 < t / c" and "t / c \<le> 1" and "c / t * (t / c) = 1"
  using assms by simp_all

lemma below_rate: "0 < t \<Longrightarrow> x * c \<le> b * t \<Longrightarrow> x * (c / t) \<le> (b :: rat)"
  by (simp add: field_simps)

text \<open>C26: A calibration from fewer than \<open>2 ^ 50\<close> cycles in fewer than \<open>2 ^ 50\<close> nanoseconds (13 days) gives
  conversions that undo one another, in spite of all roundings and truncations, and neither calibrates
  again. The measured cycles are the measured nanoseconds, or one less, and the measured nanoseconds are the
  measured cycles, or one less. With a counter of at least one cycle per nanosecond, any time of up to
  \<open>2 ^ 49\<close> cycles that \<open>nsToCycles\<close> converts to cycles is converted by \<open>cyclesToNs\<close> back to itself, or to at most
  two nanoseconds less.\<close>

theorem calibration_round_trip:
  assumes "0 < cycles" and "uint cycles < 2 ^ 50" and "0 < ns" and "ival ns < 2 ^ 50"
    and "cal = calibrate_from cycles ns"
  shows "(\<exists>d. cyclesToNs cycles cal c = Inr (d, cal, c) \<and> (ival d = ival ns \<or> ival d = ival ns - 1)) \<and>
    (\<exists>k. nsToCycles ns cal c = Inr (k, cal, c) \<and> (uint k = uint cycles \<or> uint k = uint cycles - 1)) \<and>
    (\<forall>x. ival ns \<le> uint cycles \<and> 0 \<le> x \<and> ival x * uint cycles \<le> 2 ^ 49 * ival ns \<longrightarrow>
      (\<exists>k y. nsToCycles x cal c = Inr (k, cal, c) \<and> cyclesToNs k cal c = Inr (y, cal, c) \<and>
        ival x - 2 \<le> ival y \<and> ival y \<le> ival x))"
proof (intro conjI allI impI)
  let ?c = "of_int (uint cycles) :: rat" and ?t = "of_int (ival ns) :: rat"
  note cv = calibrate_from_converts [OF assms(1-4), folded assms(5)]
  have b: "1 \<le> ?c" "?c \<le> 2 ^ 50" "1 \<le> ?t" "?t \<le> 2 ^ 50" using cv unfolding converts_def by blast+
  have eq: "?c * (?t / ?c) = ?t" "?t * (?c / ?t) = ?c"
    using b(1,3) by (simp_all only: times_divide_eq_right) (rule nonzero_mult_div_cancel_left, linarith)+
  show "\<exists>d. cyclesToNs cycles cal c = Inr (d, cal, c) \<and> (ival d = ival ns \<or> ival d = ival ns - 1)"
  proof -
    have "uint cycles \<le> 2 ^ 50" "?c * (?t / ?c) \<le> 2 ^ 50" using assms(2) b(4) unfolding eq by simp_all
    with cv obtain d where d: "cyclesToNs cycles cal c = Inr (d, cal, c)"
      "of_int (ival d) \<le> ?c * (?t / ?c) + 1 / 2" "?c * (?t / ?c) - 1 / 2 < of_int (ival d) + 1"
      by (rule cyclesToNs_near)
    have "of_int (ival d) < (of_int (ival ns + 1) :: rat)" "(of_int (ival ns - 2) :: rat) < of_int (ival d)"
      using d(2,3) unfolding eq by simp_all
    then have "ival d = ival ns \<or> ival d = ival ns - 1" unfolding of_int_less_iff by linarith
    with d(1) show ?thesis by blast
  qed
  show "\<exists>k. nsToCycles ns cal c = Inr (k, cal, c) \<and> (uint k = uint cycles \<or> uint k = uint cycles - 1)"
  proof -
    have "0 \<le> ns" "ival ns \<le> 2 ^ 50" "?t * (?c / ?t) \<le> 2 ^ 50"
      using assms(3,4) b(2) unfolding eq by (simp_all add: less_imp_le)
    with cv obtain k where k: "nsToCycles ns cal c = Inr (k, cal, c)"
      "of_int (uint k) \<le> ?t * (?c / ?t) + 3 / 8" "?t * (?c / ?t) - 3 / 8 < of_int (uint k) + 1"
      by (rule nsToCycles_near)
    have "of_int (uint k) < (of_int (uint cycles + 1) :: rat)" "(of_int (uint cycles - 2) :: rat) < of_int (uint k)"
      using k(2,3) unfolding eq by (simp_all del: of_int_uint)
    then have "uint k = uint cycles \<or> uint k = uint cycles - 1" unfolding of_int_less_iff by linarith
    with k(1) show ?thesis by blast
  qed
  fix x
  assume x: "ival ns \<le> uint cycles \<and> 0 \<le> x \<and> ival x * uint cycles \<le> 2 ^ 49 * ival ns"
  let ?x = "of_int (ival x) :: rat"
  have x0: "0 \<le> ?x" using x by (simp add: less_eq_i64_def)
  have "?t \<le> ?c" using x by (simp only: of_int_le_iff)
  note inv = rates_inverse [OF b(1,3) this]
  have "of_int (ival x * uint cycles) \<le> (of_int (2 ^ 49 * ival ns) :: rat)" using x by (simp only: of_int_le_iff)
  then have "?x * ?c \<le> 2 ^ 49 * ?t" by (simp only: of_int_mult of_int_power of_int_numeral)
  with b(3) have xc: "?x * (?c / ?t) \<le> 2 ^ 49" by (intro below_rate) linarith
  have "?x * 1 \<le> ?x * (?c / ?t)" using x0 inv(1) by (intro mult_left_mono)
  then have x49: "?x \<le> 2 ^ 49" using xc by simp
  have "?x \<le> of_int (2 ^ 50)" "?x * (?c / ?t) \<le> 2 ^ 50" using x49 xc by simp_all
  then have x50: "ival x \<le> 2 ^ 50" "?x * (?c / ?t) \<le> 2 ^ 50" by (simp_all only: of_int_le_iff)
  have "0 \<le> x" using x by blast
  from cv this x50 obtain k where k: "nsToCycles x cal c = Inr (k, cal, c)"
    "of_int (uint k) \<le> ?x * (?c / ?t) + 3 / 8" "?x * (?c / ?t) - 3 / 8 < of_int (uint k) + 1"
    by (rule nsToCycles_near)
  let ?k = "of_int (uint k) :: rat" and ?r = "?t / ?c"
  have undo: "(?x * (?c / ?t) + e) * ?r = ?x + e * ?r" for e
    using inv(4) by (simp only: distrib_right mult.assoc mult_1_right)
  have "?k * ?r \<le> (?x * (?c / ?t) + 3 / 8) * ?r" using k(2) inv(2) by (intro mult_right_mono) simp_all
  then have up: "?k * ?r \<le> ?x + 3 / 8" using inv(3) unfolding undo by simp
  have "(?x * (?c / ?t) + (- 11 / 8)) * ?r < ?k * ?r" using k(3) inv(2) by (intro mult_strict_right_mono) simp_all
  then have low: "?x - 11 / 8 < ?k * ?r" using inv(3) unfolding undo by simp
  have "?k \<le> of_int (2 ^ 50)" using k(2) xc by simp
  then have "uint k \<le> 2 ^ 50" by (simp only: of_int_le_iff)
  moreover have "?k * ?r \<le> 2 ^ 50" using up x49 by simp
  ultimately have k50: "uint k \<le> 2 ^ 50" "?k * ?r \<le> 2 ^ 50" by blast+
  from cv k50 obtain y where y: "cyclesToNs k cal c = Inr (y, cal, c)"
    "of_int (ival y) \<le> ?k * ?r + 1 / 2" "?k * ?r - 1 / 2 < of_int (ival y) + 1"
    by (rule cyclesToNs_near)
  have "of_int (ival y) < (of_int (ival x + 1) :: rat)" "(of_int (ival x - 3) :: rat) < of_int (ival y)"
    using up low y(2,3) by (simp_all del: of_int_uint)
  then have "ival x - 2 \<le> ival y" "ival y \<le> ival x" unfolding of_int_less_iff by linarith+
  with k(1) y(1) show "\<exists>k y. nsToCycles x cal c = Inr (k, cal, c) \<and> cyclesToNs k cal c = Inr (y, cal, c) \<and>
      ival x - 2 \<le> ival y \<and> ival y \<le> ival x" by blast
qed

theorem calibration_round_trip_witness:
  "\<exists>k y. nsToCycles (i64_of 300) (calibrate_from 2500 (i64_of 1000)) ticking_clocks =
      Inr (k, calibrate_from 2500 (i64_of 1000), ticking_clocks) \<and>
    cyclesToNs k (calibrate_from 2500 (i64_of 1000)) ticking_clocks =
      Inr (y, calibrate_from 2500 (i64_of 1000), ticking_clocks) \<and> 298 \<le> ival y \<and> ival y \<le> 300"
proof -
  have v: "ival (i64_of 1000) = 1000" "ival (i64_of 300) = 300" by (simp_all add: in_i64_def)
  have "(0 :: 64 word) < 2500" "uint (2500 :: 64 word) < 2 ^ 50" "0 < i64_of 1000" "ival (i64_of 1000) < 2 ^ 50"
    by (simp_all add: v less_i64_def)
  note trip = calibration_round_trip [OF this refl, of ticking_clocks]
  have "ival (i64_of 1000) \<le> uint (2500 :: 64 word) \<and> 0 \<le> i64_of 300 \<and>
      ival (i64_of 300) * uint (2500 :: 64 word) \<le> 2 ^ 49 * ival (i64_of 1000)"
    by (simp add: v less_eq_i64_def)
  with trip [THEN conjunct2, THEN conjunct2, THEN spec, of "i64_of 300"] show ?thesis by (simp add: v)
qed

end
