(* ===== verification/Main_Program.thy ===== *)
theory Main_Program
  imports Memory_Pool Price_Conversion Rdtsc_Calibration Float_Format
begin

text \<open>
  \<open>src/main.cpp\<close>, the function \<open>main\<close> up to the queue demonstration (which is in \<open>Queue_Demo\<close>): it starts
  the logger, places three orders from the pool, matches, and reports. Whether the log file opens,
  whether the optimisations of the operating system succeed and the number of cores are parameters.
\<close>

section \<open>Program states and actions\<close>

record program =
  engine :: match_state
  pool :: order_pool
  calib :: calibrator

type_synonym action = "program \<Rightarrow> program res"

primrec run_all :: "action list \<Rightarrow> action" where
  "run_all [] s = Inr s"
| "run_all (a # as) s = andThen (a s) (run_all as)"

definition with_result :: "(program \<Rightarrow> ('a \<times> program) res) \<Rightarrow> ('a \<Rightarrow> action) \<Rightarrow> action" where
  "with_result m k s = andThen (m s) (\<lambda>(x, s'). k x s')"

definition set_clock :: "clocks \<Rightarrow> match_state \<Rightarrow> match_state" where
  "set_clock c st = st\<lparr>memory_of := (memory_of st)\<lparr>clock := c\<rparr>\<rparr>"

text \<open>The logging macros, on the one logger of the process.\<close>

definition LOG :: "log_level \<Rightarrow> string \<Rightarrow> 32 word \<Rightarrow> action" where
  "LOG lvl msg tid s =
     andThen (log_msg lvl msg tid (clock (memory_of (engine s))) (logger_of (engine s))) (\<lambda>(c, lg).
       Inr (s\<lparr>engine := (set_clock c (engine s))\<lparr>logger_of := lg\<rparr>\<rparr>))"

definition LOG_F :: "log_level \<Rightarrow> string \<Rightarrow> 32 word \<Rightarrow> action" where
  "LOG_F lvl expansion tid s =
     andThen (logf lvl expansion tid (clock (memory_of (engine s))) (logger_of (engine s))) (\<lambda>(c, lg).
       Inr (s\<lparr>engine := (set_clock c (engine s))\<lparr>logger_of := lg\<rparr>\<rparr>))"

text \<open>A price or a spread divided by \<open>1e6\<close>.\<close>

definition show_dollars :: "price \<Rightarrow> string" where
  "show_dollars p = show_fixed2 (fdiv (float_of_int (ival p)) 1000000)"

section \<open>The steps of main\<close>

text \<open>\<open>*p = Order(id, side, quantity, Order::doubleToPrice(price), hft::getTimestampNs())\<close> on a new object.\<close>

definition create_order ::
  "64 word \<Rightarrow> (heap \<Rightarrow> addr) \<Rightarrow> order_ident \<Rightarrow> bool \<Rightarrow> qty \<Rightarrow> float64 \<Rightarrow> program \<Rightarrow> (addr \<times> program) res" where
  "create_order N malloc i buy q pr s =
     (let mem = memory_of (engine s); (p, pl, h) = pool_allocate N malloc (pool s) (heap mem) in
      andThen (doubleToPrice pr) (\<lambda>scaled.
        andThen (getTimestampNs (clock mem)) (\<lambda>(t, c).
          Inr (p, s\<lparr>pool := pl,
            engine := (engine s)\<lparr>memory_of := \<lparr>heap = h(p \<mapsto> Order_new i buy q scaled t 0), clock = c\<rparr>\<rparr>\<rparr>))))"

definition add_to_book :: "addr \<Rightarrow> action" where
  "add_to_book p s =
     andThen (addOrder (Some p) (book_of (engine s)) (memory_of (engine s))) (\<lambda>(_, bk, mem).
       Inr (s\<lparr>engine := (engine s)\<lparr>book_of := bk, memory_of := mem\<rparr>\<rparr>))"

definition place_order ::
  "64 word \<Rightarrow> (heap \<Rightarrow> addr) \<Rightarrow> order_ident \<Rightarrow> bool \<Rightarrow> qty \<Rightarrow> float64 \<Rightarrow> action" where
  "place_order N malloc i buy q pr = with_result (create_order N malloc i buy q pr) add_to_book"

text \<open>\<open>best ? best->quantity : 0\<close>.\<close>

definition quantity_or_zero :: "heap \<Rightarrow> addr option \<Rightarrow> qty res" where
  "quantity_or_zero h ptr =
     (case ptr of None \<Rightarrow> Inr 0 | Some p \<Rightarrow> andThen (deref h p) (\<lambda>od. Inr (quantity od)))"

definition report_best :: "32 word \<Rightarrow> action" where
  "report_best tid s =
     (let bk = book_of (engine s); h = heap (memory_of (engine s)) in
      andThen (quantity_or_zero h (getBestBid bk)) (\<lambda>bid.
        andThen (quantity_or_zero h (getBestAsk bk)) (\<lambda>ask.
          run_all
            [LOG_F INFO (''  Best Bid: $'' @ show_dollars (getBestBidPrice bk) @ '' (Qty: '' @
               show_unsigned (unat bid) @ '')'') tid,
             LOG_F INFO (''  Best Ask: $'' @ show_dollars (getBestAskPrice bk) @ '' (Qty: '' @
               show_unsigned (unat ask) @ '')'') tid] s)))"

definition report_spread :: "32 word \<Rightarrow> action" where
  "report_spread tid s =
     andThen (getSpread (book_of (engine s))) (\<lambda>spread.
       LOG_F INFO (''  Spread: $'' @ show_dollars spread) tid s)"

definition start_timer :: "program \<Rightarrow> (latency_timer_rdtsc \<times> program) res" where
  "start_timer s =
     (let (tm, c) = LatencyTimerRDTSC_new (clock (memory_of (engine s)))
      in Inr (tm, s\<lparr>engine := set_clock c (engine s)\<rparr>))"

text \<open>\<open>matchOrders\<close> must return before the program can go on: \<open>matched\<close> is its result.\<close>

definition report_match ::
  "32 word \<Rightarrow> latency_timer_rdtsc \<Rightarrow> 64 word \<Rightarrow> action" where
  "report_match tid tm trades s =
     andThen (rdtsc_elapsedUs tm (calib s) (clock (memory_of (engine s)))) (\<lambda>(latency_us, cal, c).
       let (latency_cycles, c') = elapsedCycles tm c;
           s' = s\<lparr>calib := cal, engine := set_clock c' (engine s)\<rparr>
       in andThen
            (LOG_F INFO (''  Executed '' @ show_unsigned (unat trades) @ '' trade(s) in '' @
               show_signed (ival latency_us) @ '' microseconds ('' @ show_unsigned (unat latency_cycles) @
               '' cycles)'') tid s') (\<lambda>s''.
            if 0 < trades
            then (case getLastTrade (engine s'') of
                    None \<Rightarrow> Inr s''
                  | Some t \<Rightarrow>
                      LOG_F INFO (''  Last trade: '' @ show_unsigned (unat (trade_quantity t)) @ '' @ $'' @
                        show_dollars (trade_price t)) tid s'')
            else Inr s''))"

definition match_and_report :: "32 word \<Rightarrow> program \<Rightarrow> program res option" where
  "match_and_report tid s =
     (case start_timer s of
        Inl f \<Rightarrow> Some (Inl f)
      | Inr (tm, s1) \<Rightarrow>
          (case matchOrders tid (engine s1) of
             None \<Rightarrow> None
           | Some (Inl f) \<Rightarrow> Some (Inl f)
           | Some (Inr (trades, st)) \<Rightarrow> Some (report_match tid tm trades (s1\<lparr>engine := st\<rparr>))))"

definition check_mark :: string where
  "check_mark = [CHR 0xE2, CHR 0x9C, CHR 0x93]"

definition warning_sign :: string where
  "warning_sign = [CHR 0xE2, CHR 0x9A, CHR 0xA0]"

definition banner :: string where
  "banner = ''========================================''"

definition calibrate_action :: action where
  "calibrate_action s =
     andThen (calibrate (calib s) (clock (memory_of (engine s)))) (\<lambda>(cal, c).
       Inr (s\<lparr>calib := cal, engine := set_clock c (engine s)\<rparr>))"

definition start_logger :: "(string \<Rightarrow> bool) \<Rightarrow> action" where
  "start_logger opens s =
     Inr (s\<lparr>engine := (engine s)\<lparr>logger_of :=
       snd (start ''market_engine.log'' opens (setLevel DEBUG (logger_of (engine s))))\<rparr>\<rparr>)"

definition setup_actions :: "(string \<Rightarrow> bool) \<Rightarrow> bool \<Rightarrow> int \<Rightarrow> 32 word \<Rightarrow> action list" where
  "setup_actions opens optimized cpu_count tid =
     [calibrate_action, start_logger opens,
      LOG INFO banner tid, LOG INFO ''HFT Market Data Engine - Linux Optimized'' tid, LOG INFO banner tid,
      LOG INFO ''Initializing HFT optimizations...'' tid] @
     (if optimized
      then [LOG INFO (''  '' @ check_mark @ '' CPU affinity set'') tid,
            LOG INFO (''  '' @ check_mark @ '' Memory locked'') tid]
      else [LOG WARN (''  '' @ warning_sign @ '' Some optimizations require root privileges'') tid]) @
     [LOG_F INFO (''  CPU cores: '' @ show_signed cpu_count) tid]"

definition placing_actions :: "64 word \<Rightarrow> (heap \<Rightarrow> addr) \<Rightarrow> 32 word \<Rightarrow> action list" where
  "placing_actions N malloc tid =
     [LOG INFO ''Adding sample orders...'' tid,
      place_order N malloc 1 True 100 (fround (201 / 2)),
      LOG_F INFO ''  Added buy order: ID=1, Qty=100, Price=$100.50'' tid,
      place_order N malloc 2 True 50 (fround (403 / 4)),
      LOG_F INFO ''  Added buy order: ID=2, Qty=50, Price=$100.75'' tid,
      place_order N malloc 3 False 75 (fround (401 / 4)),
      LOG_F INFO ''  Added sell order: ID=3, Qty=75, Price=$100.25'' tid]"

definition report_actions :: "32 word \<Rightarrow> action list" where
  "report_actions tid =
     [LOG INFO ''Order Book State:'' tid, report_best tid, report_spread tid, LOG INFO ''Matching orders...'' tid]"

definition order_actions :: "64 word \<Rightarrow> (heap \<Rightarrow> addr) \<Rightarrow> 32 word \<Rightarrow> action list" where
  "order_actions N malloc tid = placing_actions N malloc tid @ report_actions tid"

definition main_setup :: "(string \<Rightarrow> bool) \<Rightarrow> bool \<Rightarrow> int \<Rightarrow> 32 word \<Rightarrow> action" where
  "main_setup opens optimized cpu_count tid = run_all (setup_actions opens optimized cpu_count tid)"

definition main_orders :: "64 word \<Rightarrow> (heap \<Rightarrow> addr) \<Rightarrow> 32 word \<Rightarrow> action" where
  "main_orders N malloc tid = run_all (order_actions N malloc tid)"

text \<open>The state in which \<open>main\<close> begins: everything new, the pool's array at some address.\<close>

definition main_start :: "64 word \<Rightarrow> addr \<Rightarrow> heap \<Rightarrow> clocks \<Rightarrow> log_output \<Rightarrow> program" where
  "main_start N b h c out =
     (let (pl, h') = OrderMemoryPool_new N b h in
      \<lparr>engine = \<lparr>book_of = OrderBook_new, memory_of = \<lparr>heap = h', clock = c\<rparr>, last_trade = None,
          logger_of = AsyncLogger_new out\<rparr>,
       pool = pl, calib = RDTSCCalibrator_init\<rparr>)"

section \<open>Steps that leave the book alone\<close>

definition program_ok :: "program \<Rightarrow> bool" where
  "program_ok s \<longleftrightarrow> state_ok (engine s)"

definition the_clock :: "program \<Rightarrow> clocks" where
  "the_clock s = clock (memory_of (engine s))"

text \<open>Same book, same orders, same pool, and a wall clock that has not gone back.\<close>

definition quiet :: "program \<Rightarrow> program \<Rightarrow> bool" where
  "quiet s s' \<longleftrightarrow>
     book_of (engine s') = book_of (engine s) \<and>
     heap (memory_of (engine s')) = heap (memory_of (engine s)) \<and> pool s' = pool s \<and>
     realtime (the_clock s') = realtime (the_clock s) \<and>
     realtime_reads (the_clock s) \<le> realtime_reads (the_clock s') \<and> program_ok s'"

lemma quiet_trans: "quiet s s' \<Longrightarrow> quiet s' s'' \<Longrightarrow> quiet s s''"
  by (simp add: quiet_def)

lemma quiet_refl: "program_ok s \<Longrightarrow> quiet s s"
  by (simp add: quiet_def)

lemma quiet_ok: "quiet s s' \<Longrightarrow> program_ok s'"
  by (simp add: quiet_def)

definition quiet_action :: "action \<Rightarrow> bool" where
  "quiet_action a \<longleftrightarrow> (\<forall>s. program_ok s \<longrightarrow> (\<exists>s'. a s = Inr s' \<and> quiet s s'))"

lemma quiet_actionE:
  assumes "quiet_action a" and "program_ok s"
  obtains s' where "a s = Inr s'" and "quiet s s'" and "program_ok s'"
  using assms quiet_ok by (auto simp: quiet_action_def)

lemma run_quiet: "(\<And>a. a \<in> set as \<Longrightarrow> quiet_action a) \<Longrightarrow> quiet_action (run_all as)"
proof (induction as)
  case Nil
  then show ?case by (simp add: quiet_action_def quiet_refl)
next
  case (Cons a as)
  show ?case unfolding quiet_action_def
  proof (intro allI impI)
    fix s
    assume "program_ok s"
    with Cons.prems obtain s1 where 1: "a s = Inr s1" "quiet s s1" "program_ok s1"
      by (auto elim: quiet_actionE)
    with Cons obtain s2 where "run_all as s1 = Inr s2" "quiet s1 s2"
      by (auto elim: quiet_actionE)
    with 1 show "\<exists>s'. run_all (a # as) s = Inr s' \<and> quiet s s'" by (auto intro: quiet_trans)
  qed
qed

lemma log_msg_clock:
  "log_msg lvl msg tid c lg = Inr (c', lg') \<Longrightarrow> clocks_ok c \<Longrightarrow>
   realtime c' = realtime c \<and> realtime_reads c \<le> realtime_reads c'"
  by (auto simp: log_msg_def LogMessage_new_def getTimestampNs_ok split: if_splits)

lemma LOG_quiet: "quiet_action (LOG lvl msg tid)"
  unfolding quiet_action_def
proof (intro allI impI)
  fix s
  assume ok: "program_ok s"
  then have "logger_wf (logger_of (engine s))" "clocks_ok (clock (memory_of (engine s)))"
    by (simp_all add: program_ok_def state_ok_def)
  then obtain c lg where l: "log_msg lvl msg tid (clock (memory_of (engine s))) (logger_of (engine s)) = Inr (c, lg)"
    "clocks_ok c" "logger_wf lg"
    by (rule log_msg_effect)
  then show "\<exists>s'. LOG lvl msg tid s = Inr s' \<and> quiet s s'"
    using log_msg_clock [OF l(1)] ok
    by (simp add: LOG_def quiet_def the_clock_def set_clock_def program_ok_def state_ok_def)
qed

lemma LOG_F_quiet: "quiet_action (LOG_F lvl expansion tid)"
proof -
  have "LOG_F lvl expansion tid = LOG lvl (snprintf 256 expansion) tid"
    by (simp add: fun_eq_iff LOG_F_def LOG_def logf_def log_msg_def)
  then show ?thesis using LOG_quiet by simp
qed

lemma report_best_quiet: "quiet_action (report_best tid)"
  unfolding quiet_action_def
proof (intro allI impI)
  fix s
  assume ok: "program_ok s"
  then have wf: "book_wf (book_of (engine s)) (heap (memory_of (engine s)))"
    using state_okD(1) by (simp add: program_ok_def)
  have "\<exists>q. quantity_or_zero (heap (memory_of (engine s))) (getBestBid (book_of (engine s))) = Inr q"
    using getBest_queue(1) [OF wf] queue_live [OF wf]
    by (cases "bid_queue (book_of (engine s))") (fastforce simp: quantity_or_zero_def)+
  moreover have "\<exists>q. quantity_or_zero (heap (memory_of (engine s))) (getBestAsk (book_of (engine s))) = Inr q"
    using getBest_queue(2) [OF wf] queue_live [OF wf]
    by (cases "ask_queue (book_of (engine s))") (fastforce simp: quantity_or_zero_def)+
  ultimately obtain bid ask where
    "quantity_or_zero (heap (memory_of (engine s))) (getBestBid (book_of (engine s))) = Inr bid"
    "quantity_or_zero (heap (memory_of (engine s))) (getBestAsk (book_of (engine s))) = Inr ask" by blast
  then have "report_best tid s = run_all
      [LOG_F INFO (''  Best Bid: $'' @ show_dollars (getBestBidPrice (book_of (engine s))) @ '' (Qty: '' @
         show_unsigned (unat bid) @ '')'') tid,
       LOG_F INFO (''  Best Ask: $'' @ show_dollars (getBestAskPrice (book_of (engine s))) @ '' (Qty: '' @
         show_unsigned (unat ask) @ '')'') tid] s" (is "_ = run_all ?as s")
    by (simp only: report_best_def Let_def andThen_Inr)
  moreover have "quiet_action (run_all ?as)" by (rule run_quiet) (auto simp: LOG_F_quiet)
  ultimately show "\<exists>s'. report_best tid s = Inr s' \<and> quiet s s'"
    using ok by (auto simp: quiet_action_def)
qed

lemma report_spread_quiet:
  assumes "program_ok s" and "getSpread (book_of (engine s)) = Inr d"
  obtains s' where "report_spread tid s = Inr s'" and "quiet s s'" and "program_ok s'"
  using LOG_F_quiet assms(1) by (rule quiet_actionE) (use assms(2) that in \<open>simp add: report_spread_def\<close>)

lemma timespec_diff_ok:
  assumes "valid_timespec t2" and "valid_timespec t1"
  obtains d where "timespec_diff t2 t1 = Inr d"
proof -
  have b: "0 \<le> ival (tv_sec t1)" "ival (tv_sec t1) \<le> 9223372035" "0 \<le> ival (tv_nsec t1)" "ival (tv_nsec t1) < 1000000000"
    "0 \<le> ival (tv_sec t2)" "ival (tv_sec t2) \<le> 9223372035" "0 \<le> ival (tv_nsec t2)" "ival (tv_nsec t2) < 1000000000"
    using assms by (simp_all add: valid_timespec_def)
  then have "in_i64 (ival (tv_sec t2) - ival (tv_sec t1))" "in_i64 (ival (tv_nsec t2) - ival (tv_nsec t1))"
    "in_i64 ((ival (tv_sec t2) - ival (tv_sec t1)) * 1000000000)"
    "in_i64 ((ival (tv_sec t2) - ival (tv_sec t1)) * 1000000000 + (ival (tv_nsec t2) - ival (tv_nsec t1)))"
    by (auto simp: in_i64_def)
  moreover have "ival (i64_of 1000000000) = 1000000000" by (simp add: in_i64_def)
  ultimately show thesis
    using that by (simp add: timespec_diff_def i64_sub_def i64_mul_def i64_add_def)
qed

lemma calibrate_quiet: "quiet_action calibrate_action"
  unfolding quiet_action_def
proof (intro allI impI)
  fix s
  assume ok: "program_ok s"
  let ?c = "clock (memory_of (engine s))"
  have v: "valid_timespec (monotonic ?c n)" for n
    using ok by (simp add: program_ok_def state_ok_def clocks_ok_def)
  obtain d where "timespec_diff (monotonic ?c (Suc (monotonic_reads ?c))) (monotonic ?c (monotonic_reads ?c)) = Inr d"
    using v v by (rule timespec_diff_ok)
  then obtain cal c' where "calibrate (calib s) ?c = Inr (cal, c')" "realtime c' = realtime ?c"
    "realtime_reads c' = realtime_reads ?c" "monotonic c' = monotonic ?c"
    by (cases "calibrated (calib s)")
      (simp_all add: calibrate_def rdtsc_def clock_gettime_monotonic_def)
  then show "\<exists>s'. calibrate_action s = Inr s' \<and> quiet s s'"
    using ok by (simp add: calibrate_action_def quiet_def the_clock_def set_clock_def program_ok_def
        state_ok_def clocks_ok_def)
qed

lemma start_logger_quiet: "quiet_action (start_logger opens)"
  by (auto simp: quiet_action_def start_logger_def quiet_def the_clock_def program_ok_def state_ok_def
      logger_wf_def start_def setLevel_def Let_def)

lemma main_setup_quiet: "quiet_action (main_setup opens optimized cpu_count tid)"
  unfolding main_setup_def setup_actions_def
  by (rule run_quiet) (auto simp: calibrate_quiet start_logger_quiet LOG_quiet LOG_F_quiet split: if_splits)

section \<open>Placing an order from the pool\<close>

text \<open>The first \<open>k\<close> slots of the pool have been handed out, and the book uses no others.\<close>

definition pool_used :: "64 word \<Rightarrow> nat \<Rightarrow> program \<Rightarrow> bool" where
  "pool_used N k s \<longleftrightarrow> unat (next_free (pool s)) = k \<and>
     (\<forall>i p. getOrder i (book_of (engine s)) = Some p \<longrightarrow> p \<in> pool_slot (base (pool s)) ` {0..<k})"

lemma quiet_pool_used: "quiet s s' \<Longrightarrow> pool_used N k s \<Longrightarrow> pool_used N k s'"
  by (simp add: quiet_def pool_used_def)

lemma quiet_view: "quiet s s' \<Longrightarrow> abs_of (engine s') = abs_of (engine s)"
  by (simp add: quiet_def abs_of_def)

lemma addOrder_keeps_memory:
  "addOrder (Some p) bk mem = Inr (r, bk', mem') \<Longrightarrow> heap mem p = Some od \<Longrightarrow> timestamp_ns od \<noteq> 0 \<Longrightarrow>
   mem' = mem"
  by (auto simp: addOrder_def stamp_if_unset_def Let_def andThen_eq_Inr_iff split: if_splits)

lemma place_order_effect:
  assumes ok: "program_ok s" and used: "pool_used N k s" and k: "k < unat N"
    and fresh: "getOrder i (book_of (engine s)) = None" and q: "q \<noteq> 0"
    and price: "doubleToPrice pr = Inr scaled" and now: "clock_now (the_clock s) \<noteq> 0"
  obtains s' where "place_order N malloc i buy q pr s = Inr s'" and "program_ok s'" and "pool_used N (Suc k) s'"
    and "abs_of (engine s') =
      spec_add (Order_new i buy q scaled (clock_now (the_clock s)) 0) (abs_of (engine s))"
    and "the_clock s' = tick_realtime (the_clock s)"
    and "\<And>j. getOrder j (book_of (engine s')) = (if j = i then Some (pool_slot (base (pool s)) k)
      else getOrder j (book_of (engine s)))"
proof -
  let ?st = "engine s" and ?p = "pool_slot (base (pool s)) k"
  let ?od = "Order_new i buy q scaled (clock_now (the_clock s)) 0"
  let ?mem = "\<lparr>heap = (heap (memory_of ?st))(?p \<mapsto> ?od), clock = tick_realtime (the_clock s)\<rparr>"
  have st: "book_ok (book_of ?st) (heap (memory_of ?st))" "clocks_ok (the_clock s)" "logger_wf (logger_of ?st)"
    using ok by (simp_all add: program_ok_def state_ok_def the_clock_def)
  have "unused ?st ?p" using used by (force simp: unused_def pool_used_def)
  note frame = book_frame_unused [OF st(1) this, of "Some ?od"]
  obtain bk mem where a: "addOrder (Some ?p) (book_of ?st) ?mem = Inr (True, bk, mem)"
    "heap mem = (heap ?mem)(?p \<mapsto> stamp (clock ?mem) ?od)" "clocks_ok (clock mem)" "book_wf bk (heap mem)"
    "order_map bk = (order_map (book_of ?st))(order_id ?od \<mapsto> ?p)"
    "view bk (heap mem) = spec_add (stamp (clock ?mem) ?od) (view (book_of ?st) (heap ?mem))"
    by (rule addOrder_fresh [of "book_of ?st" ?mem ?p ?od])
      (use frame(1) st(2) q fresh in \<open>simp_all add: book_ok_def getOrder_def\<close>)
  have mem: "mem = ?mem" using a(1) by (rule addOrder_keeps_memory [where od = ?od]) (use now in simp_all)
  have st': "stamp (tick_realtime (the_clock s)) ?od = ?od" using now by (simp add: stamp_def)
  let ?pool = "(pool s)\<lparr>next_free := next_free (pool s) + 1\<rparr>"
  let ?s1 = "s\<lparr>pool := ?pool, engine := ?st\<lparr>memory_of := ?mem\<rparr>\<rparr>"
  have idx: "unat (next_free (pool s)) = k" using used by (simp add: pool_used_def)
  then have "next_free (pool s) < N" using k by (simp add: word_less_nat_alt)
  then have "create_order N malloc i buy q pr s = Inr (?p, ?s1)"
    using idx price st(2)
    by (simp add: create_order_def pool_allocate_def Let_def getTimestampNs_ok the_clock_def tick_realtime_def)
  then have run: "place_order N malloc i buy q pr s = Inr (?s1\<lparr>engine := (engine ?s1)\<lparr>book_of := bk, memory_of := mem\<rparr>\<rparr>)"
    using a(1) by (simp add: place_order_def with_result_def add_to_book_def)
  have "positive_book (view bk (heap mem))"
    using frame(2) st(1) q a(6) by (simp add: book_ok_positive spec_add_positive)
  then have ok': "program_ok (?s1\<lparr>engine := (engine ?s1)\<lparr>book_of := bk, memory_of := mem\<rparr>\<rparr>)"
    using st(3) a(3,4) by (simp add: program_ok_def state_ok_def book_ok_positive)
  have "unat (next_free (pool s) + 1) = Suc k"
    using idx k unsigned_less [of N, where 'a = nat] by (simp add: unat_word_ariths)
  then have used': "pool_used N (Suc k) (?s1\<lparr>engine := (engine ?s1)\<lparr>book_of := bk, memory_of := mem\<rparr>\<rparr>)"
    using used a(5)
    by (auto simp: pool_used_def getOrder_def atLeast0_lessThan_Suc split: if_splits)
  show thesis
  proof (rule that [OF run ok' used'])
    show "abs_of (engine (?s1\<lparr>engine := (engine ?s1)\<lparr>book_of := bk, memory_of := mem\<rparr>\<rparr>)) =
        spec_add ?od (abs_of ?st)"
      using a(6) frame(2) by (simp add: abs_of_def st')
  qed (simp_all add: mem the_clock_def a(5) getOrder_def)
qed

end
