(* ===== verification/Main_Theorems.thy ===== *)
theory Main_Theorems
  imports Main_Program Match_Theorems
begin

text \<open>
  What \<open>main\<close> does from its first line up to the matching of its three sample orders, for every clock, every
  outcome of opening the log file and of the optimisations, and every address of the pool.
\<close>

section \<open>Triples of actions\<close>

definition triple :: "(program \<Rightarrow> bool) \<Rightarrow> action \<Rightarrow> (program \<Rightarrow> bool) \<Rightarrow> bool" where
  "triple P a Q \<longleftrightarrow> (\<forall>s. P s \<longrightarrow> (\<exists>s'. a s = Inr s' \<and> Q s'))"

lemma tripleI: "(\<And>s. P s \<Longrightarrow> \<exists>s'. a s = Inr s' \<and> Q s') \<Longrightarrow> triple P a Q"
  by (simp add: triple_def)

lemma tripleE:
  assumes "triple P a Q" and "P s"
  obtains s' where "a s = Inr s'" and "Q s'"
  using assms by (auto simp: triple_def)

lemma triple_Nil: "triple P (run_all []) P"
  by (simp add: triple_def)

lemma triple_Cons: "triple P a Q \<Longrightarrow> triple Q (run_all as) R \<Longrightarrow> triple P (run_all (a # as)) R"
  unfolding triple_def by fastforce

section \<open>Stages of the program\<close>

text \<open>
  \<open>k\<close> orders placed, the book one of \<open>V\<close> and holding the ids \<open>ids\<close>, under the wall clock \<open>rt\<close>; the orders'
  timestamps are readings of that clock, all in the past.
\<close>

definition reading :: "(nat \<Rightarrow> timespec) \<Rightarrow> nat \<Rightarrow> i64" where
  "reading rt n = i64_of (timespec_value (rt n))"

definition read_before :: "(nat \<Rightarrow> timespec) \<Rightarrow> nat \<Rightarrow> abs_book \<Rightarrow> bool" where
  "read_before rt n v \<longleftrightarrow> (\<forall>x \<in> set (fst v) \<union> set (snd v). \<exists>m < n. timestamp_ns x = reading rt m)"

definition stage ::
  "64 word \<Rightarrow> (nat \<Rightarrow> timespec) \<Rightarrow> nat \<Rightarrow> abs_book set \<Rightarrow> order_ident set \<Rightarrow> program \<Rightarrow> bool" where
  "stage N rt k V ids s \<longleftrightarrow>
     program_ok s \<and> pool_used N k s \<and> realtime (the_clock s) = rt \<and> abs_of (engine s) \<in> V \<and>
     read_before rt (realtime_reads (the_clock s)) (abs_of (engine s)) \<and>
     {j. getOrder j (book_of (engine s)) \<noteq> None} \<subseteq> ids"

definition placed ::
  "(nat \<Rightarrow> timespec) \<Rightarrow> order_ident \<Rightarrow> bool \<Rightarrow> qty \<Rightarrow> price \<Rightarrow> abs_book set \<Rightarrow> abs_book set" where
  "placed rt i buy q p V =
     {spec_add (Order_new i buy q p (reading rt n) 0) v | n v. v \<in> V \<and> read_before rt n v}"

lemma read_before_later: "read_before rt m v \<Longrightarrow> m \<le> n \<Longrightarrow> read_before rt n v"
  unfolding read_before_def by (meson less_le_trans)

lemma stage_quiet_step: "quiet s s' \<Longrightarrow> stage N rt k V ids s \<Longrightarrow> stage N rt k V ids s'"
  by (auto simp: stage_def quiet_def pool_used_def abs_of_def the_clock_def intro: read_before_later)

lemma stage_quiet: "quiet_action a \<Longrightarrow> triple (stage N rt k V ids) a (stage N rt k V ids)"
  by (rule tripleI) (metis quiet_actionE stage_def stage_quiet_step)

lemma clock_now_nonzero:
  assumes "clocks_ok c" and "0 < timespec_value (realtime c (realtime_reads c))"
  shows "clock_now c \<noteq> 0"
proof -
  have "in_i64 (timespec_value (realtime c (realtime_reads c)))"
    using assms timespec_value_bounds by (auto simp: clocks_ok_def in_i64_def)
  then show ?thesis using assms(2) by (simp add: clock_now_def flip: ival_eq_zero_iff)
qed

lemma stage_place:
  assumes "\<And>n. 0 < timespec_value (rt n)" and "k < unat N" and "k' = Suc k" and "i \<notin> ids" and "q \<noteq> 0"
    and "doubleToPrice pr = Inr p"
  shows "triple (stage N rt k V ids) (place_order N malloc i buy q pr)
    (stage N rt k' (placed rt i buy q p V) (insert i ids))"
proof (rule tripleI)
  fix s
  assume s: "stage N rt k V ids s"
  have clk: "clock_now (the_clock s) \<noteq> 0"
    using s assms(1) by (intro clock_now_nonzero) (auto simp: stage_def program_ok_def state_ok_def the_clock_def)
  have fresh: "getOrder i (book_of (engine s)) = None" using s assms(4) by (auto simp: stage_def)
  let ?n = "realtime_reads (the_clock s)"
  have now: "clock_now (the_clock s) = reading rt ?n" using s by (simp add: clock_now_def reading_def stage_def)
  have ok: "program_ok s" "pool_used N k s" using s by (simp_all add: stage_def)
  obtain s' where s': "place_order N malloc i buy q pr s = Inr s'" "program_ok s'" "pool_used N (Suc k) s'"
    "abs_of (engine s') = spec_add (Order_new i buy q p (clock_now (the_clock s)) 0) (abs_of (engine s))"
    "the_clock s' = tick_realtime (the_clock s)"
    "\<And>j. getOrder j (book_of (engine s')) = (if j = i then Some (pool_slot (base (pool s)) k)
      else getOrder j (book_of (engine s)))"
    using that by (rule place_order_effect [where malloc = malloc and buy = buy, OF ok assms(2) fresh assms(5,6) clk])
  have past: "read_before rt ?n (abs_of (engine s))" "abs_of (engine s) \<in> V" using s by (simp_all add: stage_def)
  then have "abs_of (engine s') \<in> placed rt i buy q p V" unfolding s'(4) now placed_def by blast
  moreover have "read_before rt (Suc ?n) (abs_of (engine s'))"
    using read_before_later [OF past(1), of "Suc ?n"] unfolding s'(4) now
    by (auto simp: read_before_def set_spec_add)
  ultimately have "stage N rt k' (placed rt i buy q p V) (insert i ids) s'"
    using s s'(2,3,5,6) assms(3) by (auto simp: stage_def tick_realtime_def split: if_splits)
  with s'(1) show "\<exists>s'. place_order N malloc i buy q pr s = Inr s' \<and>
      stage N rt k' (placed rt i buy q p V) (insert i ids) s'" by blast
qed

lemma stage_spread:
  assumes "\<And>v. v \<in> V \<Longrightarrow> \<exists>b bs a as. v = (b # bs, a # as) \<and> 0 \<le> price_scaled b \<and> 0 \<le> price_scaled a"
  shows "triple (stage N rt k V ids) (report_spread tid) (stage N rt k V ids)"
proof (rule tripleI)
  fix s
  assume s: "stage N rt k V ids s"
  then have ok: "program_ok s" and "abs_of (engine s) \<in> V" by (simp_all add: stage_def)
  with assms obtain b bs a as where v: "abs_of (engine s) = (b # bs, a # as)" "0 \<le> price_scaled b" "0 \<le> price_scaled a"
    by blast
  have wf: "book_wf (book_of (engine s)) (heap (memory_of (engine s)))"
    using ok state_okD(1) by (simp add: program_ok_def)
  have "best_bid_price (book_of (engine s)) = price_scaled b" "best_ask_price (book_of (engine s)) = price_scaled a"
    using best_price_view [OF wf] v(1) by (simp_all add: abs_of_def best_price_def)
  moreover have "in_i64 (ival (price_scaled a) - ival (price_scaled b))"
    using v(2,3) in_i64_ival [of "price_scaled a"] in_i64_ival [of "price_scaled b"]
    by (simp add: in_i64_def less_eq_i64_def del: in_i64_ival)
  ultimately obtain d where "getSpread (book_of (engine s)) = Inr d"
    by (cases "price_scaled b = 0 \<or> price_scaled a = 0") (auto simp: getSpread_def i64_sub_def)
  with ok obtain s' where "report_spread tid s = Inr s'" "quiet s s'" by (rule report_spread_quiet)
  with s show "\<exists>s'. report_spread tid s = Inr s' \<and> stage N rt k V ids s'" using stage_quiet_step by blast
qed

section \<open>The three sample orders\<close>

lemma small_price:
  assumes "x * 1000000 = of_int p" and "0 \<le> p" and "p < 128000000"
  shows "doubleToPrice (fround x) = Inr (i64_of p)"
proof -
  have "of_int p < (128000000 :: rat)" "0 \<le> (of_int p :: rat)" using assms(2,3) by simp_all
  then have "\<bar>x\<bar> < (2 :: rat) powi (6 + 1)" using assms(1) by simp
  from fround_error_bound [OF this] have "\<bar>fround x - x\<bar> \<le> (2 :: rat) powi (- 47)" by simp
  also have "(2 :: rat) powi (- 47) = 1 / 140737488355328" by (simp add: power_int_minus)
  finally have "\<bar>fround x * 1000000 - of_int p\<bar> \<le> 1 / 8"
    unfolding assms(1) [symmetric] abs_le_iff by simp
  then show ?thesis using assms(2,3) by (simp add: doubleToPrice_near)
qed

definition sample_order :: "order_ident \<Rightarrow> bool \<Rightarrow> qty \<Rightarrow> int \<Rightarrow> i64 \<Rightarrow> order" where
  "sample_order i buy q p t = Order_new i buy q (i64_of p) t 0"

lemma sample_order_sel [simp]:
  "order_id (sample_order i buy q p t) = i" "isBuy (sample_order i buy q p t) = buy"
  "quantity (sample_order i buy q p t) = q" "price_scaled (sample_order i buy q p t) = i64_of p"
  by (simp_all add: sample_order_def)

lemma sample_prices [simp]:
  "ival (i64_of 100250000) = 100250000" "ival (i64_of 100500000) = 100500000" "ival (i64_of 100750000) = 100750000"
  by (simp_all add: in_i64_def)

definition sample_books :: "(nat \<Rightarrow> timespec) \<Rightarrow> abs_book set" where
  "sample_books rt = {([sample_order 2 True 50 100750000 (reading rt n2), sample_order 1 True 100 100500000 (reading rt n1)],
     [sample_order 3 False 75 100250000 (reading rt n3)]) | n1 n2 n3. n1 < n3 \<and> n2 < n3}"

lemma sample_books_placed:
  "placed rt 3 False 75 (i64_of 100250000) (placed rt 2 True 50 (i64_of 100750000)
     (placed rt 1 True 100 (i64_of 100500000) {([], [])})) \<subseteq> sample_books rt"
proof
  fix v
  assume "v \<in> placed rt 3 False 75 (i64_of 100250000) (placed rt 2 True 50 (i64_of 100750000)
     (placed rt 1 True 100 (i64_of 100500000) {([], [])}))"
  then obtain n1 n2 n3 w where v: "v = spec_add (sample_order 3 False 75 100250000 (reading rt n3)) w"
    "w = spec_add (sample_order 2 True 50 100750000 (reading rt n2))
       (spec_add (sample_order 1 True 100 100500000 (reading rt n1)) ([], []))"
    "read_before rt n3 w"
    by (auto simp: placed_def sample_order_def)
  have w: "w = ([sample_order 2 True 50 100750000 (reading rt n2), sample_order 1 True 100 100500000 (reading rt n1)], [])"
    unfolding v(2) by (simp add: spec_add_def insert_order_def less_i64_def)
  then obtain m1 m2 where "reading rt n1 = reading rt m1" "reading rt n2 = reading rt m2" "m1 < n3" "m2 < n3"
    using v(3) by (auto simp: read_before_def sample_order_def Order_new_def)
  moreover have "v = (fst w, [sample_order 3 False 75 100250000 (reading rt n3)])"
    unfolding v(1) w by (simp add: spec_add_def insert_order_def)
  ultimately show "v \<in> sample_books rt" unfolding sample_books_def w by auto
qed

lemma sample_match:
  fixes rt n1 n2 n3
  defines "v \<equiv> ([sample_order 2 True 50 100750000 (reading rt n2), sample_order 1 True 100 100500000 (reading rt n1)],
     [sample_order 3 False 75 100250000 (reading rt n3)])"
  shows "remainder v = ([sample_order 1 True 75 100500000 (reading rt n1)], [])"
    and "fills v =
      [\<lparr>fill_bid = 2, fill_ask = 3, fill_qty = 50,
         fill_price = (if reading rt n2 < reading rt n3 then i64_of 100750000 else i64_of 100250000)\<rparr>,
       \<lparr>fill_bid = 1, fill_ask = 3, fill_qty = 25,
         fill_price = (if reading rt n1 < reading rt n3 then i64_of 100500000 else i64_of 100250000)\<rparr>]"
proof -
  note sel = sample_order_def Order_new_def match_qty_def match_price_def fill_of_def crossing_def less_i64_def
    less_eq_i64_def spec_step_def take_from_def
  let ?v1 = "([sample_order 1 True 100 100500000 (reading rt n1)], [sample_order 3 False 25 100250000 (reading rt n3)])"
  let ?v2 = "([sample_order 1 True 75 100500000 (reading rt n1)], [])"
  have 1: "spec_step v = Some (\<lparr>fill_bid = 2, fill_ask = 3, fill_qty = 50,
      fill_price = (if reading rt n2 < reading rt n3 then i64_of 100750000 else i64_of 100250000)\<rparr>, ?v1)"
    by (simp add: v_def sel)
  have 2: "spec_step ?v1 = Some (\<lparr>fill_bid = 1, fill_ask = 3, fill_qty = 25,
      fill_price = (if reading rt n1 < reading rt n3 then i64_of 100500000 else i64_of 100250000)\<rparr>, ?v2)"
    by (simp add: sel)
  have 3: "spec_step ?v2 = None" by (simp add: spec_step_def)
  show "remainder v = ?v2" and "fills v =
      [\<lparr>fill_bid = 2, fill_ask = 3, fill_qty = 50,
         fill_price = (if reading rt n2 < reading rt n3 then i64_of 100750000 else i64_of 100250000)\<rparr>,
       \<lparr>fill_bid = 1, fill_ask = 3, fill_qty = 25,
         fill_price = (if reading rt n1 < reading rt n3 then i64_of 100500000 else i64_of 100250000)\<rparr>]"
    unfolding match_spec_go [OF 1] match_spec_go [OF 2] match_spec_stop [OF 3] by simp_all
qed

section \<open>From the start to the matching\<close>

lemma main_orders_stages:
  assumes "\<And>n. 0 < timespec_value (rt n)" and "3 \<le> N"
  shows "triple (stage N rt 0 {([], [])} {}) (main_orders N malloc tid) (stage N rt 3 (sample_books rt) {3, 2, 1})"
proof -
  have n: "0 < unat N" "1 < unat N" "2 < unat N"
    using assms(2) by (simp_all add: word_le_nat_alt)
  have p1: "doubleToPrice (fround (201 / 2)) = Inr (i64_of 100500000)" by (rule small_price) simp_all
  have p2: "doubleToPrice (fround (403 / 4)) = Inr (i64_of 100750000)" by (rule small_price) simp_all
  have p3: "doubleToPrice (fround (401 / 4)) = Inr (i64_of 100250000)" by (rule small_price) simp_all
  let ?V1 = "placed rt 1 True 100 (i64_of 100500000) {([], [])}"
  let ?V2 = "placed rt 2 True 50 (i64_of 100750000) ?V1"
  let ?V3 = "placed rt 3 False 75 (i64_of 100250000) ?V2"
  note place = stage_place [where rt = rt and N = N and malloc = malloc, OF assms(1)]
  have 1: "triple (stage N rt 0 {([], [])} {}) (place_order N malloc 1 True 100 (fround (201 / 2)))
      (stage N rt 1 ?V1 {1})"
    by (rule place) (use n p1 in simp_all)
  have 2: "triple (stage N rt 1 ?V1 {1}) (place_order N malloc 2 True 50 (fround (403 / 4)))
      (stage N rt 2 ?V2 {2, 1})"
    by (rule place) (use n p2 in simp_all)
  have 3: "triple (stage N rt 2 ?V2 {2, 1}) (place_order N malloc 3 False 75 (fround (401 / 4)))
      (stage N rt 3 ?V3 {3, 2, 1})"
    by (rule place) (use n p3 in simp_all)
  have widen: "triple P a (stage N rt 3 ?V3 {3, 2, 1}) \<Longrightarrow> triple P a (stage N rt 3 (sample_books rt) {3, 2, 1})" for P a
    using sample_books_placed [of rt] unfolding triple_def stage_def by blast
  have spread: "triple (stage N rt 3 (sample_books rt) {3, 2, 1}) (report_spread tid)
      (stage N rt 3 (sample_books rt) {3, 2, 1})"
    by (rule stage_spread) (auto simp: sample_books_def less_eq_i64_def)
  note quiet = stage_quiet [OF LOG_quiet] stage_quiet [OF LOG_F_quiet] stage_quiet [OF report_best_quiet]
  show ?thesis unfolding main_orders_def order_actions_def placing_actions_def report_actions_def append.simps
    by (rule triple_Cons quiet 1 2 widen [OF 3] spread triple_Nil)+
qed

lemma main_start_stage:
  assumes "clocks_ok c"
  shows "stage N (realtime c) 0 {([], [])} {} (main_start N b h c out)"
proof -
  have "getOrder j OrderBook_new = None" for j by (simp add: getOrder_def OrderBook_new_def)
  with assms show ?thesis
    by (simp add: stage_def main_start_def OrderMemoryPool_new_def Let_def program_ok_def state_ok_def book_ok_new
        AsyncLogger_new_wf pool_used_def the_clock_def abs_of_def read_before_def)
qed

text \<open>C19: The program's own example. Whatever the clock shows after 1970, wherever the pool lies and whether or
  not the log file opens and the optimisations succeed, \<open>main\<close> reaches its matching step without a
  fault, and there two trades are made: 50 units between the orders 2 and 3, then 25 units between 1
  and 3. What remains is order 1 with 75 units at 100.50. The last trade's price is that of the bid when
  the clock advanced between the two orders, and that of the ask when it did not.\<close>

theorem main_matches_sample_orders:
  assumes "clocks_ok c" and "\<And>n. 0 < timespec_value (realtime c n)" and "3 \<le> N"
  shows "\<exists>s1 tm s2 trades st n1 n3 t.
    andThen (main_setup opens optimized cpu_count tid (main_start N b h c out)) (main_orders N malloc tid) = Inr s1 \<and>
    start_timer s1 = Inr (tm, s2) \<and> matchOrders tid (engine s2) = Some (Inr (trades, st)) \<and> unat trades = 2 \<and>
    n1 < n3 \<and> abs_of st = ([Order_new 1 True 75 (i64_of 100500000) (reading (realtime c) n1) 0], []) \<and>
    getLastTrade st = Some (Trade_new 1 3 25
      (if reading (realtime c) n1 < reading (realtime c) n3 then i64_of 100500000 else i64_of 100250000) t)"
proof -
  obtain s0 where s0: "main_setup opens optimized cpu_count tid (main_start N b h c out) = Inr s0"
    "stage N (realtime c) 0 {([], [])} {} s0"
    by (rule tripleE [OF stage_quiet [OF main_setup_quiet] main_start_stage [OF assms(1)]])
  obtain s1 where s1: "main_orders N malloc tid s0 = Inr s1"
    "stage N (realtime c) 3 (sample_books (realtime c)) {3, 2, 1} s1"
    by (rule tripleE [OF main_orders_stages [OF assms(2,3)] s0(2)])
  obtain tm s2 where s2: "start_timer s1 = Inr (tm, s2)" "abs_of (engine s2) = abs_of (engine s1)" "state_ok (engine s2)"
    using s1(2) by (simp add: start_timer_def LatencyTimerRDTSC_new_def rdtsc_def set_clock_def abs_of_def
        stage_def program_ok_def state_ok_def clocks_ok_def)
  have "abs_of (engine s2) \<in> sample_books (realtime c)" using s1(2) s2(2) by (simp add: stage_def)
  then obtain n1 n2 n3 where v: "abs_of (engine s2) =
      ([sample_order 2 True 50 100750000 (reading (realtime c) n2),
        sample_order 1 True 100 100500000 (reading (realtime c) n1)],
       [sample_order 3 False 75 100250000 (reading (realtime c) n3)])" "n1 < n3"
    by (auto simp: sample_books_def)
  from s2(3) obtain trades st where st: "matchOrders tid (engine s2) = Some (Inr (trades, st))"
    "unat trades = length (fills (abs_of (engine s2)))" "abs_of st = remainder (abs_of (engine s2))"
    "last_trade_ok (last_trade (engine s2)) (fills (abs_of (engine s2))) (last_trade st)"
    by (rule matchOrders_runs)
  from st(4) obtain t where "last_trade st = Some (trade_of (last (fills (abs_of (engine s2)))) t)"
    unfolding v(1) sample_match by (cases "last_trade st") (auto simp: last_trade_ok_def)
  then have "getLastTrade st = Some (Trade_new 1 3 25
      (if reading (realtime c) n1 < reading (realtime c) n3 then i64_of 100500000 else i64_of 100250000) t)"
    unfolding v(1) sample_match by (simp add: getLastTrade_def trade_of_def)
  moreover have "abs_of st = ([Order_new 1 True 75 (i64_of 100500000) (reading (realtime c) n1) 0], [])"
    "unat trades = 2"
    using st(2,3) unfolding v(1) sample_match by (simp_all add: sample_order_def)
  ultimately show ?thesis
    using s0(1) s1(1) s2(1) st(1) v(2) by (intro exI conjI) (simp, assumption+)
qed

theorem main_matches_sample_orders_witness:
  "\<exists>s1 tm s2 trades st n1 n3 t.
    andThen (main_setup (\<lambda>_. True) True 8 0 (main_start 1024 4096 (\<lambda>_. None) example_clocks example_output))
      (main_orders 1024 next_address 0) = Inr s1 \<and>
    start_timer s1 = Inr (tm, s2) \<and> matchOrders 0 (engine s2) = Some (Inr (trades, st)) \<and> unat trades = 2 \<and>
    n1 < n3 \<and> abs_of st = ([Order_new 1 True 75 (i64_of 100500000) (reading (realtime example_clocks) n1) 0], []) \<and>
    getLastTrade st = Some (Trade_new 1 3 25
      (if reading (realtime example_clocks) n1 < reading (realtime example_clocks) n3
       then i64_of 100500000 else i64_of 100250000) t)"
proof -
  have "0 < timespec_value (realtime example_clocks n)" for n
    by (simp add: timespec_value_def example_clocks_def)
  then show ?thesis by (intro main_matches_sample_orders) simp_all
qed

end
