(* ===== verification/Float_Rank.thy ===== *)
theory Float_Rank
  imports Binary64
begin

text \<open>
  When the product of a rounded fraction and a number of items, rounded again, still truncates to the exact
  rank. The statistics use such ranks for their percentiles.
\<close>

section \<open>Rounding to an integer nearby\<close>

lemma round_half_even_near: "\<bar>x - of_int k\<bar> < 1 / 2 \<Longrightarrow> round_half_even x = k"
proof -
  assume "\<bar>x - of_int k\<bar> < 1 / 2"
  then have "\<bar>(of_int (round_half_even x) :: rat) - of_int k\<bar> < 1"
    using round_half_even_error [of x] by linarith
  then have "\<bar>(of_int (round_half_even x - k) :: rat)\<bar> < 1" by simp
  then have "\<bar>round_half_even x - k\<bar> < 1" by (metis of_int_1 of_int_abs of_int_less_iff)
  then show ?thesis by simp
qed

lemma binade_eq:
  assumes "2 powi e \<le> x" and "x < 2 powi (e + 1)"
  shows "binade x = e"
proof -
  have "0 < x" using assms(1) less_le_trans [of 0 "2 powi e" x] by simp
  then have "2 powi e < (2 :: rat) powi (binade x + 1)" using assms(1) binade_bounds(2) by (meson le_less_trans)
  then have "\<not> binade x + 1 \<le> e" using power_int_increasing [of "binade x + 1" e "2 :: rat"] by auto
  with binade_le [OF \<open>0 < x\<close> assms(2)] show ?thesis by simp
qed

text \<open>Within a binade, a number closer to a multiple of the unit than half a unit is rounded to it.\<close>

lemma fround_near:
  assumes e: "2 powi e \<le> x" "x < 2 powi (e + 1)" "- 1022 \<le> e"
    and near: "\<bar>x - of_int k * 2 powi (e - 52)\<bar> < 2 powi (e - 53)"
  shows "fround x = of_int k * 2 powi (e - 52)"
proof -
  let ?u = "(2 :: rat) powi (e - 52)"
  have x: "0 < x" using e(1) less_le_trans [of 0 "2 powi e" x] by simp
  have u: "0 < ?u" "(2 :: rat) powi (e - 53) = ?u / 2"
    using power_int_add_1 [of "2 :: rat" "e - 53"] by simp_all
  have "\<bar>x / ?u - of_int k\<bar> = \<bar>x - of_int k * ?u\<bar> / ?u"
    using u(1) by (simp add: abs_divide diff_divide_distrib [symmetric] divide_simps left_diff_distrib)
  also have "\<dots> < 1 / 2" using near u by (simp add: divide_simps)
  finally have "round_half_even (x / ?u) = k" by (rule round_half_even_near)
  moreover have "binade \<bar>x\<bar> = e" using x e by (simp add: binade_eq)
  moreover have "max (e - 52) (- 1074) = e - 52" using e(3) by simp
  ultimately show ?thesis using x by (simp add: fround_def Let_def)
qed

lemma fround_near_int:
  assumes m: "0 < m" "m < 2 ^ 53" and e: "2 ^ e < m" "m < 2 ^ Suc e"
    and near: "\<bar>x - of_int m\<bar> < 2 powi (int e - 53)"
  shows "fround x = of_int m"
proof -
  have "e < 53" using m(2) e(1) power_strict_increasing_iff [of "2 :: int" e 53] by simp
  then have small: "(2 :: rat) powi (int e - 53) \<le> 1"
    using power_int_increasing [of "int e - 53" 0 "2 :: rat"] by simp
  have "2 ^ e + 1 \<le> m" "m \<le> 2 ^ Suc e - 1" using e by simp_all
  then have "(of_int (2 ^ e + 1) :: rat) \<le> of_int m" "(of_int m :: rat) \<le> of_int (2 ^ Suc e - 1)"
    by (simp_all only: of_int_le_iff)
  then have "2 powi int e \<le> x" "x < 2 powi (int e + 1)"
    using near small by (simp_all add: abs_less_iff power_int_add)
  moreover have "of_int (m * 2 ^ (52 - e)) * 2 powi (int e - 52) = (of_int m :: rat)"
  proof -
    have "(2 :: rat) ^ (52 - e) * 2 powi (int e - 52) = 2 powi (int (52 - e) + (int e - 52))"
      by (simp add: power_int_add power_int_of_nat)
    also have "int (52 - e) + (int e - 52) = 0" using \<open>e < 53\<close> by simp
    finally have "(2 :: rat) ^ (52 - e) * 2 powi (int e - 52) = 1" by simp
    then show ?thesis by (simp only: of_int_mult of_int_power of_int_numeral mult.assoc mult_1_right)
  qed
  ultimately show ?thesis
    using fround_near [of "int e" x "m * 2 ^ (52 - e)"] near by (simp only:)
qed

section \<open>Ranks\<close>

text \<open>An odd divisor of a positive number keeps the number off the powers of two.\<close>

lemma odd_divisor_binade:
  assumes "odd a" and "1 < a" and "a dvd m" and "0 < (m :: nat)"
  obtains e where "2 ^ e < int m" and "int m < 2 ^ Suc e"
proof -
  define e where "e = floorlog 2 m - 1"
  have "floorlog 2 m \<noteq> 0" using floorlog_bounds [of m] assms(4) by (intro notI) simp
  then have "floorlog 2 m = Suc e" by (simp add: e_def)
  then have b: "2 ^ e \<le> m" "m < 2 ^ Suc e"
    using floorlog_bounds [of m] assms(4) by simp_all
  have "m \<noteq> 2 ^ e"
  proof
    assume "m = 2 ^ e"
    then have "a dvd 2 ^ e" using assms(3) by simp
    moreover have "coprime a (2 ^ e)" using assms(1) by simp
    ultimately have "a dvd 1" by (metis coprime_common_divisor dvd_refl)
    with assms(2) show False by simp
  qed
  with b have "2 ^ e < m" by simp
  then have "(2 :: int) ^ e < int m" "int m < 2 ^ Suc e"
    using b(2) by (metis of_nat_less_iff of_nat_numeral of_nat_power)+
  then show thesis by (rule that)
qed

text \<open>
  \<open>p\<close> is the fraction \<open>a / b\<close> itself, or a \<open>double\<close> near enough: its relative error is at most a quarter of a
  unit in the last place, and the numerator is odd.
\<close>

definition fine_fraction :: "nat \<Rightarrow> nat \<Rightarrow> float64 \<Rightarrow> bool" where
  "fine_fraction a b p \<longleftrightarrow>
     0 < a \<and> a < b \<and> b \<le> 1000 \<and>
     (p = of_nat a / of_nat b \<or>
      odd a \<and> 1 < a \<and> coprime a b \<and> \<bar>p - of_nat a / of_nat b\<bar> \<le> of_nat a / of_nat b / 2 ^ 54)"

text \<open>When the exact product is no integer, its distance to the next one exceeds both errors.\<close>

lemma rank_between:
  assumes ab: "0 < a" "a < b" "b \<le> 1000" and frac: "\<not> b dvd a * n"
    and err: "\<bar>x - of_nat (a * n) / of_nat b\<bar> \<le> of_nat (a * n) / of_nat b / 2 ^ 54"
    and y_less: "of_nat (a * n) / of_nat b < (2 :: rat) ^ 40"
  shows "trunc_float (fround x) = int (a * n div b)"
proof -
  let ?y = "of_nat (a * n) / of_nat b :: rat"
  let ?q = "a * n div b" and ?r = "a * n mod b"
  have "1 \<le> ?r" "?r + 1 \<le> b" using frac ab by (simp_all add: mod_greater_zero_iff_not_dvd Suc_leI)
  then have r: "(1 :: rat) \<le> of_nat ?r" "of_nat ?r + 1 \<le> (of_nat b :: rat)"
    by (metis of_nat_1 of_nat_le_iff, metis of_nat_1 of_nat_add of_nat_le_iff)
  have b: "1 / 1000 \<le> 1 / (of_nat b :: rat)" "0 < (of_nat b :: rat)" using ab by (simp_all add: divide_simps)
  have "?y = of_nat ?q + of_nat ?r / of_nat b"
  proof -
    have "of_nat (q * b + k) / of_nat b = (of_nat q + of_nat k / of_nat b :: rat)" for q k
      using b(2) by (simp add: add_divide_distrib)
    from this [of ?q ?r] show ?thesis by (simp only: div_mult_mod_eq)
  qed
  moreover have "1 / of_nat b \<le> (of_nat ?r :: rat) / of_nat b" "(of_nat ?r :: rat) / of_nat b + 1 / of_nat b \<le> 1"
    using r b(2) by (simp_all add: divide_simps)
  ultimately have y: "of_nat ?q + 1 / 1000 \<le> ?y" "?y \<le> of_nat ?q + 1 - 1 / 1000" using b(1) by linarith+
  then have "0 \<le> ?y" "?y / 2 ^ 54 \<le> 1 / 16384" using y_less by simp_all
  then have x: "x - ?y \<le> 1 / 16384" "?y - x \<le> 1 / 16384" using err unfolding abs_le_iff by linarith+
  have num: "(2 :: rat) powi (40 + 1) = 2199023255552" "(2 :: rat) ^ 40 = 1099511627776" by simp_all
  have "\<bar>x\<bar> < 2 powi (40 + 1)"
    using x y_less \<open>0 \<le> ?y\<close> unfolding abs_less_iff num by linarith
  then have "\<bar>fround x - x\<bar> \<le> 2 powi (40 - 53)" by (rule fround_error_bound) simp
  then have "fround x - x \<le> 1 / 8192" "x - fround x \<le> 1 / 8192"
    unfolding abs_le_iff by (simp_all add: power_int_minus)
  then have "of_nat ?q \<le> fround x" "fround x < of_nat ?q + 1" using x y by linarith+
  then have "\<lfloor>fround x\<rfloor> = int ?q" "\<not> fround x < 0"
    by (auto intro!: floor_unique intro: order_trans [OF of_nat_0_le_iff])
  then show ?thesis by (simp add: trunc_float_def)
qed

text \<open>When it is an integer, the rounding of the product restores it.\<close>

lemma rank_at:
  assumes p: "fine_fraction a b p" and m: "a * n = b * m" and n: "n \<noteq> 0"
    and err: "\<bar>p * of_nat n - of_nat (a * n) / of_nat b\<bar> \<le> of_nat (a * n) / of_nat b / 2 ^ 54"
    and y_less: "of_nat (a * n) / of_nat b < (2 :: rat) ^ 40"
  shows "trunc_float (fround (p * of_nat n)) = int (a * n div b)"
proof -
  let ?x = "p * of_nat n" and ?y = "of_nat (a * n) / of_nat b :: rat"
  have ab: "0 < a" "a < b" "b \<le> 1000" using p by (simp_all add: fine_fraction_def)
  have "0 < m" using m n ab by (cases m) simp_all
  have y: "?y = of_int (int m)" using m ab by simp
  then have "of_int (int m) < (2 :: rat) ^ 40" using y_less by simp
  then have "int m < 2 ^ 53" by (simp add: less_trans [of _ "2 ^ 40 :: rat"])
  have "fround ?x = of_int (int m)"
  proof (cases "p = of_nat a / of_nat b")
    case True
    then have "?x = of_int (int m)" using y by simp
    then show ?thesis using fround_int [of "int m"] \<open>int m < 2 ^ 53\<close> by simp
  next
    case False
    then have fine: "odd a" "1 < a" "coprime a b" using p by (auto simp: fine_fraction_def)
    have "a dvd m" using m fine(3) coprime_dvd_mult_right_iff by (metis dvd_triv_left)
    obtain e where e: "2 ^ e < int m" "int m < 2 ^ Suc e"
      by (rule odd_divisor_binade [of a m]) (use fine \<open>0 < m\<close> \<open>a dvd m\<close> in simp_all)
    have "(of_int (int m) :: rat) < of_int (2 ^ Suc e)" using e(2) by (simp only: of_int_less_iff)
    then have "of_int (int m) / 2 ^ 54 < (2 :: rat) powi (int e - 53)"
      by (simp add: power_int_diff divide_simps)
    then have "\<bar>?x - of_int (int m)\<bar> < 2 powi (int e - 53)" using err unfolding y by linarith
    then show ?thesis
      using \<open>0 < m\<close> \<open>int m < 2 ^ 53\<close> e by (intro fround_near_int) simp_all
  qed
  then show ?thesis using m ab by (simp add: trunc_float_def)
qed

lemma rank_exact:
  assumes p: "fine_fraction a b p" and n: "n < 2 ^ 40"
  shows "trunc_float (fround (p * of_nat n)) = int (a * n div b)"
proof -
  let ?x = "p * of_nat n" and ?y = "of_nat (a * n) / of_nat b :: rat"
  have ab: "0 < a" "a < b" "b \<le> 1000" using p by (simp_all add: fine_fraction_def)
  have "\<bar>?x - ?y\<bar> = \<bar>p - of_nat a / of_nat b\<bar> * of_nat n"
    by (simp add: left_diff_distrib [symmetric] abs_mult flip: times_divide_eq_left)
  also have "\<dots> \<le> of_nat a / of_nat b / 2 ^ 54 * of_nat n"
    using p by (intro mult_right_mono) (auto simp: fine_fraction_def)
  finally have err: "\<bar>?x - ?y\<bar> \<le> ?y / 2 ^ 54" by (simp add: field_simps)
  have y_less: "?y < 2 ^ 40"
  proof -
    have "a * n < 2 ^ 40 * b"
      using ab(1,2) n by (metis mult.commute mult_strict_mono less_imp_le zero_le order_le_less_trans)
    then have "(of_nat (a * n) :: rat) < of_nat (2 ^ 40 * b)" by (simp only: of_nat_less_iff)
    then show ?thesis using ab by (simp add: divide_simps)
  qed
  show ?thesis
  proof (cases "b dvd a * n")
    case False
    with ab err y_less show ?thesis by (intro rank_between)
  next
    case True
    then obtain m where "a * n = b * m" by (elim dvdE)
    then show ?thesis
    proof (cases "n = 0")
      case False
      with p \<open>a * n = b * m\<close> show ?thesis using err y_less by (rule rank_at)
    qed (simp add: trunc_float_def)
  qed
qed

section \<open>Fractions below one\<close>

lemma fround_below_one:
  assumes "1 / 2 \<le> x" and "x < 1" and "\<bar>x * 9007199254740992 - of_int k\<bar> < 1 / 2"
  shows "fround x = of_int k / 9007199254740992"
proof -
  have u: "(2 :: rat) powi (- 1 - 52) = 1 / 9007199254740992" "(2 :: rat) powi (- 1 - 53) = 1 / 18014398509481984"
    by (simp_all add: power_int_minus)
  have "fround x = of_int k * 2 powi (- 1 - 52)"
  proof (rule fround_near)
    show "\<bar>x - of_int k * 2 powi (- 1 - 52)\<bar> < 2 powi (- 1 - 53)"
      using assms(3) unfolding u abs_less_iff by linarith
  qed (use assms in \<open>simp_all add: power_int_minus\<close>)
  then show ?thesis unfolding u by simp
qed

lemma fine_fractions:
  "fine_fraction 1 2 (fround (1 / 2))" "fine_fraction 9 10 (fround (9 / 10))"
  "fine_fraction 19 20 (fround (19 / 20))" "fine_fraction 99 100 (fround (99 / 100))"
  "fine_fraction 999 1000 (fround (999 / 1000))"
proof -
  have cop: "coprime 9 (10 :: nat)" "coprime 19 (20 :: nat)" "coprime 99 (100 :: nat)" "coprime 999 (1000 :: nat)"
    by code_simp+
  have "fround (1 / 2) = of_int 4503599627370496 / 9007199254740992" by (rule fround_below_one) simp_all
  then show "fine_fraction 1 2 (fround (1 / 2))" by (simp add: fine_fraction_def)
  have "fround (9 / 10) = of_int 8106479329266893 / 9007199254740992" by (rule fround_below_one) simp_all
  then show "fine_fraction 9 10 (fround (9 / 10))" using cop by (simp add: fine_fraction_def)
  have "fround (19 / 20) = of_int 8556839292003942 / 9007199254740992" by (rule fround_below_one) simp_all
  then show "fine_fraction 19 20 (fround (19 / 20))" using cop by (simp add: fine_fraction_def)
  have "fround (99 / 100) = of_int 8917127262193582 / 9007199254740992" by (rule fround_below_one) simp_all
  then show "fine_fraction 99 100 (fround (99 / 100))" using cop by (simp add: fine_fraction_def)
  have "fround (999 / 1000) = of_int 8998192055486251 / 9007199254740992" by (rule fround_below_one) simp_all
  then show "fine_fraction 999 1000 (fround (999 / 1000))" using cop by (simp add: fine_fraction_def)
qed

end
