(* ===== verification/Price_Text.thy ===== *)
theory Price_Text
  imports Main_Program Float_Rank
begin

text \<open>The text of prices of whole cents: two roundings, of the quotient and of the format, do not show.\<close>

definition cents :: "int \<Rightarrow> string" where
  "cents n = show_unsigned (nat (n div 100)) @ ''.'' @ show_padded 2 (n mod 100)"

lemma show_fixed2_near:
  assumes "0 \<le> n" and "0 \<le> x" and "\<bar>x * 100 - of_int n\<bar> < 1 / 2"
  shows "show_fixed2 x = cents n"
proof -
  have "round_half_even (\<bar>x\<bar> * 100) = n" using assms by (intro round_half_even_near) simp
  then show ?thesis using assms(2) by (simp add: show_fixed2_def cents_def)
qed

lemma show_fixed2_cents:
  assumes "0 \<le> n" and "n < 10000000"
  shows "show_fixed2 (fround (of_int n / 100)) = cents n"
proof (cases "n = 0")
  case True
  then show ?thesis by (intro show_fixed2_near) simp_all
next
  case False
  let ?x = "of_int n / 100 :: rat"
  have "of_int n < (of_int 10000000 :: rat)" using assms(2) by (simp only: of_int_less_iff)
  moreover have "(of_int 1 :: rat) \<le> of_int n" using assms(1) False by (simp only: of_int_le_iff)
  ultimately have n: "1 \<le> (of_int n :: rat)" "(of_int n :: rat) < 10000000" by simp_all
  then have "\<bar>?x\<bar> < 2 powi (16 + 1)" by simp
  from fround_error_bound [OF this] have "\<bar>fround ?x - ?x\<bar> \<le> 2 powi (- 37)" by simp
  also have "(2 :: rat) powi (- 37) \<le> 1 / 1000" by (simp add: power_int_minus)
  finally have "\<bar>fround ?x - ?x\<bar> \<le> 1 / 1000" .
  then have e: "fround ?x - ?x \<le> 1 / 1000" "?x - fround ?x \<le> 1 / 1000" unfolding abs_le_iff by linarith+
  show ?thesis
  proof (rule show_fixed2_near [OF assms(1)])
    show "0 \<le> fround ?x" using e(2) n(1) by linarith
    show "\<bar>fround ?x * 100 - of_int n\<bar> < 1 / 2" unfolding abs_less_iff using e by linarith
  qed
qed

lemma million_cents: "(of_int (10000 * n) :: rat) / 1000000 = of_int n / 100"
  by simp

lemma show_dollars_cents:
  assumes "0 \<le> n" and "n < 10000000"
  shows "show_dollars (i64_of (10000 * n)) = cents n"
proof -
  have "in_i64 (10000 * n)" using assms by (simp add: in_i64_def)
  then have "ival (i64_of (10000 * n)) = 10000 * n" by simp
  moreover have "float_of_int (10000 * n) = of_int (10000 * n)"
    unfolding float_of_int_def using assms by (intro fround_int) simp
  ultimately have "show_dollars (i64_of (10000 * n)) = show_fixed2 (fround (of_int n / 100))"
    by (simp only: show_dollars_def fdiv_def million_cents)
  then show ?thesis using assms by (simp add: show_fixed2_cents)
qed

lemma show_price_cents:
  assumes "price_scaled od = i64_of (10000 * n)" and "0 \<le> n" and "n < 10000000"
  shows "show_fixed2 (priceAsDouble od) = cents n"
proof -
  have "priceAsDouble od = fdiv (float_of_int (ival (i64_of (10000 * n)))) 1000000"
    by (simp only: priceAsDouble_def price_scale_float assms(1))
  then show ?thesis using show_dollars_cents [OF assms(2,3)] by (simp only: show_dollars_def)
qed

end
