(* ===== verification/Main_Session.thy ===== *)
theory Main_Session
  imports Price_Text Main_Theorems
begin

text \<open>
  \<open>main\<close> of \<open>src/main.cpp\<close> up to the queue demonstration as a list of statements, with the background thread of the
  logger taking turns between them as it likes. So far only this thread logs and only the background thread takes
  messages out, which is what the queue of the logger is made for; \<open>Logger_Concurrent\<close> has the same two threads with
  every access to memory a step. In the demonstration and at the last \<open>flush\<close> that is no longer so: two threads log at
  once, two take messages out, and neither has a meaning in C++. \<open>Queue_Demo\<close> has the demonstration without its log.
\<close>

section \<open>The statements\<close>

type_synonym statement = "program \<Rightarrow> program res option"

definition always :: "action \<Rightarrow> statement" where
  "always a s = Some (a s)"

definition after_actions :: "32 word \<Rightarrow> action list" where
  "after_actions tid =
     [LOG INFO ''Order Book State After Matching:'' tid, report_best tid,
      LOG INFO (newline @ ''Demonstrating SPSC Queue...'') tid]"

definition main_statements ::
  "64 word \<Rightarrow> (heap \<Rightarrow> addr) \<Rightarrow> (string \<Rightarrow> bool) \<Rightarrow> bool \<Rightarrow> int \<Rightarrow> 32 word \<Rightarrow> statement list" where
  "main_statements N malloc opens optimized cpu_count tid =
     map always (setup_actions opens optimized cpu_count tid @ order_actions N malloc tid) @
     match_and_report tid # map always (after_actions tid)"

section \<open>Schedules\<close>

text \<open>Beside the program there is \<open>last_flush\<close>, the variable of the background thread.\<close>

datatype event = Statement statement | Turn

definition background_turn :: "(i64 \<Rightarrow> tm) \<Rightarrow> program \<times> i64 \<Rightarrow> (program \<times> i64) res" where
  "background_turn localtime = (\<lambda>(s, last_flush).
     if log_thread (logger_of (engine s))
     then andThen (worker_turn localtime (clock (memory_of (engine s))) last_flush (logger_of (engine s)))
            (\<lambda>(c, last_flush', lg). Inr (s\<lparr>engine := (set_clock c (engine s))\<lparr>logger_of := lg\<rparr>\<rparr>, last_flush'))
     else Inr (s, last_flush))"

fun run_schedule :: "(i64 \<Rightarrow> tm) \<Rightarrow> event list \<Rightarrow> program \<times> i64 \<Rightarrow> (program \<times> i64) res option" where
  "run_schedule localtime [] sl = Some (Inr sl)"
| "run_schedule localtime (Statement f # es) sl =
     (case f (fst sl) of
        None \<Rightarrow> None
      | Some (Inl e) \<Rightarrow> Some (Inl e)
      | Some (Inr s') \<Rightarrow> run_schedule localtime es (s', snd sl))"
| "run_schedule localtime (Turn # es) sl =
     (case background_turn localtime sl of
        Inl e \<Rightarrow> Some (Inl e)
      | Inr sl' \<Rightarrow> run_schedule localtime es sl')"

fun statements_of :: "event list \<Rightarrow> statement list" where
  "statements_of [] = []"
| "statements_of (Statement f # es) = f # statements_of es"
| "statements_of (Turn # es) = statements_of es"

section \<open>Assertions for every schedule\<close>

text \<open>An assertion that the background thread keeps.\<close>

definition stable :: "(i64 \<Rightarrow> tm) \<Rightarrow> (program \<Rightarrow> bool) \<Rightarrow> bool" where
  "stable localtime P \<longleftrightarrow>
     (\<forall>s lf. P s \<longrightarrow> 0 \<le> ival lf \<longrightarrow>
        (\<exists>s' lf'. background_turn localtime (s, lf) = Inr (s', lf') \<and> P s' \<and> 0 \<le> ival lf'))"

definition leads ::
  "(i64 \<Rightarrow> tm) \<Rightarrow> (program \<Rightarrow> bool) \<Rightarrow> statement list \<Rightarrow> (program \<Rightarrow> bool) \<Rightarrow> bool" where
  "leads localtime P fs Q \<longleftrightarrow>
     (\<forall>es s lf. statements_of es = fs \<longrightarrow> P s \<longrightarrow> 0 \<le> ival lf \<longrightarrow>
        (\<exists>s' lf'. run_schedule localtime es (s, lf) = Some (Inr (s', lf')) \<and> Q s' \<and> 0 \<le> ival lf'))"

lemma leadsE:
  assumes "leads lt P fs Q" and "statements_of es = fs" and "P s" and "0 \<le> ival lf"
  obtains s' lf' where "run_schedule lt es (s, lf) = Some (Inr (s', lf'))" and "Q s'" and "0 \<le> ival lf'"
  using assms unfolding leads_def by blast

lemma run_schedule_append:
  "run_schedule lt (es @ es') sl =
     (case run_schedule lt es sl of
        None \<Rightarrow> None
      | Some (Inl e) \<Rightarrow> Some (Inl e)
      | Some (Inr sl') \<Rightarrow> run_schedule lt es' sl')"
  by (induction lt es sl rule: run_schedule.induct) (auto split: option.split sum.split)

lemma statements_split:
  "statements_of es = fs @ gs \<Longrightarrow> \<exists>es1 es2. es = es1 @ es2 \<and> statements_of es1 = fs \<and> statements_of es2 = gs"
proof (induction es arbitrary: fs rule: statements_of.induct)
  case 1
  then show ?case by (intro exI [of _ "[]"]) simp
next
  case (2 f es)
  show ?case
  proof (cases fs)
    case Nil
    then show ?thesis using 2(2) by (intro exI [of _ "[]"] exI [of _ "Statement f # es"]) simp
  next
    case (Cons a fs')
    with 2 obtain es1 es2 where "es = es1 @ es2" "statements_of es1 = fs'" "statements_of es2 = gs" "a = f" by auto
    then show ?thesis using Cons by (intro exI [of _ "Statement f # es1"] exI [of _ es2]) simp
  qed
next
  case (3 es)
  then obtain es1 es2 where "es = es1 @ es2" "statements_of es1 = fs" "statements_of es2 = gs" by auto
  then show ?case by (intro exI [of _ "Turn # es1"] exI [of _ es2]) simp
qed

lemma leads_append:
  assumes "leads lt P fs Q" and "leads lt Q gs R"
  shows "leads lt P (fs @ gs) R"
  unfolding leads_def
proof (intro allI impI)
  fix es s lf
  assume es: "statements_of es = fs @ gs" and s: "P s" "0 \<le> ival lf"
  obtain es1 es2 where e: "es = es1 @ es2" "statements_of es1 = fs" "statements_of es2 = gs"
    using statements_split [OF es] by blast
  obtain s1 lf1 where 1: "run_schedule lt es1 (s, lf) = Some (Inr (s1, lf1))" "Q s1" "0 \<le> ival lf1"
    using assms(1) e(2) s by (rule leadsE)
  obtain s2 lf2 where "run_schedule lt es2 (s1, lf1) = Some (Inr (s2, lf2))" "R s2" "0 \<le> ival lf2"
    using assms(2) e(3) 1(2,3) by (rule leadsE)
  with 1(1) e(1) show "\<exists>s' lf'. run_schedule lt es (s, lf) = Some (Inr (s', lf')) \<and> R s' \<and> 0 \<le> ival lf'"
    by (simp add: run_schedule_append)
qed

lemma leads_Nil:
  assumes "stable lt P"
  shows "leads lt P [] P"
  unfolding leads_def
proof (intro allI impI)
  fix es s lf
  assume "statements_of es = []" "P s" "0 \<le> ival lf"
  then show "\<exists>s' lf'. run_schedule lt es (s, lf) = Some (Inr (s', lf')) \<and> P s' \<and> 0 \<le> ival lf'"
  proof (induction es arbitrary: s lf rule: statements_of.induct)
    case (3 es)
    then obtain s1 lf1 where "background_turn lt (s, lf) = Inr (s1, lf1)" "P s1" "0 \<le> ival lf1"
      using assms unfolding stable_def by blast
    with 3 show ?case by simp
  qed simp_all
qed

lemma leads_one:
  assumes "stable lt P" and "stable lt Q" and "\<And>s. P s \<Longrightarrow> \<exists>s'. f s = Some (Inr s') \<and> Q s'"
  shows "leads lt P [f] Q"
  unfolding leads_def
proof (intro allI impI)
  fix es s lf
  assume "statements_of es = [f]" "P s" "0 \<le> ival lf"
  then show "\<exists>s' lf'. run_schedule lt es (s, lf) = Some (Inr (s', lf')) \<and> Q s' \<and> 0 \<le> ival lf'"
  proof (induction es arbitrary: s lf rule: statements_of.induct)
    case (2 g es)
    then obtain s1 where "g s = Some (Inr s1)" "Q s1" using assms(3) by auto
    moreover from this obtain s2 lf2 where "run_schedule lt es (s1, lf) = Some (Inr (s2, lf2))" "Q s2" "0 \<le> ival lf2"
      using leads_Nil [OF assms(2)] 2 by (auto elim: leadsE)
    ultimately show ?case by simp
  next
    case (3 es)
    then obtain s1 lf1 where "background_turn lt (s, lf) = Inr (s1, lf1)" "P s1" "0 \<le> ival lf1"
      using assms(1) unfolding stable_def by blast
    with 3 show ?case by simp
  qed simp
qed

lemma leads_Cons:
  assumes "leads lt P [f] Q" and "leads lt Q fs R"
  shows "leads lt P (f # fs) R"
  using leads_append [OF assms] by simp

lemma leads_ex:
  assumes "\<And>x. leads lt (P x) fs (Q x)"
  shows "leads lt (\<lambda>s. \<exists>x. P x s) fs (\<lambda>s. \<exists>x. Q x s)"
  using assms unfolding leads_def by blast

lemma leads_any:
  assumes "\<And>x. C x \<Longrightarrow> leads lt (P x) fs Q"
  shows "leads lt (\<lambda>s. \<exists>x. P x s \<and> C x) fs Q"
  using assms unfolding leads_def by blast

lemma leads_weaken:
  assumes "leads lt P fs Q" and "\<And>s. P' s \<Longrightarrow> P s" and "\<And>s. Q s \<Longrightarrow> Q' s"
  shows "leads lt P' fs Q'"
  using assms unfolding leads_def by blast

end
