(* ===== verification/Main_Log.thy ===== *)
theory Main_Log
  imports Main_Session Logger_Session
begin

text \<open>
  What \<open>main\<close> logs, for every schedule of the background thread.
\<close>

section \<open>What has been logged so far\<close>

definition stored_text :: "string \<Rightarrow> string" where
  "stored_text t = take 255 (c_str t)"

lemma stored_snprintf [simp]: "stored_text (snprintf 256 t) = stored_text t"
proof -
  have "takeWhile P (take n xs) = take n (takeWhile P xs)" for P n and xs :: string
    by (induction xs arbitrary: n) (auto simp: take_Cons split: nat.split)
  then show ?thesis by (simp add: stored_text_def snprintf_def c_str_def)
qed

text \<open>
  The logger is at work at level DEBUG, and what it has written to \<open>out\<close>, followed by what is pending, are
  messages with the given texts.
\<close>

definition told :: "(i64 \<Rightarrow> tm) \<Rightarrow> log_output \<Rightarrow> string list \<Rightarrow> program \<Rightarrow> bool" where
  "told lt out texts s \<longleftrightarrow>
     (let lg = logger_of (engine s) in
      running lg \<and> log_thread lg \<and> min_level lg = DEBUG \<and>
      (\<exists>ms. sink lg = emit lt ms out \<and> map message (ms @ pending lg) = map stored_text texts))"

lemma told_length: "told lt out texts s \<Longrightarrow> length (pending (logger_of (engine s))) \<le> length texts"
  by (auto simp: told_def Let_def dest!: arg_cong [where f = length])

text \<open>A step that changes nothing but the logger and the readings of the wall clock and the monotonic clock.\<close>

definition only_logs :: "program \<Rightarrow> program \<Rightarrow> bool" where
  "only_logs s s' \<longleftrightarrow>
     quiet s s' \<and> calib s' = calib s \<and> last_trade (engine s') = last_trade (engine s) \<and>
     tsc (the_clock s') = tsc (the_clock s) \<and> tsc_reads (the_clock s') = tsc_reads (the_clock s)"

lemma only_logs_ok: "only_logs s s' \<Longrightarrow> program_ok s'"
  by (simp add: only_logs_def quiet_def)

lemma only_logs_trans: "only_logs s s' \<Longrightarrow> only_logs s' s'' \<Longrightarrow> only_logs s s''"
  by (auto simp: only_logs_def intro: quiet_trans)

lemma only_logsI:
  assumes "program_ok s" and "logger_wf lg" and "clocks_ok c"
    and "realtime c = realtime (the_clock s)" and "realtime_reads (the_clock s) \<le> realtime_reads c"
    and "tsc c = tsc (the_clock s)" and "tsc_reads c = tsc_reads (the_clock s)"
  shows "only_logs s (s\<lparr>engine := (set_clock c (engine s))\<lparr>logger_of := lg\<rparr>\<rparr>)"
  using assms
  by (simp add: only_logs_def quiet_def set_clock_def the_clock_def program_ok_def state_ok_def)

lemma log_msg_other_clocks:
  "log_msg lvl msg tid c lg = Inr (c', lg') \<Longrightarrow> clocks_ok c \<Longrightarrow> tsc c' = tsc c \<and> tsc_reads c' = tsc_reads c"
  by (auto simp: log_msg_def LogMessage_new_def getTimestampNs_ok split: if_splits)

lemma LOG_tells:
  assumes ok: "program_ok s" and told: "told lt out texts s" and lvl: "\<not> lvl < DEBUG" and few: "length texts < 65535"
  obtains s' where "LOG lvl msg tid s = Inr s'" and "only_logs s s'" and "told lt out (texts @ [msg]) s'"
proof -
  let ?lg = "logger_of (engine s)"
  have wf: "logger_wf ?lg" "clocks_ok (the_clock s)"
    using ok by (simp_all add: program_ok_def state_ok_def the_clock_def)
  have t: "running ?lg" "log_thread ?lg" "min_level ?lg = DEBUG" "length (pending ?lg) \<le> length texts"
    using told told_length [OF told] by (simp_all add: told_def Let_def)
  obtain c lg ms where l: "log_msg lvl msg tid (the_clock s) ?lg = Inr (c, lg)" "clocks_ok c" "logger_wf lg"
    "pending lg = pending ?lg @ ms" "sink lg = sink ?lg" "running lg = running ?lg"
    "log_thread lg = log_thread ?lg" "min_level lg = min_level ?lg" "length ms \<le> 1"
    "running ?lg \<Longrightarrow> length (pending ?lg) < 65535 \<Longrightarrow>
      map message ms = (if lvl < min_level ?lg then [] else [take 255 (c_str msg)])"
    using wf by (rule log_call_delivers) blast
  have ms: "map message ms = [stored_text msg]" using l(10) t lvl few by (simp add: stored_text_def)
  let ?s = "s\<lparr>engine := (set_clock c (engine s))\<lparr>logger_of := lg\<rparr>\<rparr>"
  obtain ns where ns: "sink ?lg = emit lt ns out" "map message (ns @ pending ?lg) = map stored_text texts"
    using told by (auto simp: told_def Let_def)
  have "sink lg = emit lt ns out" using ns(1) l(5) by simp
  moreover have "map message (ns @ pending lg) = map stored_text (texts @ [msg])" using ns(2) ms l(4) by simp
  ultimately have "told lt out (texts @ [msg]) ?s"
    unfolding told_def Let_def using t(1-3) l(6-8) by (auto simp: set_clock_def simp del: emit_simps map_append)
  moreover have "only_logs s ?s"
    using ok l(3,2) log_msg_clock [OF l(1) wf(2)] log_msg_other_clocks [OF l(1) wf(2)] by (intro only_logsI) simp_all
  moreover have "LOG lvl msg tid s = Inr ?s" using l(1) by (simp add: LOG_def the_clock_def)
  ultimately show thesis by (intro that)
qed

lemma worker_turn_clock:
  "worker_turn lt c lf lg = Inr (c', lf', lg') \<Longrightarrow> clocks_ok c \<Longrightarrow> \<exists>n. c' = c\<lparr>monotonic_reads := n\<rparr>"
  by (auto simp: worker_turn_def getMonotonicNs_ok andThen_eq_Inr_iff split: prod.splits option.splits)

lemma turn_keeps_told:
  assumes ok: "program_ok s" and told: "told lt out texts s" and lf: "0 \<le> ival lf"
  obtains s' lf' where "background_turn lt (s, lf) = Inr (s', lf')" and "only_logs s s'" and "told lt out texts s'"
    and "0 \<le> ival lf'"
proof -
  let ?lg = "logger_of (engine s)"
  have wf: "logger_wf ?lg" "clocks_ok (the_clock s)"
    using ok by (simp_all add: program_ok_def state_ok_def the_clock_def)
  obtain c lf' lg where w: "worker_turn lt (the_clock s) lf ?lg = Inr (c, lf', lg)"
    "clocks_ok c" "0 \<le> ival lf'" "logger_wf lg"
    "pending lg = drop 1 (pending ?lg)" "sink lg = emit lt (take 1 (pending ?lg)) (sink ?lg)"
    "running lg = running ?lg" "log_thread lg = log_thread ?lg" "min_level lg = min_level ?lg"
    using wf lf by (rule worker_turn_effect)
  obtain n where c: "c = (the_clock s)\<lparr>monotonic_reads := n\<rparr>" using worker_turn_clock [OF w(1) wf(2)] by blast
  let ?s = "s\<lparr>engine := (set_clock c (engine s))\<lparr>logger_of := lg\<rparr>\<rparr>"
  obtain ns where ns: "sink ?lg = emit lt ns out" "map message (ns @ pending ?lg) = map stored_text texts"
    using told by (auto simp: told_def Let_def)
  have "sink lg = emit lt (ns @ take 1 (pending ?lg)) out" using w(6) ns(1) by simp
  moreover have "map message ((ns @ take 1 (pending ?lg)) @ pending lg) = map stored_text texts"
    using ns(2) unfolding w(5) append.assoc append_take_drop_id .
  ultimately have "told lt out texts ?s"
    unfolding told_def Let_def using told w(7-9) by (auto simp: told_def Let_def set_clock_def simp del: emit_simps map_append)
  moreover have "only_logs s ?s" using ok w(4,2) by (intro only_logsI) (simp_all add: c)
  moreover have "background_turn lt (s, lf) = Inr (?s, lf')"
    using w(1) told by (simp add: background_turn_def told_def Let_def the_clock_def)
  ultimately show thesis using w(3) by (intro that)
qed

section \<open>Scenes\<close>

text \<open>An assertion \<open>K\<close> about everything else, and the texts logged so far.\<close>

definition steady :: "(program \<Rightarrow> bool) \<Rightarrow> bool" where
  "steady K \<longleftrightarrow> (\<forall>s s'. K s \<longrightarrow> only_logs s s' \<longrightarrow> K s')"

definition scene ::
  "(i64 \<Rightarrow> tm) \<Rightarrow> log_output \<Rightarrow> (program \<Rightarrow> bool) \<Rightarrow> string list \<Rightarrow> program \<Rightarrow> bool" where
  "scene lt out K texts s \<longleftrightarrow> program_ok s \<and> told lt out texts s \<and> K s"

lemma steadyD: "steady K \<Longrightarrow> K s \<Longrightarrow> only_logs s s' \<Longrightarrow> K s'"
  by (auto simp: steady_def)

lemma scene_stable:
  assumes "steady K"
  shows "stable lt (scene lt out K texts)"
  unfolding stable_def
proof (intro allI impI)
  fix s lf
  assume s: "scene lt out K texts s" and lf: "0 \<le> ival lf"
  then obtain s' lf' where t: "background_turn lt (s, lf) = Inr (s', lf')" "only_logs s s'" "told lt out texts s'"
    "0 \<le> ival lf'"
    using turn_keeps_told unfolding scene_def by metis
  then have "scene lt out K texts s'"
    using s assms by (auto simp: scene_def only_logs_ok intro: steadyD)
  with t show "\<exists>s' lf'. background_turn lt (s, lf) = Inr (s', lf') \<and> scene lt out K texts s' \<and> 0 \<le> ival lf'"
    by blast
qed

text \<open>Actions that log the given lines and do nothing else.\<close>

definition says :: "(program \<Rightarrow> bool) \<Rightarrow> action \<Rightarrow> string list \<Rightarrow> bool" where
  "says K a ls \<longleftrightarrow>
     (\<forall>lt out texts s. program_ok s \<longrightarrow> told lt out texts s \<longrightarrow> K s \<longrightarrow> length texts + length ls < 65535 \<longrightarrow>
        (\<exists>s'. a s = Inr s' \<and> only_logs s s' \<and> told lt out (texts @ ls) s'))"

lemma says_LOG: "\<not> lvl < DEBUG \<Longrightarrow> says K (LOG lvl msg tid) [msg]"
  unfolding says_def by (metis LOG_tells add_lessD1)

lemma told_stored: "map stored_text texts = map stored_text texts' \<Longrightarrow> told lt out texts s = told lt out texts' s"
  by (simp add: told_def Let_def)

lemma says_LOG_F: "\<not> lvl < DEBUG \<Longrightarrow> says K (LOG_F lvl expansion tid) [expansion]"
proof -
  assume "\<not> lvl < DEBUG"
  then have "says K (LOG lvl (snprintf 256 expansion) tid) [snprintf 256 expansion]" by (rule says_LOG)
  moreover have "LOG_F lvl expansion tid = LOG lvl (snprintf 256 expansion) tid"
    by (simp add: fun_eq_iff LOG_F_def LOG_def logf_def log_msg_def)
  moreover have "told lt out (texts @ [snprintf 256 expansion]) s = told lt out (texts @ [expansion]) s" for lt out texts s
    by (rule told_stored) simp
  ultimately show ?thesis by (simp add: says_def)
qed

lemma says_run_all:
  assumes "steady K" and "list_all2 (says K) as ls"
  shows "says K (run_all as) (concat ls)"
  using assms(2)
proof (induction rule: list_all2_induct)
  case Nil
  have "only_logs s s" if "program_ok s" for s
    using that quiet_refl by (simp add: only_logs_def)
  then show ?case by (auto simp: says_def)
next
  case (Cons a as l ls)
  show ?case unfolding says_def
  proof (intro allI impI)
    fix lt out texts s
    assume s: "program_ok s" "told lt out texts s" "K s" and few: "length texts + length (concat (l # ls)) < 65535"
    then obtain s1 where s1: "a s = Inr s1" "only_logs s s1" "told lt out (texts @ l) s1"
      using Cons(1) unfolding says_def by (metis add_lessD1 concat.simps(2) length_append add.assoc)
    moreover have "program_ok s1" "K s1" using s(3) s1(2) assms(1) by (auto simp: only_logs_ok intro: steadyD)
    ultimately obtain s2 where "run_all as s1 = Inr s2" "only_logs s1 s2" "told lt out ((texts @ l) @ concat ls) s2"
      using Cons(3) few unfolding says_def by (metis add.assoc concat.simps(2) length_append)
    with s1(1,2) show "\<exists>s'. run_all (a # as) s = Inr s' \<and> only_logs s s' \<and> told lt out (texts @ concat (l # ls)) s'"
      by (auto intro: only_logs_trans)
  qed
qed

lemma leads_says:
  assumes "steady K" and "says K a ls" and "length texts + length ls < 65535"
  shows "leads lt (scene lt out K texts) [always a] (scene lt out K (texts @ ls))"
proof (rule leads_one)
  fix s
  assume s: "scene lt out K texts s"
  then obtain s' where "a s = Inr s'" "only_logs s s'" "told lt out (texts @ ls) s'"
    using assms(2,3) unfolding says_def scene_def by blast
  then show "\<exists>s'. always a s = Some (Inr s') \<and> scene lt out K (texts @ ls) s'"
    using s assms(1) by (auto simp: always_def scene_def only_logs_ok intro: steadyD)
qed (use assms(1) in \<open>simp_all add: scene_stable\<close>)

lemma leads_says_all:
  assumes "steady K" and "list_all2 (says K) as ls" and "length texts + length (concat ls) < 65535"
  shows "leads lt (scene lt out K texts) (map always as) (scene lt out K (texts @ concat ls))"
  using assms(2,3)
proof (induction arbitrary: texts rule: list_all2_induct)
  case Nil
  then show ?case using assms(1) by (simp add: leads_Nil scene_stable)
next
  case (Cons a as l ls)
  have "leads lt (scene lt out K texts) [always a] (scene lt out K (texts @ l))"
    using assms(1) Cons(1,4) by (intro leads_says) simp_all
  moreover have "leads lt (scene lt out K (texts @ l)) (map always as) (scene lt out K ((texts @ l) @ concat ls))"
    using Cons(4) by (intro Cons(3)) simp
  ultimately show ?case by (simp add: leads_Cons)
qed

section \<open>Reports of the book\<close>

definition best_line :: "string \<Rightarrow> order list \<Rightarrow> string" where
  "best_line name xs = ''  Best '' @ name @ '': $'' @ show_dollars (best_price xs) @ '' (Qty: '' @
     show_unsigned (unat (case xs of [] \<Rightarrow> 0 | x # _ \<Rightarrow> quantity x)) @ '')''"

lemma quantity_or_zero_best:
  assumes "book_wf bk h"
  shows "quantity_or_zero h (getBestBid bk) = Inr (case fst (view bk h) of [] \<Rightarrow> 0 | x # _ \<Rightarrow> quantity x)"
    and "quantity_or_zero h (getBestAsk bk) = Inr (case snd (view bk h) of [] \<Rightarrow> 0 | x # _ \<Rightarrow> quantity x)"
proof -
  show "quantity_or_zero h (getBestBid bk) = Inr (case fst (view bk h) of [] \<Rightarrow> 0 | x # _ \<Rightarrow> quantity x)"
  proof (cases "bid_queue bk")
    case (Cons p ps)
    then obtain od where "h p = Some od" using queue_live [OF assms, of p] by auto
    then show ?thesis using getBest_queue(1) [OF assms] Cons by (simp add: quantity_or_zero_def view_def)
  qed (use getBest_queue(1) [OF assms] in \<open>simp add: quantity_or_zero_def view_def\<close>)
  show "quantity_or_zero h (getBestAsk bk) = Inr (case snd (view bk h) of [] \<Rightarrow> 0 | x # _ \<Rightarrow> quantity x)"
  proof (cases "ask_queue bk")
    case (Cons p ps)
    then obtain od where "h p = Some od" using queue_live [OF assms, of p] by auto
    then show ?thesis using getBest_queue(2) [OF assms] Cons by (simp add: quantity_or_zero_def view_def)
  qed (use getBest_queue(2) [OF assms] in \<open>simp add: quantity_or_zero_def view_def\<close>)
qed

definition shows_book :: "(program \<Rightarrow> bool) \<Rightarrow> abs_book \<Rightarrow> bool" where
  "shows_book K v \<longleftrightarrow> (\<forall>s. K s \<longrightarrow> abs_of (engine s) = v)"

lemma says_report_best:
  assumes K: "steady K" "shows_book K v"
  shows "says K (report_best tid) [best_line ''Bid'' (fst v), best_line ''Ask'' (snd v)]"
  unfolding says_def
proof (intro allI impI)
  fix lt out texts s
  assume s: "program_ok s" "told lt out texts s" "K s"
    and few: "length texts + length [best_line ''Bid'' (fst v), best_line ''Ask'' (snd v)] < 65535"
  let ?bk = "book_of (engine s)" and ?h = "heap (memory_of (engine s))"
  have wf: "book_wf ?bk ?h" using s(1) state_okD(1) by (simp add: program_ok_def)
  have v: "view ?bk ?h = v" using K(2) s(3) by (simp add: shows_book_def abs_of_def)
  let ?as = "[LOG_F INFO (best_line ''Bid'' (fst v)) tid, LOG_F INFO (best_line ''Ask'' (snd v)) tid]"
  have "report_best tid s = run_all ?as s"
    using quantity_or_zero_best [OF wf] best_price_view [OF wf]
    by (simp only: report_best_def Let_def andThen_Inr getBestBidPrice_def getBestAskPrice_def v best_line_def append.assoc)
      (simp del: run_all.simps)
  moreover have "says K (run_all ?as) (concat [[best_line ''Bid'' (fst v)], [best_line ''Ask'' (snd v)]])"
    using K(1) by (rule says_run_all) (simp add: says_LOG_F less_log_level_def)
  ultimately show "\<exists>s'. report_best tid s = Inr s' \<and> only_logs s s' \<and>
      told lt out (texts @ [best_line ''Bid'' (fst v), best_line ''Ask'' (snd v)]) s'"
    using s few by (simp add: says_def del: run_all.simps)
qed

lemma says_report_spread:
  assumes "\<And>s. K s \<Longrightarrow> program_ok s \<Longrightarrow> getSpread (book_of (engine s)) = Inr d"
  shows "says K (report_spread tid) [''  Spread: $'' @ show_dollars d]"
proof -
  have "says K (LOG_F INFO (''  Spread: $'' @ show_dollars d) tid) [''  Spread: $'' @ show_dollars d]"
    by (rule says_LOG_F) (simp add: less_log_level_def)
  then show ?thesis using assms by (simp add: says_def report_spread_def)
qed

section \<open>Matching\<close>

lemma getTimestampNs_tsc: "getTimestampNs c = Inr (t, c') \<Longrightarrow> tsc c' = tsc c \<and> tsc_reads c' = tsc_reads c"
  by (auto simp: getTimestampNs_def clock_gettime_realtime_def andThen_eq_Inr_iff)

lemma log_msg_tsc: "log_msg lvl msg tid c lg = Inr (c', lg') \<Longrightarrow> tsc c' = tsc c \<and> tsc_reads c' = tsc_reads c"
  by (auto simp: log_msg_def LogMessage_new_def andThen_eq_Inr_iff dest!: getTimestampNs_tsc split: if_splits)

definition same_tsc :: "match_state \<Rightarrow> match_state \<Rightarrow> bool" where
  "same_tsc st st' \<longleftrightarrow>
     tsc (clock (memory_of st')) = tsc (clock (memory_of st)) \<and>
     tsc_reads (clock (memory_of st')) = tsc_reads (clock (memory_of st))"

lemma record_trade_tsc: "record_trade tid p q pr n st = Inr st' \<Longrightarrow> same_tsc st st'"
  by (auto simp: record_trade_def same_tsc_def Let_def log_info_def andThen_eq_Inr_iff
      dest!: getTimestampNs_tsc log_msg_tsc)

lemma match_step_tsc: "match_step tid st = Inr (Some st') \<Longrightarrow> same_tsc st st'"
  by (auto simp: match_step_def executeTrade_def andThen_eq_Inr_iff same_tsc_def
      dest!: record_trade_tsc split: if_splits option.splits)

lemma match_loop_tsc: "match_loop tid n st = Some (Inr (m, st')) \<Longrightarrow> same_tsc st st'"
proof -
  have "\<forall>m st'. y = Inr (m, st') \<longrightarrow> same_tsc st st'" if "match_loop tid n st = Some y" for y
    using that
  proof (rule match_loop.raw_induct [rotated, where P = "\<lambda>_ _ st y. \<forall>m st'. y = Inr (m, st') \<longrightarrow> same_tsc st st'"], goal_cases)
    case (1 f tid n st y)
    show ?case
    proof (cases "match_step tid st")
      case (Inr r)
      show ?thesis
      proof (cases r)
        case None
        then show ?thesis using 1(2) Inr by (auto simp: same_tsc_def)
      next
        case (Some st1)
        then have "same_tsc st st1" using Inr by (simp add: match_step_tsc)
        then show ?thesis using 1 Inr Some by (auto simp: same_tsc_def)
      qed
    qed (use 1(2) in auto)
  qed
  then show "match_loop tid n st = Some (Inr (m, st')) \<Longrightarrow> same_tsc st st'" by blast
qed

definition executed_line :: "nat \<Rightarrow> int \<Rightarrow> nat \<Rightarrow> string" where
  "executed_line n us cycles = ''  Executed '' @ show_unsigned n @ '' trade(s) in '' @ show_signed us @
     '' microseconds ('' @ show_unsigned cycles @ '' cycles)''"

definition last_line :: "fill \<Rightarrow> string" where
  "last_line f = ''  Last trade: '' @ show_unsigned (unat (fill_qty f)) @ '' @ $'' @ show_dollars (fill_price f)"

lemma told_clock [simp]:
  "told lt out texts (s\<lparr>engine := set_clock c st\<rparr>) = told lt out texts (s\<lparr>engine := st\<rparr>)"
  "told lt out texts (s\<lparr>engine := engine s\<rparr>) = told lt out texts s"
  by (simp_all add: told_def set_clock_def)

lemma told_logged:
  assumes "told lt out texts s" and "logged (logger_of (engine s)) ts (logger_of (engine s'))"
    and "\<And>t. t \<in> set ts \<Longrightarrow> stored_text t = t" and "length texts + length ts < 65535"
  shows "told lt out (texts @ ts) s'"
proof -
  let ?lg = "logger_of (engine s)" and ?lg' = "logger_of (engine s')"
  have t: "running ?lg" "log_thread ?lg" "min_level ?lg = DEBUG" "length (pending ?lg) \<le> length texts"
    using assms(1) told_length [OF assms(1)] by (simp_all add: told_def Let_def)
  then have "length ts \<le> log_room ?lg" using assms(4) by (simp add: log_room_def less_eq_log_level_def)
  then obtain ms where ms: "pending ?lg' = pending ?lg @ ms" "map message ms = ts"
    using assms(2) by (auto simp: logged_def)
  have lg': "running ?lg'" "log_thread ?lg'" "min_level ?lg' = DEBUG" "sink ?lg' = sink ?lg"
    using assms(2) t by (simp_all add: logged_def)
  obtain ns where ns: "sink ?lg = emit lt ns out" "map message (ns @ pending ?lg) = map stored_text texts"
    using assms(1) by (auto simp: told_def Let_def)
  have "sink ?lg' = emit lt ns out" using ns(1) lg'(4) by simp
  moreover have "map message (ns @ pending ?lg') = map stored_text (texts @ ts)"
    using ns(2) ms assms(3) by (simp add: map_idI)
  ultimately show ?thesis
    unfolding told_def Let_def using lg'(1-3) by (auto simp del: emit_simps map_append)
qed

lemma match_and_report_tells:
  assumes ok: "program_ok s" and told: "told lt out texts s" and v: "abs_of (engine s) = v" and fs: "fills v \<noteq> []"
    and few: "length texts + length (fills v) + 2 < 65535" and cal: "calibrated (calib s)"
    and time: "float_to_i64 (fmul (float_of_int (uint
      (tsc (the_clock s) (Suc (tsc_reads (the_clock s))) - tsc (the_clock s) (tsc_reads (the_clock s)))))
      (ns_per_cycle (calib s))) = Inr ns"
  obtains s' us cycles where "match_and_report tid s = Some (Inr s')" and "program_ok s'"
    and "abs_of (engine s') = remainder v"
    and "told lt out (texts @ map fill_text (fills v) @ [executed_line (length (fills v)) us cycles, last_line (last (fills v))]) s'"
proof -
  let ?c = "the_clock s"
  let ?tm = "\<lparr>start_cycles = tsc ?c (tsc_reads ?c)\<rparr>"
  let ?s1 = "s\<lparr>engine := set_clock (?c\<lparr>tsc_reads := Suc (tsc_reads ?c)\<rparr>) (engine s)\<rparr>"
  have start: "start_timer s = Inr (?tm, ?s1)"
    by (simp add: start_timer_def LatencyTimerRDTSC_new_def rdtsc_def the_clock_def)
  have s1: "state_ok (engine ?s1)" "abs_of (engine ?s1) = v"
    using ok v by (simp_all add: program_ok_def state_ok_def set_clock_def the_clock_def abs_of_def)
  obtain n st where m: "matchOrders tid (engine ?s1) = Some (Inr (n, st))" "unat n = length (fills v)" "state_ok st"
    "abs_of st = remainder v" "last_trade_ok (last_trade (engine ?s1)) (fills v) (last_trade st)"
    "logged (logger_of (engine ?s1)) (map fill_text (fills v)) (logger_of st)"
    using s1(1) by (rule matchOrders_runs [of "engine ?s1" tid, unfolded s1(2)])
  let ?s2 = "?s1\<lparr>engine := st\<rparr>"
  have "told lt out texts ?s1" using told by simp
  then have t2: "told lt out (texts @ map fill_text (fills v)) ?s2"
    by (rule told_logged) (use m(6) few in \<open>auto simp: fill_text_def stored_text_def\<close>)
  have "same_tsc (engine ?s1) st" using m(1) match_loop_tsc by (simp add: matchOrders_def)
  then have c2: "tsc (clock (memory_of st)) = tsc ?c" "tsc_reads (clock (memory_of st)) = Suc (tsc_reads ?c)"
    by (simp_all add: same_tsc_def set_clock_def)
  let ?c3 = "(clock (memory_of st))\<lparr>tsc_reads := Suc (Suc (Suc (tsc_reads ?c)))\<rparr>"
  let ?s3 = "?s2\<lparr>engine := set_clock ?c3 (engine ?s2)\<rparr>"
  define us where "us = i64_quot ns 1000"
  define cycles where "cycles = tsc ?c (Suc (Suc (tsc_reads ?c))) - tsc ?c (tsc_reads ?c)"
  have e: "rdtsc_elapsedUs ?tm (calib ?s2) (clock (memory_of (engine ?s2))) =
      Inr (us, calib s, (clock (memory_of st))\<lparr>tsc_reads := Suc (Suc (tsc_reads ?c))\<rparr>)"
    using time cal by (simp add: rdtsc_elapsedUs_def rdtsc_elapsedNs_def rdtsc_def cyclesToNs_def calibrate_def c2 us_def)
  have pos: "0 < n" using m(2) fs by (simp add: word_greater_zero_iff unat_eq_zero [symmetric] del: unat_eq_zero)
  have ok3: "program_ok ?s3" using m(3) by (simp add: program_ok_def state_ok_def set_clock_def)
  have t3: "told lt out (texts @ map fill_text (fills v)) ?s3" using t2 by simp
  let ?line = "executed_line (length (fills v)) (ival us) (unat cycles)"
  have "says (\<lambda>_. True) (LOG_F INFO ?line tid) [?line]" by (rule says_LOG_F) (simp add: less_log_level_def)
  then obtain s4 where s4: "LOG_F INFO ?line tid ?s3 = Inr s4" "only_logs ?s3 s4"
    "told lt out ((texts @ map fill_text (fills v)) @ [?line]) s4"
    using ok3 t3 few unfolding says_def by fastforce
  obtain t where t: "last_trade st = Some t" "t = trade_of (last (fills v)) (trade_time t)"
    using m(5) fs by (auto simp: last_trade_ok_def split: option.splits)
  have "last_trade (engine s4) = Some t" using s4(2) t(1) by (simp add: only_logs_def set_clock_def)
  moreover have "trade_quantity t = fill_qty (last (fills v))" "trade_price t = fill_price (last (fills v))"
    using t(2) by (metis trade_of_def Trade_new_def trade.select_convs)+
  ultimately have report: "report_match tid ?tm n ?s2 = LOG_F INFO (last_line (last (fills v))) tid s4"
    using e s4(1) pos
    by (simp add: report_match_def elapsedCycles_def rdtsc_def c2 cycles_def executed_line_def m(2) last_line_def
        getLastTrade_def)
  have "says (\<lambda>_. True) (LOG_F INFO (last_line (last (fills v))) tid) [last_line (last (fills v))]"
    by (rule says_LOG_F) (simp add: less_log_level_def)
  then obtain s5 where s5: "LOG_F INFO (last_line (last (fills v))) tid s4 = Inr s5" "only_logs s4 s5"
    "told lt out (((texts @ map fill_text (fills v)) @ [?line]) @ [last_line (last (fills v))]) s5"
    using only_logs_ok [OF s4(2)] s4(3) few unfolding says_def by fastforce
  have "abs_of (engine ?s3) = remainder v" using m(4) by (simp add: abs_of_def set_clock_def)
  moreover have "quiet ?s3 s5" using only_logs_trans [OF s4(2) s5(2)] by (simp only: only_logs_def)
  ultimately have "abs_of (engine s5) = remainder v" by (simp only: quiet_view)
  moreover have "match_and_report tid s = Some (Inr s5)"
    using start m(1) report s5(1) by (simp add: match_and_report_def)
  ultimately show thesis
    using s5(3) only_logs_ok [OF s5(2)] by (intro that) simp_all
qed

end
