(* ===== verification/Main_Output.thy ===== *)
theory Main_Output
  imports Main_Log
begin

text \<open>The stages of \<open>main\<close> up to its queue demonstration and the text of its log.\<close>

section \<open>Set-up\<close>

definition timed :: "calibrator \<Rightarrow> (nat \<Rightarrow> 64 word) \<Rightarrow> nat \<Rightarrow> program \<Rightarrow> bool" where
  "timed cal counter k s \<longleftrightarrow> calib s = cal \<and> tsc (the_clock s) = counter \<and> tsc_reads (the_clock s) = k"

lemma timed_only_logs: "timed cal counter k s \<Longrightarrow> only_logs s s' \<Longrightarrow> timed cal counter k s'"
  by (simp add: timed_def only_logs_def)

definition market_log :: "log_output \<Rightarrow> log_output" where
  "market_log out = out\<lparr>log_file := Some \<lparr>path = ''market_engine.log'', is_open = True\<rparr>\<rparr>"

lemma market_log_written:
  "files (emit lt ms (market_log out)) ''market_engine.log'' = files out ''market_engine.log'' @ lines lt ms"
proof -
  have "sink_text (emit lt ms (market_log out)) = sink_text (market_log out) @ lines lt ms"
    by (rule sink_text_emit) (simp add: sink_works_def market_log_def)
  then show ?thesis by (simp add: sink_text_def) (simp add: market_log_def)
qed

text \<open>What the calibration at the start finds; the clocks are as in \<open>clocks_ok\<close>.\<close>

definition first_calibration :: "clocks \<Rightarrow> calibrator" where
  "first_calibration c =
     (case timespec_diff (monotonic c (Suc (monotonic_reads c))) (monotonic c (monotonic_reads c)) of
        Inl f \<Rightarrow> RDTSCCalibrator_init
      | Inr ns \<Rightarrow> calibrate_from (tsc c (Suc (tsc_reads c)) - tsc c (tsc_reads c)) ns)"

lemma first_calibration_calibrated:
  assumes "clocks_ok c"
  shows "calibrated (first_calibration c)"
proof -
  have "valid_timespec (monotonic c n)" for n using assms by (simp add: clocks_ok_def)
  then obtain d where "timespec_diff (monotonic c (Suc (monotonic_reads c))) (monotonic c (monotonic_reads c)) = Inr d"
    using timespec_diff_ok by metis
  then show ?thesis by (simp add: first_calibration_def calibrate_from_def Let_def)
qed

definition before_logging :: "64 word \<Rightarrow> clocks \<Rightarrow> log_output \<Rightarrow> program \<Rightarrow> bool" where
  "before_logging N c out s \<longleftrightarrow>
     stage N (realtime c) 0 {([], [])} {} s \<and> logger_of (engine s) = AsyncLogger_new out \<and>
     timed (first_calibration c) (tsc c) (tsc_reads c + 2) s"

definition at_stage :: "clocks \<Rightarrow> 64 word \<Rightarrow> nat \<Rightarrow> abs_book set \<Rightarrow> order_ident set \<Rightarrow> program \<Rightarrow> bool" where
  "at_stage c N k V ids s \<longleftrightarrow>
     stage N (realtime c) k V ids s \<and> timed (first_calibration c) (tsc c) (tsc_reads c + 2) s"

lemma steady_stage: "steady (at_stage c N k V ids)"
  by (auto simp: steady_def at_stage_def only_logs_def timed_def intro: stage_quiet_step)

lemma stable_silent:
  assumes "\<And>s. P s \<Longrightarrow> \<not> log_thread (logger_of (engine s))"
  shows "stable lt P"
  using assms by (auto simp: stable_def background_turn_def)

lemma new_logger_silent [simp]: "\<not> log_thread (AsyncLogger_new out)"
  by (simp add: AsyncLogger_new_def)

lemma leads_calibrate:
  assumes "clocks_ok c"
  shows "leads lt (\<lambda>s. s = main_start N b h c out) [always calibrate_action] (before_logging N c out)"
proof (rule leads_one)
  fix s
  assume s: "s = main_start N b h c out"
  have "stage N (realtime c) 0 {([], [])} {} s" unfolding s using assms by (rule main_start_stage)
  note st = this
  then have ok: "program_ok s" unfolding stage_def by blast
  obtain s' where s': "calibrate_action s = Inr s'" "quiet s s'"
    using calibrate_quiet ok by (rule quiet_actionE)
  have v: "valid_timespec (monotonic c n)" for n using assms by (simp add: clocks_ok_def)
  obtain d where d: "timespec_diff (monotonic c (Suc (monotonic_reads c))) (monotonic c (monotonic_reads c)) = Inr d"
    using timespec_diff_ok [OF v v] by metis
  have "timed (first_calibration c) (tsc c) (tsc_reads c + 2) s' \<and> logger_of (engine s') = AsyncLogger_new out"
    using s'(1) d
    by (auto simp: s main_start_def OrderMemoryPool_new_def Let_def calibrate_action_def calibrate_def rdtsc_def
        clock_gettime_monotonic_def RDTSCCalibrator_init_def set_clock_def timed_def the_clock_def first_calibration_def)
  then show "\<exists>s'. always calibrate_action s = Some (Inr s') \<and> before_logging N c out s'"
    using s' stage_quiet_step [OF s'(2) st] by (auto simp: always_def before_logging_def)
next
  show "stable lt (\<lambda>s. s = main_start N b h c out)"
    by (rule stable_silent) (simp add: main_start_def OrderMemoryPool_new_def Let_def)
  show "stable lt (before_logging N c out)"
    by (rule stable_silent) (simp add: before_logging_def)
qed

lemma leads_start:
  assumes "opens ''market_engine.log''"
  shows "leads lt (before_logging N c out) [always (start_logger opens)]
    (scene lt (market_log out) (at_stage c N 0 {([], [])} {}) [])"
proof (rule leads_one)
  fix s
  assume s: "before_logging N c out s"
  then have ok: "program_ok s" by (simp add: before_logging_def stage_def)
  obtain s' where s': "start_logger opens s = Inr s'" "quiet s s'" "program_ok s'"
    using start_logger_quiet ok by (rule quiet_actionE)
  have lg: "running (logger_of (engine s'))" "log_thread (logger_of (engine s'))" "min_level (logger_of (engine s')) = DEBUG"
    "sink (logger_of (engine s')) = market_log out" "queue (logger_of (engine s')) = queue (AsyncLogger_new out)"
    using s'(1) s assms
    by (auto simp: start_logger_def before_logging_def start_def setLevel_def AsyncLogger_new_def market_log_def)
  then have "pending (logger_of (engine s')) = []" using AsyncLogger_new_wf(2) [of out] by (simp only: pending_def)
  then have "told lt (market_log out) [] s'"
    using lg(1-4) by (auto simp: told_def Let_def intro!: exI [of _ "[]"])
  moreover have "timed (first_calibration c) (tsc c) (tsc_reads c + 2) s'"
    using s'(1) s by (auto simp: start_logger_def before_logging_def timed_def the_clock_def)
  moreover have "stage N (realtime c) 0 {([], [])} {} s'"
    using s'(2) s stage_quiet_step by (auto simp: before_logging_def)
  ultimately show "\<exists>s'. always (start_logger opens) s = Some (Inr s') \<and>
      scene lt (market_log out) (at_stage c N 0 {([], [])} {}) [] s'"
    using s'(1,3) by (simp add: always_def scene_def at_stage_def)
next
  show "stable lt (before_logging N c out)"
    by (rule stable_silent) (simp add: before_logging_def)
qed (rule scene_stable [OF steady_stage])

section \<open>Orders\<close>

lemma addOrder_tsc:
  "addOrder p bk mem = Inr (r, bk', mem') \<Longrightarrow>
   tsc (clock mem') = tsc (clock mem) \<and> tsc_reads (clock mem') = tsc_reads (clock mem)"
  by (auto simp: addOrder_def stamp_if_unset_def Let_def andThen_eq_Inr_iff
      dest!: getTimestampNs_tsc split: option.splits if_splits)

lemma place_order_frame:
  assumes "place_order N malloc i buy q pr s = Inr s'"
  shows "logger_of (engine s') = logger_of (engine s)" and "calib s' = calib s"
    and "tsc (the_clock s') = tsc (the_clock s)" and "tsc_reads (the_clock s') = tsc_reads (the_clock s)"
  using assms
  by (auto simp: place_order_def with_result_def create_order_def add_to_book_def the_clock_def andThen_eq_Inr_iff
      Let_def dest!: addOrder_tsc getTimestampNs_tsc split: prod.splits)

lemma leads_place:
  assumes "\<And>n. 0 < timespec_value (realtime c n)" and "k < unat N" and "k' = Suc k" and "i \<notin> ids" and "q \<noteq> 0"
    and "doubleToPrice pr = Inr p"
  shows "leads lt (scene lt out (at_stage c N k V ids) texts) [always (place_order N malloc i buy q pr)]
    (scene lt out (at_stage c N k' (placed (realtime c) i buy q p V) (insert i ids)) texts)"
proof (rule leads_one)
  fix s
  assume s: "scene lt out (at_stage c N k V ids) texts s"
  then have "stage N (realtime c) k V ids s" by (simp add: scene_def at_stage_def)
  from tripleE [OF stage_place [where malloc = malloc and buy = buy, OF assms] this]
  obtain s' where s': "place_order N malloc i buy q pr s = Inr s'"
    "stage N (realtime c) k' (placed (realtime c) i buy q p V) (insert i ids) s'" .
  note frame = place_order_frame [OF s'(1)]
  have "told lt out texts s'" using s frame(1) by (simp add: scene_def told_def)
  then show "\<exists>s'. always (place_order N malloc i buy q pr) s = Some (Inr s') \<and>
      scene lt out (at_stage c N k' (placed (realtime c) i buy q p V) (insert i ids)) texts s'"
    using s s' frame by (auto simp: always_def scene_def at_stage_def timed_def stage_def)
qed (rule scene_stable [OF steady_stage])+

section \<open>The lines up to the matching\<close>

definition setup_texts :: "bool \<Rightarrow> int \<Rightarrow> string list" where
  "setup_texts optimized cpu_count =
     [banner, ''HFT Market Data Engine - Linux Optimized'', banner, ''Initializing HFT optimizations...''] @
     (if optimized then [''  '' @ check_mark @ '' CPU affinity set'', ''  '' @ check_mark @ '' Memory locked'']
      else [''  '' @ warning_sign @ '' Some optimizations require root privileges'']) @
     [''  CPU cores: '' @ show_signed cpu_count]"

definition placing_texts :: "string list" where
  "placing_texts =
     [''Adding sample orders...'',
      ''  Added buy order: ID=1, Qty=100, Price=$100.50'',
      ''  Added buy order: ID=2, Qty=50, Price=$100.75'',
      ''  Added sell order: ID=3, Qty=75, Price=$100.25'']"

definition report_texts :: "string list" where
  "report_texts =
     [''Order Book State:'',
      ''  Best Bid: $100.75 (Qty: 50)'',
      ''  Best Ask: $100.25 (Qty: 75)'',
      ''  Spread: $-0.50'',
      ''Matching orders...'']"

lemma length_setup_texts: "length (setup_texts optimized cpu_count) \<le> 7"
  by (simp add: setup_texts_def)

lemma leads_LOG:
  assumes "steady K" and "\<not> lvl < DEBUG" and "length texts < 65534"
  shows "leads lt (scene lt out K texts) [always (LOG lvl msg tid)] (scene lt out K (texts @ [msg]))"
  using assms by (intro leads_says says_LOG) simp_all

lemma leads_LOG_F:
  assumes "steady K" and "\<not> lvl < DEBUG" and "length texts < 65534"
  shows "leads lt (scene lt out K texts) [always (LOG_F lvl msg tid)] (scene lt out K (texts @ [msg]))"
  using assms by (intro leads_says says_LOG_F) simp_all

lemmas levels = less_log_level_def less_eq_log_level_def

lemma leads_setup:
  assumes "clocks_ok c" and "opens ''market_engine.log''"
  shows "leads lt (\<lambda>s. s = main_start N b h c out) (map always (setup_actions opens optimized cpu_count tid))
    (scene lt (market_log out) (at_stage c N 0 {([], [])} {}) (setup_texts optimized cpu_count))"
proof -
  let ?as = "drop 2 (setup_actions opens optimized cpu_count tid)"
  let ?K = "at_stage c N 0 {([], [])} {}"
  have "list_all2 (says ?K) ?as (map (\<lambda>t. [t]) (setup_texts optimized cpu_count))"
    by (cases optimized) (simp_all add: setup_actions_def setup_texts_def says_LOG says_LOG_F levels)
  then have "leads lt (scene lt (market_log out) ?K []) (map always ?as)
      (scene lt (market_log out) ?K ([] @ concat (map (\<lambda>t. [t]) (setup_texts optimized cpu_count))))"
    by (intro leads_says_all steady_stage) (use length_setup_texts [of optimized cpu_count] in \<open>simp_all add: length_concat comp_def\<close>)
  then have "leads lt (scene lt (market_log out) ?K []) (map always ?as)
      (scene lt (market_log out) ?K (setup_texts optimized cpu_count))"
    by simp
  moreover have "map always (setup_actions opens optimized cpu_count tid) =
      always calibrate_action # always (start_logger opens) # map always ?as"
    by (simp add: setup_actions_def)
  ultimately show ?thesis
    by (simp only:) (intro leads_Cons [OF leads_calibrate [OF assms(1)]] leads_Cons [OF leads_start [where opens = opens, OF assms(2)]])
qed

subsection \<open>The reports of the sample book\<close>

lemma cents_samples [simp]:
  "cents 10075 = ''100.75''" "cents 10050 = ''100.50''" "cents 10025 = ''100.25''" "cents 0 = ''0.00''"
  by (simp_all add: cents_def show_unsigned_def show_padded_def digits.simps digit_char_def char_of_def bit_0)

lemma show_sample_prices [simp]:
  "show_dollars (i64_of 100750000) = ''100.75''" "show_dollars (i64_of 100500000) = ''100.50''"
  "show_dollars (i64_of 100250000) = ''100.25''" "show_dollars 0 = ''0.00''"
proof -
  have "(0 :: i64) = i64_of 0" by (simp add: i64_of_def zero_i64_def)
  then show "show_dollars 0 = ''0.00''" using show_dollars_cents [of 0] by simp
qed (use show_dollars_cents [of 10075] show_dollars_cents [of 10050] show_dollars_cents [of 10025] in simp_all)

lemma show_sample_quantities [simp]:
  "show_unsigned 50 = ''50''" "show_unsigned 75 = ''75''" "show_unsigned 0 = ''0''" "show_unsigned 25 = ''25''"
  "show_unsigned 2 = ''2''"
  by (simp_all add: show_unsigned_def digits.simps digit_char_def char_of_def bit_0)

lemma show_sample_spread: "show_dollars (i64_of (- 500000)) = ''-0.50''"
proof -
  have i: "ival (i64_of (- 500000)) = - 500000" by (simp add: in_i64_def)
  have "fround (of_int (- 500000)) = of_int (- 500000)" by (rule fround_int) simp
  then have f: "float_of_int (- 500000) = - 500000" by (simp add: float_of_int_def)
  have "\<bar>- 1 / 2\<bar> < (2 :: rat) powi (- 1 + 1)" by simp
  from fround_error_bound [OF this] have "\<bar>fround (- 1 / 2) - (- 1 / 2)\<bar> \<le> 1 / 1000"
    by (simp add: power_int_minus)
  then have "fround (- 1 / 2) \<le> - 1 / 2 + 1 / 1000" "- 1 / 2 - 1 / 1000 \<le> fround (- 1 / 2)"
    unfolding abs_le_iff by linarith+
  moreover have "round_half_even (\<bar>fround (- 1 / 2)\<bar> * 100) = 50"
  proof (rule round_half_even_near)
    have "\<bar>fround (- 1 / 2)\<bar> = - fround (- 1 / 2)" by (rule abs_of_neg) (use calculation(1) in linarith)
    then show "\<bar>\<bar>fround (- 1 / 2)\<bar> * 100 - of_int 50\<bar> < (1 / 2 :: rat)"
      unfolding abs_less_iff using calculation by (simp only: of_int_numeral) linarith
  qed
  ultimately have "show_fixed2 (fround (- 1 / 2)) = ''-0.50''"
    by (simp add: show_fixed2_def show_padded_def show_unsigned_def digits.simps digit_char_def char_of_def bit_0)
  then show ?thesis by (simp add: show_dollars_def i f fdiv_def)
qed

definition at_book :: "clocks \<Rightarrow> abs_book \<Rightarrow> program \<Rightarrow> bool" where
  "at_book c v s \<longleftrightarrow> abs_of (engine s) = v \<and> timed (first_calibration c) (tsc c) (tsc_reads c + 2) s"

lemma steady_book: "steady (at_book c v)"
  by (auto simp: steady_def at_book_def only_logs_def timed_def quiet_view)

lemma shows_at_book: "shows_book (at_book c v) v"
  by (simp add: shows_book_def at_book_def)

lemma says_sample_book:
  assumes "v \<in> sample_books rt"
  shows "list_all2 (says (at_book c v))
    (report_actions tid)
    [[''Order Book State:''], [''  Best Bid: $100.75 (Qty: 50)'', ''  Best Ask: $100.25 (Qty: 75)''],
     [''  Spread: $-0.50''], [''Matching orders...'']]"
proof -
  obtain n1 n2 n3 where v: "v = ([sample_order 2 True 50 100750000 (reading rt n2), sample_order 1 True 100 100500000 (reading rt n1)],
     [sample_order 3 False 75 100250000 (reading rt n3)])"
    using assms by (auto simp: sample_books_def)
  have "says (at_book c v) (report_best tid) [best_line ''Bid'' (fst v), best_line ''Ask'' (snd v)]"
    by (rule says_report_best [OF steady_book shows_at_book])
  moreover have "best_line ''Bid'' (fst v) = ''  Best Bid: $100.75 (Qty: 50)''"
    "best_line ''Ask'' (snd v) = ''  Best Ask: $100.25 (Qty: 75)''"
    by (simp_all add: v best_line_def best_price_def)
  moreover have "says (at_book c v) (report_spread tid) [''  Spread: $'' @ show_dollars (i64_of (- 500000))]"
  proof (rule says_report_spread)
    fix s
    assume s: "at_book c v s" "program_ok s"
    then have "book_wf (book_of (engine s)) (heap (memory_of (engine s)))"
      using state_okD(1) by (simp add: program_ok_def)
    from best_price_view [OF this] s(1)
    have "best_bid_price (book_of (engine s)) = i64_of 100750000" "best_ask_price (book_of (engine s)) = i64_of 100250000"
      by (simp_all add: at_book_def abs_of_def v best_price_def)
    moreover have "i64_of 100750000 \<noteq> 0" "i64_of 100250000 \<noteq> 0" by (simp_all flip: ival_eq_zero_iff)
    ultimately show "getSpread (book_of (engine s)) = Inr (i64_of (- 500000))"
      by (simp add: getSpread_def i64_sub_def in_i64_def)
  qed
  then have "says (at_book c v) (report_spread tid) [''  Spread: $-0.50'']" by (simp add: show_sample_spread)
  ultimately show ?thesis by (simp add: report_actions_def says_LOG levels)
qed

lemma leads_sample_orders:
  assumes "\<And>n. 0 < timespec_value (realtime c n)" and "3 \<le> N" and few: "length ts \<le> 7"
  shows "leads lt (scene lt out (at_stage c N 0 {([], [])} {}) ts) (map always (placing_actions N malloc tid))
    (scene lt out (at_stage c N 3 (sample_books (realtime c)) {3, 2, 1}) (ts @ placing_texts))"
proof -
  have n: "0 < unat N" "1 < unat N" "2 < unat N" using assms(2) by (simp_all add: word_le_nat_alt)
  have p1: "doubleToPrice (fround (201 / 2)) = Inr (i64_of 100500000)" by (rule small_price) simp_all
  have p2: "doubleToPrice (fround (403 / 4)) = Inr (i64_of 100750000)" by (rule small_price) simp_all
  have p3: "doubleToPrice (fround (401 / 4)) = Inr (i64_of 100250000)" by (rule small_price) simp_all
  let ?rt = "realtime c"
  let ?V1 = "placed ?rt 1 True 100 (i64_of 100500000) {([], [])}"
  let ?V2 = "placed ?rt 2 True 50 (i64_of 100750000) ?V1"
  let ?V3 = "placed ?rt 3 False 75 (i64_of 100250000) ?V2"
  note place = leads_place [where c = c and N = N and malloc = malloc and out = out and lt = lt, OF assms(1)]
  have 1: "leads lt (scene lt out (at_stage c N 0 {([], [])} {}) ts') [always (place_order N malloc 1 True 100 (fround (201 / 2)))]
      (scene lt out (at_stage c N 1 ?V1 {1}) ts')" for ts'
    by (rule place) (use n p1 in simp_all)
  have 2: "leads lt (scene lt out (at_stage c N 1 ?V1 {1}) ts') [always (place_order N malloc 2 True 50 (fround (403 / 4)))]
      (scene lt out (at_stage c N 2 ?V2 {2, 1}) ts')" for ts'
    by (rule place) (use n p2 in simp_all)
  have 3: "leads lt (scene lt out (at_stage c N 2 ?V2 {2, 1}) ts') [always (place_order N malloc 3 False 75 (fround (401 / 4)))]
      (scene lt out (at_stage c N 3 ?V3 {3, 2, 1}) ts')" for ts'
    by (rule place) (use n p3 in simp_all)
  have widen: "scene lt out (at_stage c N 3 ?V3 {3, 2, 1}) ts' s \<Longrightarrow>
      scene lt out (at_stage c N 3 (sample_books ?rt) {3, 2, 1}) ts' s" for ts' s
    using sample_books_placed [of ?rt] unfolding scene_def at_stage_def stage_def by blast
  note line = leads_LOG [OF steady_stage] leads_LOG_F [OF steady_stage]
  have "leads lt (scene lt out (at_stage c N 0 {([], [])} {}) ts) (map always (placing_actions N malloc tid))
      (scene lt out (at_stage c N 3 ?V3 {3, 2, 1}) ((((ts @ [''Adding sample orders...'']) @
        [''  Added buy order: ID=1, Qty=100, Price=$100.50'']) @ [''  Added buy order: ID=2, Qty=50, Price=$100.75'']) @
        [''  Added sell order: ID=3, Qty=75, Price=$100.25'']))"
    unfolding placing_actions_def list.map
    by (rule leads_Cons [OF 1] leads_Cons [OF 2] leads_Cons [OF 3] leads_Cons [OF line(1)] leads_Cons [OF line(2)]
        leads_Nil scene_stable steady_stage | use few in \<open>simp add: levels; fail\<close>)+
  then show ?thesis by (rule leads_weaken) (use widen in \<open>simp_all add: placing_texts_def\<close>)
qed

section \<open>The measured latency\<close>

text \<open>
  The calibration takes at most a second, and less than \<open>2 ^ 32\<close> cycles pass while the orders are matched. Then the
  conversion to nanoseconds is in range.
\<close>

definition brief :: "clocks \<Rightarrow> bool" where
  "brief c \<longleftrightarrow>
     timespec_value (monotonic c (Suc (monotonic_reads c))) - timespec_value (monotonic c (monotonic_reads c)) \<le> 1000000000 \<and>
     uint (tsc c (tsc_reads c + 3) - tsc c (tsc_reads c + 2)) < 2 ^ 32"

lemma inverse_rate_bound:
  assumes "1 \<le> cycles" and "1 \<le> ns" and "ns \<le> 1000000000"
  shows "\<bar>fdiv 1 (fdiv (float_of_int cycles) (float_of_int ns))\<bar> \<le> 2 ^ 31 - 1"
proof -
  have n: "float_of_int ns = of_int ns" unfolding float_of_int_def using assms(2,3) by (intro fround_int) simp
  have "(of_int 1 :: rat) \<le> of_int ns" "(of_int ns :: rat) \<le> of_int 1000000000" "(of_int 1 :: rat) \<le> of_int cycles"
    using assms by (simp_all only: of_int_le_iff)
  then have ns: "1 \<le> (of_int ns :: rat)" "(of_int ns :: rat) \<le> 1000000000" and cyc: "1 \<le> (of_int cycles :: rat)"
    by simp_all
  have "1 / 2 ^ 60 \<le> (of_int cycles :: rat)" by (rule order_trans [OF _ cyc]) simp
  then obtain a where a: "float_of_int cycles = of_int cycles * (1 + a)" "\<bar>a\<bar> \<le> 1 / 2 ^ 53"
    unfolding float_of_int_def by (rule fround_factor)
  have u: "9 / 10 \<le> 1 + a" using a(2) unfolding abs_le_iff by simp
  have "1 * (9 / 10) \<le> of_int cycles * (1 + a)" using cyc u by (intro mult_mono) simp_all
  then have c: "9 / 10 \<le> float_of_int cycles" by (simp add: a(1))
  have q: "(9 / 10) / 1000000000 \<le> float_of_int cycles / of_int ns" using c ns by (intro frac_le) simp_all
  have "1 / 2 ^ 60 \<le> float_of_int cycles / of_int ns" by (rule order_trans [OF _ q]) simp
  then obtain b where b: "fdiv (float_of_int cycles) (float_of_int ns) = float_of_int cycles / of_int ns * (1 + b)"
    "\<bar>b\<bar> \<le> 1 / 2 ^ 53"
    unfolding fdiv_def n by (rule fround_factor)
  have v: "9 / 10 \<le> 1 + b" using b(2) unfolding abs_le_iff by simp
  have "(9 / 10) / 1000000000 * (9 / 10) \<le> float_of_int cycles / of_int ns * (1 + b)"
    using q v order_trans [OF _ q, of 0] by (intro mult_mono) simp_all
  then have r: "81 / 100000000000 \<le> fdiv (float_of_int cycles) (float_of_int ns)" unfolding b(1) by simp
  let ?x = "1 / fdiv (float_of_int cycles) (float_of_int ns)"
  have x: "0 < ?x" "?x \<le> 100000000000 / 81"
    using r frac_le [of 1 1 "81 / 100000000000" "fdiv (float_of_int cycles) (float_of_int ns)"] by simp_all
  have "\<bar>?x\<bar> < 2 powi (30 + 1)" using x by simp
  from fround_error_bound [OF this] have e: "\<bar>fround ?x - ?x\<bar> \<le> 2 powi (- 23)" by simp
  also have "(2 :: rat) powi (- 23) = 1 / 8388608" by (simp add: power_int_minus)
  finally have "fround ?x \<le> ?x + 1 / 8388608" "?x - 1 / 8388608 \<le> fround ?x" unfolding abs_le_iff by linarith+
  then have "fround ?x \<le> 2147483647" "- 1 \<le> fround ?x" using x by linarith+
  then show ?thesis unfolding fdiv_def [of 1] abs_le_iff by simp
qed

lemma product_in_range:
  assumes "0 \<le> cycles" and "cycles < 2 ^ 32" and "\<bar>r\<bar> \<le> 2 ^ 31 - 1"
  shows "\<exists>ns. float_to_i64 (fmul (float_of_int cycles) r) = Inr ns"
proof -
  have f: "float_of_int cycles = of_int cycles" unfolding float_of_int_def using assms(1,2) by (intro fround_int) simp
  have "(of_int 0 :: rat) \<le> of_int cycles" "(of_int cycles :: rat) \<le> of_int (2 ^ 32)"
    using assms(1,2) by (simp_all only: of_int_le_iff less_imp_le)
  then have c: "\<bar>of_int cycles\<bar> \<le> (2 ^ 32 :: rat)" by simp
  have p: "\<bar>of_int cycles * r\<bar> \<le> 2 ^ 32 * (2 ^ 31 - 1)"
    unfolding abs_mult using c assms(3) by (intro mult_mono) simp_all
  then have "\<bar>of_int cycles * r\<bar> < 2 powi (62 + 1)" by simp
  from fround_error_bound [OF this] have "\<bar>fround (of_int cycles * r) - of_int cycles * r\<bar> \<le> 1024" by simp
  moreover have "\<bar>of_int cycles * r\<bar> \<le> 9223372032559808512" using p by simp
  ultimately have "\<bar>fmul (float_of_int cycles) r\<bar> < 9223372036854775807" unfolding f fmul_def by linarith
  then have b: "\<bar>fmul (float_of_int cycles) r\<bar> < 2 ^ 63 - 1" by simp
  let ?x = "fmul (float_of_int cycles) r"
  have "\<bar>of_int \<lfloor>y\<rfloor>\<bar> \<le> y" if "0 \<le> y" for y :: rat using that by simp
  note floor = this
  have "\<bar>of_int (trunc_float ?x) :: rat\<bar> \<le> \<bar>?x\<bar>"
  proof (cases "?x < 0")
    case True
    then show ?thesis using floor [of "- ?x"] unfolding trunc_float_def by (simp only: if_True of_int_minus abs_minus_cancel abs_of_neg less_imp_le neg_0_le_iff_le)
  next
    case False
    then have "0 \<le> ?x" by simp
    then show ?thesis using floor [of ?x] False unfolding trunc_float_def by (simp only: if_False abs_of_nonneg)
  qed
  then have "\<bar>of_int (trunc_float ?x) :: rat\<bar> < of_int (2 ^ 63 - 1)" using b by simp
  then have "\<bar>trunc_float ?x\<bar> < 2 ^ 63 - 1" by (simp only: of_int_less_iff flip: of_int_abs)
  then have "in_i64 (trunc_float ?x)" by (auto simp: in_i64_def abs_less_iff)
  then show ?thesis by (simp add: float_to_i64_def)
qed

lemma timespec_diff_value:
  assumes "timespec_diff t2 t1 = Inr d" and "valid_timespec t2" and "valid_timespec t1"
  shows "ival d = timespec_value t2 - timespec_value t1"
proof -
  have g: "ival (i64_of 1000000000) = 1000000000" by (simp add: in_i64_def)
  from assms(1) show ?thesis
    by (auto simp: timespec_diff_def i64_sub_def i64_mul_def i64_add_def timespec_value_def g andThen_eq_Inr_iff
        algebra_simps split: if_splits)
qed

lemma latency_in_range:
  assumes "clocks_ok c" and "brief c"
  shows "\<exists>ns. float_to_i64 (fmul (float_of_int (uint (tsc c (tsc_reads c + 3) - tsc c (tsc_reads c + 2))))
    (ns_per_cycle (first_calibration c))) = Inr ns"
proof (rule product_in_range)
  have v: "valid_timespec (monotonic c n)" for n using assms(1) by (simp add: clocks_ok_def)
  obtain d where d: "timespec_diff (monotonic c (Suc (monotonic_reads c))) (monotonic c (monotonic_reads c)) = Inr d"
    using timespec_diff_ok [OF v v] by metis
  let ?cycles = "tsc c (Suc (tsc_reads c)) - tsc c (tsc_reads c)"
  have ns: "ival d \<le> 1000000000" using timespec_diff_value [OF d v v] assms(2) by (simp add: brief_def)
  show "\<bar>ns_per_cycle (first_calibration c)\<bar> \<le> 2 ^ 31 - 1"
  proof (cases "0 < ?cycles \<and> 0 < d")
    case True
    then have "1 \<le> uint ?cycles" "1 \<le> ival d" by (simp_all add: word_less_def less_i64_def)
    from inverse_rate_bound [OF this ns] True show ?thesis
      by (simp add: first_calibration_def d calibrate_from_def Let_def)
  next
    case False
    have "\<bar>fround (2 / 5) - 2 / 5\<bar> \<le> (2 :: rat) powi (0 - 53)" by (rule fround_error_bound) simp_all
    also have "(2 :: rat) powi (0 - 53) \<le> 1" by (simp add: power_int_minus)
    finally have "\<bar>fround (2 / 5)\<bar> \<le> 2" by linarith
    then have "\<bar>fround (2 / 5)\<bar> \<le> 2 ^ 31 - 1" by simp
    with False show ?thesis by (auto simp: first_calibration_def d calibrate_from_def)
  qed
qed (use assms(2) in \<open>simp_all add: brief_def\<close>)

section \<open>Reports and matching\<close>

lemma leads_report:
  assumes "v \<in> sample_books rt" and "length ts \<le> 100"
  shows "leads lt (scene lt out (at_book c v) ts) (map always (report_actions tid)) (scene lt out (at_book c v) (ts @ report_texts))"
proof -
  let ?ls = "[[''Order Book State:''], [''  Best Bid: $100.75 (Qty: 50)'', ''  Best Ask: $100.25 (Qty: 75)''],
     [''  Spread: $-0.50''], [''Matching orders...'']]"
  have "leads lt (scene lt out (at_book c v) ts) (map always (report_actions tid)) (scene lt out (at_book c v) (ts @ concat ?ls))"
    using assms by (intro leads_says_all steady_book says_sample_book) simp_all
  then show ?thesis by (simp add: report_texts_def)
qed

lemma stable_ex: "(\<And>x. stable lt (P x)) \<Longrightarrow> stable lt (\<lambda>s. \<exists>x. P x s)"
  unfolding stable_def by meson

definition after_match :: "abs_book \<Rightarrow> program \<Rightarrow> bool" where
  "after_match v s \<longleftrightarrow> abs_of (engine s) = v"

lemma steady_after_match: "steady (after_match v)"
  by (auto simp: steady_def after_match_def only_logs_def quiet_view)

lemma leads_match:
  assumes "clocks_ok c" and "brief c" and fs: "fills v \<noteq> []" and few: "length ts + length (fills v) \<le> 100"
  shows "leads lt (scene lt out (at_book c v) ts) [match_and_report tid]
    (\<lambda>s. \<exists>us cycles. scene lt out (after_match (remainder v))
      (ts @ map fill_text (fills v) @ [executed_line (length (fills v)) us cycles, last_line (last (fills v))]) s)"
proof (rule leads_one)
  fix s
  assume s: "scene lt out (at_book c v) ts s"
  then have b: "program_ok s" "told lt out ts s" "abs_of (engine s) = v" "timed (first_calibration c) (tsc c) (tsc_reads c + 2) s"
    by (simp_all add: scene_def at_book_def)
  obtain ns where ns: "float_to_i64 (fmul (float_of_int (uint
      (tsc (the_clock s) (Suc (tsc_reads (the_clock s))) - tsc (the_clock s) (tsc_reads (the_clock s)))))
      (ns_per_cycle (calib s))) = Inr ns"
    using latency_in_range [OF assms(1,2)] b(4) by (auto simp: timed_def eval_nat_numeral)
  have cal: "calibrated (calib s)" using b(4) first_calibration_calibrated [OF assms(1)] by (simp add: timed_def)
  obtain s' us cycles where "match_and_report tid s = Some (Inr s')" "program_ok s'" "abs_of (engine s') = remainder v"
    "told lt out (ts @ map fill_text (fills v) @ [executed_line (length (fills v)) us cycles, last_line (last (fills v))]) s'"
    by (rule match_and_report_tells [OF b(1-3) fs _ cal ns]) (use few in simp)
  then show "\<exists>s'. match_and_report tid s = Some (Inr s') \<and> (\<exists>us cycles. scene lt out (after_match (remainder v))
      (ts @ map fill_text (fills v) @ [executed_line (length (fills v)) us cycles, last_line (last (fills v))]) s')"
    by (auto simp: scene_def after_match_def)
qed (intro stable_ex scene_stable steady_book steady_after_match)+

end
