(* ===== verification/Main_Log_File.thy ===== *)
theory Main_Log_File
  imports Main_Output
begin

text \<open>The log of \<open>main\<close> up to the queue demonstration: the lines after the matching, and all of them.\<close>

section \<open>The last lines\<close>

definition after_texts :: "string list" where
  "after_texts =
     [''Order Book State After Matching:'',
      ''  Best Bid: $100.50 (Qty: 75)'',
      ''  Best Ask: $0.00 (Qty: 0)'',
      newline @ ''Demonstrating SPSC Queue...'']"

lemma leads_last:
  assumes v: "v = ([sample_order 1 True 75 100500000 t], [])" and few: "length ts \<le> 100"
  shows "leads lt (scene lt out (after_match v) ts) (map always (after_actions tid))
    (scene lt out (after_match v) (ts @ after_texts))"
proof -
  let ?ls = "[[''Order Book State After Matching:''], [''  Best Bid: $100.50 (Qty: 75)'', ''  Best Ask: $0.00 (Qty: 0)''],
     [newline @ ''Demonstrating SPSC Queue...'']]"
  have "says (after_match v) (report_best tid) [best_line ''Bid'' (fst v), best_line ''Ask'' (snd v)]"
    by (rule says_report_best [OF steady_after_match]) (simp add: shows_book_def after_match_def)
  moreover have "best_line ''Bid'' (fst v) = ''  Best Bid: $100.50 (Qty: 75)''"
    "best_line ''Ask'' (snd v) = ''  Best Ask: $0.00 (Qty: 0)''"
    by (simp_all add: v best_line_def best_price_def)
  ultimately have "list_all2 (says (after_match v)) (after_actions tid) ?ls"
    unfolding after_actions_def by (simp add: says_LOG levels)
  then have "leads lt (scene lt out (after_match v) ts) (map always (after_actions tid))
      (scene lt out (after_match v) (ts @ concat ?ls))"
    by (intro leads_says_all steady_after_match) (use few in simp_all)
  then show ?thesis by (simp add: after_texts_def)
qed

section \<open>The log\<close>

definition match_texts :: "price \<Rightarrow> price \<Rightarrow> int \<Rightarrow> nat \<Rightarrow> string list" where
  "match_texts p2 p1 us cycles =
     [trade_text 50 p2 2 3, trade_text 25 p1 1 3, executed_line 2 us cycles, ''  Last trade: 25 @ $'' @ show_dollars p1]"

lemma main_leads:
  assumes "clocks_ok c" and "brief c" and "\<And>n. 0 < timespec_value (realtime c n)" and "3 \<le> N"
    and "opens ''market_engine.log''"
  shows "leads lt (\<lambda>s. s = main_start N b h c out)
    (main_statements N malloc opens optimized cpu_count tid)
    (\<lambda>s. \<exists>v us cycles p2 p1. p2 \<in> {i64_of 100750000, i64_of 100250000} \<and> p1 \<in> {i64_of 100500000, i64_of 100250000} \<and>
       scene lt (market_log out) (after_match v)
         (setup_texts optimized cpu_count @ placing_texts @ report_texts @ match_texts p2 p1 us cycles @ after_texts) s)"
proof -
  let ?rt = "realtime c" and ?out = "market_log out"
  let ?t1 = "setup_texts optimized cpu_count"
  let ?t2 = "?t1 @ placing_texts" and ?t3 = "(?t1 @ placing_texts) @ report_texts"
  let ?rest = after_texts
  have len: "length ?t1 \<le> 7" "length ?t2 \<le> 11" "length ?t3 \<le> 16"
    using length_setup_texts [of optimized cpu_count] by (simp_all add: placing_texts_def report_texts_def)
  define v where "v = (\<lambda>(n1, n2, n3).
     ([sample_order 2 True 50 100750000 (reading ?rt n2), sample_order 1 True 100 100500000 (reading ?rt n1)],
      [sample_order 3 False 75 100250000 (reading ?rt n3)]))"
  let ?goal = "\<lambda>ts s. \<exists>w us cycles p2 p1. p2 \<in> {i64_of 100750000, i64_of 100250000} \<and>
      p1 \<in> {i64_of 100500000, i64_of 100250000} \<and> scene lt ?out (after_match w) (?t3 @ match_texts p2 p1 us cycles @ ts) s"
  have book: "leads lt (scene lt ?out (at_book c (v n)) ?t2)
      (map always (report_actions tid) @ match_and_report tid # map always (after_actions tid))
      (?goal ?rest)" if n: "v n \<in> sample_books ?rt" for n
  proof -
    obtain n1 n2 n3 where nn: "n = (n1, n2, n3)" by (cases n) auto
    define p2 where "p2 = (if reading ?rt n2 < reading ?rt n3 then i64_of 100750000 else i64_of 100250000)"
    define p1 where "p1 = (if reading ?rt n1 < reading ?rt n3 then i64_of 100500000 else i64_of 100250000)"
    have p: "p2 \<in> {i64_of 100750000, i64_of 100250000}" "p1 \<in> {i64_of 100500000, i64_of 100250000}"
      by (simp_all add: p1_def p2_def)
    have f: "fills (v n) = [\<lparr>fill_bid = 2, fill_ask = 3, fill_qty = 50, fill_price = p2\<rparr>,
        \<lparr>fill_bid = 1, fill_ask = 3, fill_qty = 25, fill_price = p1\<rparr>]"
      unfolding v_def nn p1_def p2_def prod.case by (rule sample_match(2))
    let ?w = "([sample_order 1 True 75 100500000 (reading ?rt n1)], [])"
    have r: "remainder (v n) = ?w" unfolding v_def nn prod.case by (rule sample_match(1))
    have report: "leads lt (scene lt ?out (at_book c (v n)) ?t2) (map always (report_actions tid))
        (scene lt ?out (at_book c (v n)) ?t3)"
      using n by (rule leads_report) (use len in simp)
    have match: "leads lt (scene lt ?out (at_book c (v n)) ?t3) [match_and_report tid]
        (\<lambda>s. \<exists>us cycles. scene lt ?out (after_match ?w) (?t3 @ match_texts p2 p1 us cycles) s)"
    proof -
      have texts: "map fill_text (fills (v n)) @ [executed_line (length (fills (v n))) us cycles, last_line (last (fills (v n)))] =
          match_texts p2 p1 us cycles" for us cycles
        by (simp add: f fill_text_def last_line_def match_texts_def flip: numeral_2_eq_2)
      have "fills (v n) \<noteq> []" "length ?t3 + length (fills (v n)) \<le> 100" using len by (simp_all add: f)
      from leads_match [OF assms(1,2) this] show ?thesis by (simp only: r texts append.assoc)
    qed
    have rest': "leads lt (scene lt ?out (after_match ?w) (?t3 @ match_texts p2 p1 us cycles))
        (map always (after_actions tid))
        (scene lt ?out (after_match ?w) ((?t3 @ match_texts p2 p1 us cycles) @ ?rest))" for us cycles
      by (rule leads_last) (use len in \<open>simp_all add: match_texts_def\<close>)
    have "leads lt (\<lambda>s. \<exists>us cycles. scene lt ?out (after_match ?w) (?t3 @ match_texts p2 p1 us cycles) s)
        (map always (after_actions tid))
        (\<lambda>s. \<exists>us cycles. scene lt ?out (after_match ?w) ((?t3 @ match_texts p2 p1 us cycles) @ ?rest) s)"
      by (intro leads_ex rest')
    from leads_append [OF report leads_Cons [OF match this]] show ?thesis
      by (rule leads_weaken) (use p in \<open>simp_all only: append.assoc, blast\<close>)
  qed
  have "leads lt (\<lambda>s. \<exists>n. scene lt ?out (at_book c (v n)) ?t2 s \<and> v n \<in> sample_books ?rt)
      (map always (report_actions tid) @ match_and_report tid # map always (after_actions tid))
      (?goal ?rest)"
    using book by (rule leads_any)
  then have book': "leads lt (scene lt ?out (at_stage c N 3 (sample_books ?rt) {3, 2, 1}) ?t2)
      (map always (report_actions tid) @ match_and_report tid # map always (after_actions tid))
      (?goal ?rest)"
  proof (rule leads_weaken)
    fix s
    assume s: "scene lt ?out (at_stage c N 3 (sample_books ?rt) {3, 2, 1}) ?t2 s"
    then have "abs_of (engine s) \<in> sample_books ?rt" by (simp add: scene_def at_stage_def stage_def)
    moreover from this obtain n1 n2 n3 where "abs_of (engine s) = v (n1, n2, n3)" by (auto simp: sample_books_def v_def)
    ultimately show "\<exists>n. scene lt ?out (at_book c (v n)) ?t2 s \<and> v n \<in> sample_books ?rt"
      using s by (intro exI [of _ "(n1, n2, n3)"]) (simp add: scene_def at_stage_def at_book_def)
  qed
  have orders: "leads lt (scene lt ?out (at_stage c N 0 {([], [])} {}) ?t1) (map always (placing_actions N malloc tid))
      (scene lt ?out (at_stage c N 3 (sample_books ?rt) {3, 2, 1}) ?t2)"
    using assms(3,4) len(1) by (rule leads_sample_orders)
  have "leads lt (\<lambda>s. s = main_start N b h c out) (map always (setup_actions opens optimized cpu_count tid))
      (scene lt ?out (at_stage c N 0 {([], [])} {}) ?t1)"
    using assms(1,5) by (rule leads_setup)
  from leads_append [OF this leads_append [OF orders book']] show ?thesis
    by (simp only: main_statements_def order_actions_def map_append append.assoc)
qed

text \<open>C20: The log of \<open>main\<close> up to its queue demonstration. Let the log file open, the clocks be past 1970, the calibration
  take at most a second and the matching fewer than \<open>2 ^ 32\<close> cycles. Then \<open>main\<close> gets to the demonstration without a
  fault, whenever the logger's thread takes its turns, and what that thread has appended to the file by then,
  followed by what is still in the queue, are exactly the lines of the set-up, of the orders and the
  book, of the two trades and of the book after them, each once and in this order: no line is dropped. Every line is
  cut to 255 characters. The prices of the trades are those of one of the two orders.\<close>

theorem main_logs_its_report:
  assumes "clocks_ok c" and "brief c" and "\<And>n. 0 < timespec_value (realtime c n)" and "3 \<le> N"
    and "opens ''market_engine.log''" and "0 \<le> ival last_flush"
    and "statements_of es = main_statements N malloc opens optimized cpu_count tid"
  shows "\<exists>s last_flush' written us cycles p2 p1.
    run_schedule localtime es (main_start N b h c out, last_flush) = Some (Inr (s, last_flush')) \<and>
    files (sink (logger_of (engine s))) ''market_engine.log'' =
      files out ''market_engine.log'' @ lines localtime written \<and>
    map message (written @ pending (logger_of (engine s))) =
      map stored_text (setup_texts optimized cpu_count @ placing_texts @ report_texts @
        match_texts p2 p1 us cycles @ after_texts) \<and>
    p2 \<in> {i64_of 100750000, i64_of 100250000} \<and> p1 \<in> {i64_of 100500000, i64_of 100250000}"
proof -
  note leads = main_leads [where opens = opens and malloc = malloc and lt = localtime and cpu_count = cpu_count
      and optimized = optimized and tid = tid and b = b and h = h and out = out, OF assms(1-5)]
  from leads assms(7) refl assms(6)
  obtain s lf where run: "run_schedule localtime es (main_start N b h c out, last_flush) = Some (Inr (s, lf))"
    and told: "\<exists>v us cycles p2 p1. p2 \<in> {i64_of 100750000, i64_of 100250000} \<and>
       p1 \<in> {i64_of 100500000, i64_of 100250000} \<and>
       scene localtime (market_log out) (after_match v) (setup_texts optimized cpu_count @ placing_texts @ report_texts @
         match_texts p2 p1 us cycles @ after_texts) s"
    by (rule leadsE)
  from told obtain v us cycles p2 p1 where
    p: "p2 \<in> {i64_of 100750000, i64_of 100250000}" "p1 \<in> {i64_of 100500000, i64_of 100250000}" and
    sc: "scene localtime (market_log out) (after_match v) (setup_texts optimized cpu_count @ placing_texts @ report_texts @
      match_texts p2 p1 us cycles @ after_texts) s"
    by (elim exE conjE)
  from sc obtain written where w: "sink (logger_of (engine s)) = emit localtime written (market_log out)"
    "map message (written @ pending (logger_of (engine s))) =
      map stored_text (setup_texts optimized cpu_count @ placing_texts @ report_texts @
        match_texts p2 p1 us cycles @ after_texts)"
    by (auto simp only: scene_def told_def Let_def)
  have "files (sink (logger_of (engine s))) ''market_engine.log'' = files out ''market_engine.log'' @ lines localtime written"
    unfolding w(1) by (rule market_log_written)
  with run w(2) p show ?thesis by blast
qed

section \<open>An example\<close>

text \<open>A turn of the background thread after every statement.\<close>

lemma statements_and_turns: "statements_of (concat (map (\<lambda>f. [Statement f, Turn]) fs)) = fs"
  by (induction fs) simp_all

lemma brief_example: "brief example_clocks"
  by (simp add: brief_def example_clocks_def timespec_value_def in_i64_def)

theorem main_logs_its_report_witness:
  "\<exists>es s lf written us cycles p2 p1.
    statements_of es = main_statements 1024 next_address (\<lambda>_. True) True 8 1 \<and>
    run_schedule test_calendar es (main_start 1024 4096 (\<lambda>_. None) example_clocks example_output, 0) = Some (Inr (s, lf)) \<and>
    files (sink (logger_of (engine s))) ''market_engine.log'' = lines test_calendar written \<and>
    map message (written @ pending (logger_of (engine s))) = map stored_text (setup_texts True 8 @ placing_texts @
      report_texts @ match_texts p2 p1 us cycles @ after_texts)"
proof -
  let ?fs = "main_statements 1024 next_address (\<lambda>_. True) True 8 1"
  have pos: "0 < timespec_value (realtime example_clocks n)" for n
    by (simp add: timespec_value_def example_clocks_def)
  have "3 \<le> (1024 :: 64 word)" "0 \<le> ival 0" by simp_all
  from main_logs_its_report [where opens = "\<lambda>_. True", OF example_clocks_ok brief_example pos this(1) TrueI this(2)
      statements_and_turns]
  obtain s lf written us cycles p2 p1 where
    "run_schedule test_calendar (concat (map (\<lambda>f. [Statement f, Turn]) ?fs))
       (main_start 1024 4096 (\<lambda>_. None) example_clocks example_output, 0) = Some (Inr (s, lf))"
    "files (sink (logger_of (engine s))) ''market_engine.log'' = files example_output ''market_engine.log'' @ lines test_calendar written"
    "map message (written @ pending (logger_of (engine s))) = map stored_text (setup_texts True 8 @ placing_texts @
      report_texts @ match_texts p2 p1 us cycles @ after_texts)"
    by metis
  moreover have "files example_output ''market_engine.log'' = []" by (simp add: example_output_def)
  ultimately show ?thesis
    using statements_and_turns [of ?fs] by (intro exI conjI) (assumption | simp)+
qed

end
