(* ===== verification/Queue_Demo.thy ===== *)
theory Queue_Demo
  imports Progress SPSC_Access Price_Conversion
begin

text \<open>
  \<open>src/main.cpp\<close>, \<open>demonstrateSPSCQueue\<close>: a producer thread pushes ten orders into a queue of 1024 places and
  then raises a flag; a consumer thread pops until the flag is up and the queue is empty. Every access
  to shared memory is a step of its own, and the loads may return old values: of the queue's positions
  as in \<open>SPSC_Concurrent\<close>, of the flag \<open>false\<close> until the thread has seen \<open>true\<close>. An acquire load that
  returns \<open>true\<close> also makes the consumer see every position that was stored before the flag. Sleeping
  does not touch this state; \<open>demo_log\<close> collects the calls of the logger in their order, not what the logger makes of
  them, whose queue is not made for two threads that log. \<open>order_at i\<close> is the address of the order of round \<open>i\<close>.
\<close>

section \<open>The two threads\<close>

datatype producer_state = Round nat | Pushing nat nat | Producer_done

datatype consumer_state = Test_flag | Test_empty | Enter_body | In_pop nat | Consumer_done

text \<open>The lines that the threads log: of an order they know the address.\<close>

datatype demo_line = Pushed_order nat | Queue_full | Processed_order nat | Processed_total nat

record demo =
  order_queue :: "nat conc"
  producer :: producer_state
  consumer :: consumer_state
  flag :: "nat option"
  flag_seen :: bool
  processed :: nat
  demo_log :: "demo_line list"

definition demo_size :: "64 word" where
  "demo_size = 1024"

definition demo_new :: "(64 word \<Rightarrow> nat) \<Rightarrow> demo" where
  "demo_new b = \<lparr>order_queue = conc_new b, producer = Round 0, consumer = Test_flag, flag = None, flag_seen = False,
     processed = 0, demo_log = []\<rparr>"

text \<open>
  \<open>Pushing\<close> and \<open>In_pop\<close> remember how many items had been pushed and popped when the call began, which
  tells what it returns. \<open>flag\<close> remembers how many stores to the write position precede the store of \<open>true\<close>. The steps of \<open>push\<close>
  and \<open>pop\<close> after their begin are those of the queue.
\<close>

inductive demo_step :: "(nat \<Rightarrow> nat) \<Rightarrow> demo \<Rightarrow> demo \<Rightarrow> bool" for order_at :: "nat \<Rightarrow> nat" where
  push_call: "producer d = Round i \<Longrightarrow> i < 10 \<Longrightarrow> pushing (order_queue d) 0 = Push_idle \<Longrightarrow>
    demo_step order_at d (d\<lparr>producer := Pushing i (length (pushed (order_queue d))), order_queue := (order_queue d)\<lparr>pushing :=
      (pushing (order_queue d))(0 := Push_check (order_at i) (last (writes (order_queue d))))\<rparr>\<rparr>)"
| push_return: "producer d = Pushing i n \<Longrightarrow> pushing (order_queue d) 0 = Push_idle \<Longrightarrow>
    demo_step order_at d (d\<lparr>producer := Round (Suc i), demo_log := demo_log d @
      [if n < length (pushed (order_queue d)) then Pushed_order (order_at i) else Queue_full]\<rparr>)"
| raise_flag: "producer d = Round 10 \<Longrightarrow>
    demo_step order_at d (d\<lparr>producer := Producer_done, flag := Some (length (writes (order_queue d)) - 1)\<rparr>)"
| queue_step: "conc_step demo_size {} {} (order_queue d) q \<Longrightarrow>
    demo_step order_at d (d\<lparr>order_queue := q\<rparr>)"
| flag_down: "consumer d = Test_flag \<Longrightarrow> \<not> flag_seen d \<Longrightarrow>
    demo_step order_at d (d\<lparr>consumer := Enter_body\<rparr>)"
| flag_up: "consumer d = Test_flag \<Longrightarrow> flag d = Some n \<Longrightarrow>
    demo_step order_at d (d\<lparr>consumer := Test_empty, flag_seen := True, order_queue := (order_queue d)\<lparr>seen_writes :=
      (seen_writes (order_queue d))(0 := max n (seen_writes (order_queue d) 0))\<rparr>\<rparr>)"
| load_empty: "consumer d = Test_empty \<Longrightarrow> seen_writes (order_queue d) 0 \<le> k \<Longrightarrow> k < length (writes (order_queue d)) \<Longrightarrow>
    demo_step order_at d (d\<lparr>consumer := (if last (reads (order_queue d)) = writes (order_queue d) ! k
        then Consumer_done else Enter_body),
      demo_log := demo_log d @ (if last (reads (order_queue d)) = writes (order_queue d) ! k
        then [Processed_total (processed d)] else []),
      order_queue := (order_queue d)\<lparr>seen_writes := (seen_writes (order_queue d))(0 := k)\<rparr>\<rparr>)"
| pop_call: "consumer d = Enter_body \<Longrightarrow> popping (order_queue d) 0 = Pop_idle \<Longrightarrow>
    demo_step order_at d (d\<lparr>consumer := In_pop (length (popped (order_queue d))), order_queue := (order_queue d)\<lparr>popping :=
      (popping (order_queue d))(0 := Pop_check (last (reads (order_queue d))))\<rparr>\<rparr>)"
| pop_return: "consumer d = In_pop m \<Longrightarrow> popping (order_queue d) 0 = Pop_idle \<Longrightarrow>
    demo_step order_at d (d\<lparr>consumer := Test_flag,
      processed := (if m < length (popped (order_queue d)) then Suc (processed d) else processed d),
      demo_log := demo_log d @ (if m < length (popped (order_queue d)) then [Processed_order (popped (order_queue d) ! m)]
        else [])\<rparr>)"

inductive demo_reachable :: "(nat \<Rightarrow> nat) \<Rightarrow> (64 word \<Rightarrow> nat) \<Rightarrow> demo \<Rightarrow> bool"
  for order_at :: "nat \<Rightarrow> nat" and b :: "64 word \<Rightarrow> nat" where
  demo_initial: "demo_reachable order_at b (demo_new b)"
| demo_next: "demo_reachable order_at b d \<Longrightarrow> demo_step order_at d d' \<Longrightarrow> demo_reachable order_at b d'"

section \<open>The orders\<close>

definition demo_order :: "nat \<Rightarrow> timestamp \<Rightarrow> order res" where
  "demo_order i now =
     andThen (doubleToPrice (fadd 100 (fmul (float_of_int (int i)) (fround (1 / 10))))) (\<lambda>p.
       Inr (Order_new (100 + of_nat i) (even i) (10 + of_nat i) p now 0))"

text \<open>The three roundings in \<open>100.0 + i * 0.1\<close> do not reach the price: it is exact.\<close>

lemma demo_order_exact:
  assumes "i < 10"
  shows "demo_order i now =
    Inr (Order_new (100 + of_nat i) (even i) (10 + of_nat i) (i64_of (100000000 + 100000 * int i)) now 0)"
proof -
  let ?t = "fround (1 / 10)" and ?n = "of_nat i :: rat"
  let ?m = "fmul ?n ?t"
  let ?d = "fadd 100 ?m"
  have i: "0 \<le> ?n" "?n \<le> 9" using assms by simp_all
  have p: "(2 :: rat) powi (- 4 - 53) \<le> 1 / 1000000000" "(2 :: rat) powi (0 - 53) \<le> 1 / 1000000000"
    "(2 :: rat) powi (6 - 53) \<le> 1 / 1000000000"
    by (simp_all add: power_int_minus)
  have n: "float_of_int (int i) = ?n" using fround_int [of "int i"] assms by (simp add: float_of_int_def)
  have tb: "\<bar>?t - 1 / 10\<bar> \<le> 1 / 1000000000"
    using fround_error_bound [of "1 / 10" "- 4"] p(1) by (simp add: power_int_minus)
  then have t: "?t - 1 / 10 \<le> 1 / 1000000000" "1 / 10 - ?t \<le> 1 / 1000000000" unfolding abs_le_iff by linarith+
  have "\<bar>?n * (?t - 1 / 10)\<bar> \<le> 9 * (1 / 1000000000)"
    unfolding abs_mult using i tb by (intro mult_mono) simp_all
  then have nt: "?n * ?t - ?n / 10 \<le> 9 / 1000000000" "?n / 10 - ?n * ?t \<le> 9 / 1000000000"
    unfolding abs_le_iff by (simp_all add: algebra_simps)
  have "\<bar>?n * ?t\<bar> < 2 powi (0 + 1)" using nt i unfolding abs_less_iff by simp
  from order_trans [OF fround_error_bound [OF this] p(2)]
  have m: "?m - ?n * ?t \<le> 1 / 1000000000" "?n * ?t - ?m \<le> 1 / 1000000000"
    unfolding fmul_def abs_le_iff by simp_all
  have "\<bar>100 + ?m\<bar> < 2 powi (6 + 1)" using m nt i unfolding abs_less_iff by simp
  from order_trans [OF fround_error_bound [OF this] p(3)]
  have d: "?d - (100 + ?m) \<le> 1 / 1000000000" "100 + ?m - ?d \<le> 1 / 1000000000"
    unfolding fadd_def abs_le_iff by simp_all
  have "?d * 1000000 - (100000000 + 100000 * ?n) \<le> 1 / 8" "100000000 + 100000 * ?n - ?d * 1000000 \<le> 1 / 8"
    using d m nt by linarith+
  then have "\<bar>?d * 1000000 - of_int (100000000 + 100000 * int i)\<bar> \<le> 1 / 8" unfolding abs_le_iff by simp
  moreover have "\<bar>100000000 + 100000 * int i\<bar> < 2 ^ 50" using assms by simp
  ultimately show ?thesis using doubleToPrice_near [of ?d "100000000 + 100000 * int i"]
    by (simp add: demo_order_def n)
qed

section \<open>The invariant\<close>

text \<open>What the producer has pushed so far, by its place in the loop.\<close>

definition producer_inv :: "(nat \<Rightarrow> nat) \<Rightarrow> nat list \<Rightarrow> nat option \<Rightarrow> nat option \<Rightarrow> producer_state \<Rightarrow> bool" where
  "producer_inv order_at done_items pending raised p \<longleftrightarrow>
     (case p of
        Round i \<Rightarrow> i \<le> 10 \<and> done_items = map order_at [0..<i] \<and> pending = None \<and> raised = None
      | Pushing i n \<Rightarrow> n = i \<and> i < 10 \<and> raised = None \<and>
          (pending = None \<and> done_items = map order_at [0..<Suc i] \<or>
           pending = Some (order_at i) \<and> done_items = map order_at [0..<i])
      | Producer_done \<Rightarrow> done_items = map order_at [0..<10] \<and> pending = None \<and> raised = Some 10)"

definition consumer_inv :: "nat \<Rightarrow> bool \<Rightarrow> nat \<Rightarrow> consumer_state \<Rightarrow> bool" where
  "consumer_inv count in_pop n c \<longleftrightarrow>
     (case c of
        In_pop m \<Rightarrow> n = m \<and> (if in_pop then count = m else count = m \<or> count = Suc m)
      | Consumer_done \<Rightarrow> \<not> in_pop \<and> n = count \<and> count = 10
      | _ \<Rightarrow> \<not> in_pop \<and> n = count)"

definition demo_inv :: "(nat \<Rightarrow> nat) \<Rightarrow> demo \<Rightarrow> bool" where
  "demo_inv order_at d \<longleftrightarrow>
     (let q = order_queue d in
      conc_inv demo_size q \<and>
      producer_inv order_at (pushed q) (pending_item (pushing q 0)) (flag d) (producer d) \<and>
      consumer_inv (length (popped q)) (popping q 0 \<noteq> Pop_idle) (processed d) (consumer d) \<and>
      (flag_seen d \<longrightarrow> flag d = Some 10 \<and> seen_writes q 0 = 10) \<and>
      (consumer d = Test_empty \<longrightarrow> flag_seen d))"

lemma valid_demo_size: "valid_size demo_size"
  by (simp add: valid_size_def demo_size_def)

lemma demo_inv_new: "demo_inv order_at (demo_new b)"
  by (simp add: demo_inv_def demo_new_def conc_inv_new [OF valid_demo_size] producer_inv_def consumer_inv_def)
    (simp add: conc_new_def)

lemma pushed_bound: "producer_inv order_at xs pending raised p \<Longrightarrow> length xs \<le> 10"
  by (auto simp: producer_inv_def split: producer_state.splits)

text \<open>The queue of the demonstration never fills up.\<close>

lemma demo_push_access:
  assumes "conc_step demo_size {} {} q q'" and "conc_inv demo_size q" and "length (pushed q) \<le> 10"
  shows "pushed q' = pushed q \<and> pending_item (pushing q' 0) = pending_item (pushing q 0) \<or>
      pending_item (pushing q' 0) = None \<and> (\<exists>x. pending_item (pushing q 0) = Some x \<and> pushed q' = pushed q @ [x])"
  using push_access [OF valid_demo_size assms(1,2)] assms(3) by (auto simp: demo_size_def)

lemma demo_invD:
  assumes "demo_inv order_at d"
  shows "conc_inv demo_size (order_queue d)"
    and "producer_inv order_at (pushed (order_queue d)) (pending_item (pushing (order_queue d) 0)) (flag d) (producer d)"
    and "consumer_inv (length (popped (order_queue d))) (popping (order_queue d) 0 \<noteq> Pop_idle) (processed d) (consumer d)"
    and "flag_seen d \<Longrightarrow> flag d = Some 10 \<and> seen_writes (order_queue d) 0 = 10"
    and "consumer d = Test_empty \<Longrightarrow> flag_seen d"
    and "length (writes (order_queue d)) = Suc (length (pushed (order_queue d)))"
    and "seen_writes (order_queue d) 0 \<le> length (pushed (order_queue d))"
  using assms conc_invD(1,5) [of demo_size "order_queue d"] by (simp_all add: demo_inv_def Let_def)

lemma demo_inv_queue_step:
  assumes inv: "demo_inv order_at d" and step: "conc_step demo_size {} {} (order_queue d) q"
  shows "demo_inv order_at (d\<lparr>order_queue := q\<rparr>)"
proof -
  note D = demo_invD [OF inv]
  have few: "length (pushed (order_queue d)) \<le> 10" using D(2) by (rule pushed_bound)
  note acc = demo_push_access [OF step D(1) few] pop_access [OF step D(1)]
  have inv': "conc_inv demo_size q" using conc_step_mono [OF step] valid_demo_size D(1) by (rule conc_inv_step)
  have p: "producer_inv order_at (pushed q) (pending_item (pushing q 0)) (flag d) (producer d)"
    using D(2) acc(1) by (auto simp: producer_inv_def split: producer_state.splits)
  have c: "consumer_inv (length (popped q)) (popping q 0 \<noteq> Pop_idle) (processed d) (consumer d)"
    using D(3) acc(2) by (auto simp: consumer_inv_def split: consumer_state.splits if_splits)
  have "seen_writes q 0 = 10" if "flag_seen d"
    using D(4) [OF that] acc(3) conc_invD(5) [OF inv'] pushed_bound [OF p] by simp
  with inv' p c D(4,5) show ?thesis by (simp add: demo_inv_def)
qed

lemma demo_inv_step:
  assumes "demo_step order_at d d'" and inv: "demo_inv order_at d"
  shows "demo_inv order_at d'"
  using assms(1)
proof (cases rule: demo_step.cases)
  case (push_call i)
  have "conc_inv demo_size ((order_queue d)\<lparr>pushing :=
      (pushing (order_queue d))(0 := Push_check (order_at i) (last (writes (order_queue d))))\<rparr>)"
    using demo_invD(1) [OF inv] by (rule conc_inv_push_begin)
  then show ?thesis
    using demo_invD [OF inv] push_call by (auto simp: demo_inv_def producer_inv_def)
next
  case (push_return i n)
  then show ?thesis using demo_invD [OF inv] by (auto simp: demo_inv_def producer_inv_def)
next
  case raise_flag
  then show ?thesis using demo_invD [OF inv] by (auto simp: demo_inv_def producer_inv_def)
next
  case (queue_step q)
  then show ?thesis using demo_inv_queue_step [OF inv] by simp
next
  case flag_down
  then show ?thesis using demo_invD [OF inv] by (auto simp: demo_inv_def consumer_inv_def)
next
  case (flag_up n)
  have "producer d = Producer_done" "n = 10" "length (pushed (order_queue d)) = 10"
    using demo_invD(2) [OF inv] flag_up(3)
    by (auto simp: producer_inv_def split: producer_state.splits)
  moreover from this have "max n (seen_writes (order_queue d) 0) = 10" using demo_invD(7) [OF inv] by simp
  ultimately show ?thesis
    using demo_invD [OF inv] flag_up conc_inv_seen [OF demo_invD(1) [OF inv], of 10]
    by (auto simp: demo_inv_def consumer_inv_def producer_inv_def)
next
  case (load_empty k)
  have seen: "flag_seen d" "flag d = Some 10" "seen_writes (order_queue d) 0 = 10"
    using demo_invD(4,5) [OF inv] load_empty(2) by simp_all
  have pd: "length (pushed (order_queue d)) \<le> 10" using demo_invD(2) [OF inv] by (rule pushed_bound)
  then have k: "k = 10" "length (pushed (order_queue d)) = 10"
    using load_empty(3,4) seen(3) demo_invD(6,7) [OF inv] by simp_all
  note q = conc_invD [OF demo_invD(1) [OF inv]]
  have r: "length (popped (order_queue d)) \<le> 10" using q(4) seen(3) by simp
  have "last (reads (order_queue d)) = writes (order_queue d) ! k \<longleftrightarrow> length (popped (order_queue d)) = 10"
    using q(1,2) k r nth_history [of 10 10 demo_size]
      slot_eq_iff [OF valid_demo_size, of "length (popped (order_queue d))" 10]
    by (simp add: demo_size_def)
  moreover have "conc_inv demo_size ((order_queue d)\<lparr>seen_writes := (seen_writes (order_queue d))(0 := k)\<rparr>)"
    using demo_invD(1) [OF inv] by (rule conc_inv_seen) (use k seen in simp_all)
  ultimately show ?thesis
    using demo_invD(2,3) [OF inv] seen k load_empty(1,2) by (auto simp: demo_inv_def consumer_inv_def)
next
  case pop_call
  have "conc_inv demo_size ((order_queue d)\<lparr>popping :=
      (popping (order_queue d))(0 := Pop_check (last (reads (order_queue d))))\<rparr>)"
    using demo_invD(1) [OF inv] by (rule conc_inv_pop_begin)
  then show ?thesis
    using demo_invD [OF inv] pop_call by (auto simp: demo_inv_def consumer_inv_def)
next
  case (pop_return m)
  then show ?thesis
    using demo_invD [OF inv] by (auto simp: demo_inv_def consumer_inv_def split: if_splits)
qed

lemma demo_reachable_inv: "demo_reachable order_at b d \<Longrightarrow> demo_inv order_at d"
  by (induction rule: demo_reachable.induct) (auto intro: demo_inv_new demo_inv_step)

section \<open>What the threads log\<close>

fun by_producer :: "demo_line \<Rightarrow> bool" where
  "by_producer (Pushed_order p) = True"
| "by_producer Queue_full = True"
| "by_producer (Processed_order p) = False"
| "by_producer (Processed_total n) = False"

fun rounds_logged :: "producer_state \<Rightarrow> nat" where
  "rounds_logged (Round i) = i"
| "rounds_logged (Pushing i n) = i"
| "rounds_logged Producer_done = 10"

definition log_inv :: "(nat \<Rightarrow> nat) \<Rightarrow> demo \<Rightarrow> bool" where
  "log_inv order_at d \<longleftrightarrow>
     filter by_producer (demo_log d) = map (\<lambda>i. Pushed_order (order_at i)) [0..<rounds_logged (producer d)] \<and>
     filter (\<lambda>l. \<not> by_producer l) (demo_log d) =
       map Processed_order (take (processed d) (popped (order_queue d))) @
       (if consumer d = Consumer_done then [Processed_total (processed d)] else [])"

lemma processed_le: "consumer_inv count in_pop n c \<Longrightarrow> n \<le> count"
  by (auto simp: consumer_inv_def split: consumer_state.splits if_splits)

lemma log_inv_step:
  assumes "demo_step order_at d d'" and inv: "demo_inv order_at d" and log: "log_inv order_at d"
  shows "log_inv order_at d'"
  using assms(1)
proof (cases rule: demo_step.cases)
  case (push_return i n)
  then have "n < length (pushed (order_queue d))"
    using demo_invD(2) [OF inv] by (auto simp: producer_inv_def)
  with push_return log show ?thesis by (simp add: log_inv_def)
next
  case raise_flag
  then show ?thesis using log by (simp add: log_inv_def)
next
  case (queue_step q)
  have "processed d \<le> length (popped (order_queue d))" using demo_invD(3) [OF inv] by (rule processed_le)
  with popped_prefix [OF queue_step(2)] queue_step(1) log show ?thesis by (auto simp: log_inv_def)
next
  case (pop_return m)
  have "processed d = m" using demo_invD(3) [OF inv] pop_return(2) by (simp add: consumer_inv_def)
  with pop_return log show ?thesis by (simp add: log_inv_def take_Suc_conv_app_nth)
qed (use log in \<open>simp_all add: log_inv_def\<close>)

lemma demo_reachable_log: "demo_reachable order_at b d \<Longrightarrow> log_inv order_at d"
proof (induction rule: demo_reachable.induct)
  case demo_initial
  then show ?case by (simp add: log_inv_def demo_new_def)
next
  case (demo_next d d')
  then show ?case using log_inv_step demo_reachable_inv by blast
qed

text \<open>The log of a finished demonstration: some interleaving of what the two threads say.\<close>

definition demo_logs :: "(nat \<Rightarrow> nat) \<Rightarrow> demo_line list set" where
  "demo_logs order_at = shuffles (map (\<lambda>i. Pushed_order (order_at i)) [0..<10])
     (map (\<lambda>i. Processed_order (order_at i)) [0..<10] @ [Processed_total 10])"

lemma demo_finished:
  assumes "demo_reachable order_at b d" and "producer d = Producer_done" and "consumer d = Consumer_done"
  shows "demo_log d \<in> demo_logs order_at" and "writes (order_queue d) \<noteq> []"
    and "last (writes (order_queue d)) = last (reads (order_queue d))"
proof -
  note inv = demo_reachable_inv [OF assms(1)]
  note D = demo_invD [OF inv] and Q = conc_invD [OF demo_invD(1) [OF inv]]
  have n: "processed d = 10" "length (popped (order_queue d)) = 10"
    using D(3) assms(3) by (simp_all add: consumer_inv_def)
  have pd: "pushed (order_queue d) = map order_at [0..<10]" using D(2) assms(2) by (simp add: producer_inv_def)
  have "popped (order_queue d) = take 10 (map order_at [0..<10])" using Q(3) n(2) unfolding pd by simp
  then have pp: "popped (order_queue d) = map order_at [0..<10]" by (simp del: upt_rec_numeral)
  have "demo_log d \<in> shuffles (filter by_producer (demo_log d)) (filter (\<lambda>l. \<not> by_producer l) (demo_log d))"
    by (rule partition_in_shuffles)
  then show "demo_log d \<in> demo_logs order_at"
    using demo_reachable_log [OF assms(1)] assms(2,3) n(1)
    by (simp add: log_inv_def demo_logs_def pp comp_def del: upt_rec_numeral)
  show "writes (order_queue d) \<noteq> []" using D(6) by auto
  show "last (writes (order_queue d)) = last (reads (order_queue d))" using Q(1,2) pd pp by simp
qed

section \<open>The producer alone\<close>

lemma demo_next_eq: "demo_reachable order_at b d \<Longrightarrow> demo_step order_at d d' \<Longrightarrow> d' = d'' \<Longrightarrow> demo_reachable order_at b d''"
  using demo_next by blast

definition only_produced :: "nat \<Rightarrow> demo \<Rightarrow> bool" where
  "only_produced i d \<longleftrightarrow> producer d = Round i \<and> consumer d = Test_flag \<and> popped (order_queue d) = []"

lemma produce_one:
  assumes "demo_reachable order_at b d" and "only_produced i d" and "i < 10"
  shows "\<exists>d'. demo_reachable order_at b d' \<and> only_produced (Suc i) d'"
proof -
  note inv = demo_reachable_inv [OF assms(1)]
  let ?q = "order_queue d"
  let ?w = "last (writes ?q)" and ?k = "seen_reads ?q 0"
  have pd: "producer d = Round i" "consumer d = Test_flag" "popped ?q = []" using assms(2) by (simp_all add: only_produced_def)
  have idle: "pushing ?q 0 = Push_idle"
    using demo_invD(2) [OF inv] pd(1) by (cases "pushing ?q 0") (simp_all add: producer_inv_def)
  let ?d1 = "d\<lparr>producer := Pushing i (length (pushed ?q)), order_queue := ?q\<lparr>pushing := (pushing ?q)(0 := Push_check (order_at i) ?w)\<rparr>\<rparr>"
  have r1: "demo_reachable order_at b ?d1"
    using assms(1) demo_step.push_call [OF pd(1) assms(3) idle] by (rule demo_next)
  note inv1 = demo_reachable_inv [OF r1]
  have k: "?k < length (reads ?q)" using conc_invD(2,6) [OF demo_invD(1) [OF inv]] pd(3) by simp
  have few: "length (pushed (order_queue ?d1)) \<le> 10" using demo_invD(2) [OF inv1] by (rule pushed_bound)
  have room: "next_pos demo_size ?w \<noteq> reads ?q ! ?k"
    using queue_not_full [OF valid_demo_size demo_invD(1) [OF inv1], of 0 "order_at i" ?w ?k] few k
    by (simp add: demo_size_def)
  let ?q1 = "order_queue ?d1"
  let ?q2 = "?q1\<lparr>pushing := (pushing ?q1)(0 := Push_write (order_at i) ?w), seen_reads := (seen_reads ?q1)(0 := ?k)\<rparr>"
  let ?q3 = "?q2\<lparr>cells := (cells ?q2)(?w := order_at i), pushing := (pushing ?q2)(0 := Push_store (order_at i) ?w)\<rparr>"
  let ?q4 = "?q3\<lparr>writes := writes ?q3 @ [next_pos demo_size ?w], pushing := (pushing ?q3)(0 := Push_idle),
      pushed := pushed ?q3 @ [order_at i]\<rparr>"
  have "conc_step demo_size {} {} ?q1 ?q2"
    by (rule conc_step.push_room [where t = 0 and item = "order_at i" and cw = ?w and k = ?k]) (use k room in simp_all)
  from demo_step.queue_step [OF this] r1 have r2: "demo_reachable order_at b (?d1\<lparr>order_queue := ?q2\<rparr>)"
    by (blast intro: demo_next)
  have "conc_step demo_size {} {} ?q2 ?q3"
    by (rule conc_step.push_write [where t = 0 and item = "order_at i" and cw = ?w]) simp
  then have r3: "demo_reachable order_at b (?d1\<lparr>order_queue := ?q3\<rparr>)"
    by (intro demo_next_eq [OF r2 demo_step.queue_step [where q = ?q3]]) simp_all
  have "conc_step demo_size {} {} ?q3 ?q4"
    by (rule conc_step.push_store [where t = 0 and item = "order_at i" and cw = ?w]) simp
  then have r4: "demo_reachable order_at b (?d1\<lparr>order_queue := ?q4\<rparr>)"
    by (intro demo_next_eq [OF r3 demo_step.queue_step [where q = ?q4]]) simp_all
  have "demo_reachable order_at b (?d1\<lparr>order_queue := ?q4, producer := Round (Suc i),
      demo_log := demo_log d @ [Pushed_order (order_at i)]\<rparr>)"
    by (intro demo_next_eq [OF r4 demo_step.push_return [where i = i]]) auto
  then show ?thesis using pd(2,3) by (intro exI conjI) (assumption, simp add: only_produced_def)
qed

lemma produce_all: "i \<le> 10 \<Longrightarrow> \<exists>d. demo_reachable order_at b d \<and> only_produced i d"
proof (induction i)
  case 0
  then show ?case
    using demo_initial by (intro exI [of _ "demo_new b"]) (simp add: only_produced_def demo_new_def conc_new_def)
next
  case (Suc i)
  then show ?case using produce_one [of order_at b _ i] by auto
qed

lemma orders_left:
  "\<exists>d. demo_reachable order_at b d \<and> producer d = Producer_done \<and> consumer d = Test_flag \<and>
     popped (order_queue d) = [] \<and> pushed (order_queue d) = map order_at [0..<10]"
proof -
  obtain d where d: "demo_reachable order_at b d" "only_produced 10 d" using produce_all [of 10] by blast
  have pd: "producer d = Round 10" using d(2) by (simp add: only_produced_def)
  let ?d = "d\<lparr>producer := Producer_done, flag := Some (length (writes (order_queue d)) - 1)\<rparr>"
  have r: "demo_reachable order_at b ?d" using d(1) demo_step.raise_flag [OF pd] by (rule demo_next)
  moreover have "pushed (order_queue d) = map order_at [0..<10]"
    using demo_invD(2) [OF demo_reachable_inv [OF d(1)]] pd by (simp add: producer_inv_def)
  ultimately show ?thesis using d(2) by (intro exI [of _ ?d]) (simp add: only_produced_def)
qed

text \<open>The producer's thread can end, and with it the pool that its orders live in, before the consumer has read a
  single one of them: the pool is \<open>thread_local\<close>.\<close>

theorem orders_outlive_their_pool:
  "\<exists>d. demo_reachable order_at b d \<and> producer d = Producer_done \<and> consumer d = Test_flag \<and>
     popped (order_queue d) = [] \<and> pushed (order_queue d) = map order_at [0..<10]"
  by (rule orders_left)

section \<open>The demonstration can always end\<close>

text \<open>How far the threads are from their ends when every load returns the newest value.\<close>

fun producer_rank :: "nat push_state \<Rightarrow> producer_state \<Rightarrow> nat" where
  "producer_rank p (Round i) = 8 * (10 - i) + 1"
| "producer_rank p (Pushing i n) = 8 * (9 - i) + 3 + push_rank p"
| "producer_rank p Producer_done = 0"

fun consumer_rank :: "bool \<Rightarrow> nat pop_state \<Rightarrow> consumer_state \<Rightarrow> nat" where
  "consumer_rank items p (In_pop m) = pop_rank items p"
| "consumer_rank items p Test_flag = (if items then 12 else 5)"
| "consumer_rank items p Test_empty = (if items then 11 else 4)"
| "consumer_rank items p Enter_body = 10"
| "consumer_rank items p Consumer_done = 0"

definition demo_rank :: "demo \<Rightarrow> nat" where
  "demo_rank d =
     (let q = order_queue d in
      40 * producer_rank (pushing q 0) (producer d) + 12 * items_left q +
      consumer_rank (0 < items_left q) (popping q 0) (consumer d))"

lemma consumer_rank_le: "consumer_rank items p c \<le> 13"
  by (cases c; cases p) simp_all

lemma producer_moves:
  assumes "demo_step order_at d d'"
    and "producer_rank (pushing (order_queue d') 0) (producer d') < producer_rank (pushing (order_queue d) 0) (producer d)"
    and "items_left (order_queue d') \<le> Suc (items_left (order_queue d))"
  shows "\<exists>d'. demo_step order_at d d' \<and> demo_rank d' < demo_rank d"
proof -
  have "demo_rank d' < demo_rank d"
    unfolding demo_rank_def Let_def by (rule weighted_less [OF assms(2,3) consumer_rank_le])
  with assms(1) show ?thesis by blast
qed

lemma consumer_moves:
  "demo_step order_at d d' \<Longrightarrow> demo_rank d' < demo_rank d \<Longrightarrow> \<exists>d'. demo_step order_at d d' \<and> demo_rank d' < demo_rank d"
  by blast

lemma producer_progress:
  assumes inv: "demo_inv order_at d" and "producer d \<noteq> Producer_done"
  shows "\<exists>d'. demo_step order_at d d' \<and> demo_rank d' < demo_rank d"
proof (cases "producer d")
  case (Round i)
  note D = demo_invD [OF inv]
  have i: "i \<le> 10" "pushing (order_queue d) 0 = Push_idle"
    using D(2) Round by (cases "pushing (order_queue d) 0"; simp add: producer_inv_def)+
  show ?thesis
  proof (cases "i < 10")
    case True
    from push_call [OF Round this i(2)] show ?thesis
      by (rule producer_moves) (use Round True in \<open>simp_all add: items_left_def\<close>)
  next
    case False
    then have "producer d = Round 10" using Round i(1) by simp
    from raise_flag [OF this] show ?thesis by (rule producer_moves) (use Round in simp_all)
  qed
next
  case (Pushing i n)
  note D = demo_invD [OF inv]
  have i: "i < 10" using D(2) Pushing by (simp add: producer_inv_def)
  show ?thesis
  proof (cases "pushing (order_queue d) 0 = Push_idle")
    case True
    from push_return [OF Pushing this] show ?thesis by (rule producer_moves) (use Pushing i in simp_all)
  next
    case False
    from push_progress [OF D(1) this] obtain q where
      q: "conc_step demo_size {} {} (order_queue d) q" "push_rank (pushing q 0) < push_rank (pushing (order_queue d) 0)"
        "items_left q \<le> Suc (items_left (order_queue d))" .
    from queue_step [OF q(1)] show ?thesis by (rule producer_moves) (use Pushing q in simp_all)
  qed
qed (use assms(2) in simp)

lemma consumer_progress:
  assumes inv: "demo_inv order_at d" and pd: "producer d = Producer_done" and "consumer d \<noteq> Consumer_done"
  shows "\<exists>d'. demo_step order_at d d' \<and> demo_rank d' < demo_rank d"
proof -
  note D = demo_invD [OF inv]
  let ?q = "order_queue d"
  note new = newest_position [OF valid_demo_size D(1)] and rank = demo_rank_def items_left_def Let_def
  have up: "flag d = Some 10" using D(2) pd by (simp add: producer_inv_def)
  show ?thesis
  proof (cases "consumer d")
    case Test_flag
    from flag_up [OF this up] show ?thesis by (rule consumer_moves) (simp add: rank Test_flag)
  next
    case Test_empty
    from load_empty [OF this new(1,2)] show ?thesis
      by (rule consumer_moves) (use Test_empty new(3) in \<open>simp add: rank\<close>)
  next
    case Enter_body
    then have "popping ?q 0 = Pop_idle" using D(3) by (simp add: consumer_inv_def)
    from demo_step.pop_call [OF Enter_body this] show ?thesis by (rule consumer_moves) (simp add: rank Enter_body)
  next
    case (In_pop m)
    show ?thesis
    proof (cases "popping ?q 0 = Pop_idle")
      case True
      from demo_step.pop_return [OF In_pop this] show ?thesis by (rule consumer_moves) (simp add: rank In_pop True)
    next
      case False
      from pop_progress [OF valid_demo_size D(1) this] obtain q where
        q: "conc_step demo_size {} {} ?q q" "pushing q = pushing ?q" "drain_rank q < drain_rank ?q" .
      from queue_step [OF q(1)] show ?thesis
        by (rule consumer_moves) (use q(2,3) In_pop in \<open>simp add: demo_rank_def drain_rank_def Let_def\<close>)
    qed
  qed (use assms(3) in simp)
qed

interpretation demo_end: progress "demo_step order_at" "demo_inv order_at"
  "\<lambda>d. producer d = Producer_done \<and> consumer d = Consumer_done" demo_rank for order_at
  by unfold_locales (use demo_inv_step producer_progress consumer_progress in blast)+

lemma demo_reachable_steps: "(demo_step order_at)\<^sup>*\<^sup>* d d' \<Longrightarrow> demo_reachable order_at b d \<Longrightarrow> demo_reachable order_at b d'"
  by (induction rule: rtranclp_induct) (auto intro: demo_next)

text \<open>From every state that the two threads can reach they can end.\<close>

lemma demo_can_end:
  assumes "demo_reachable order_at b d"
  shows "\<exists>d'. (demo_step order_at)\<^sup>*\<^sup>* d d' \<and> demo_reachable order_at b d' \<and>
    producer d' = Producer_done \<and> consumer d' = Consumer_done"
  using demo_end.can_finish [OF demo_reachable_inv [OF assms]] demo_reachable_steps [OF _ assms] by blast

lemma demo_can_finish:
  obtains d where "demo_reachable order_at b d" and "producer d = Producer_done" and "consumer d = Consumer_done"
  using demo_can_end [OF demo_initial] by blast

text \<open>C29: In every interleaving of the demonstration's two threads, with loads as stale as C++ permits, the consumer
  gets the ten orders in the order of their creation, each at most once, and no push finds the queue
  full. When the consumer's loop ends it has processed all ten, and the queue is empty. From every such state
  both threads can still end.\<close>

theorem demo_processes_all_orders:
  assumes "demo_reachable order_at b d"
  shows "popped (order_queue d) = map order_at [0..<length (popped (order_queue d))] \<and>
    length (popped (order_queue d)) \<le> 10 \<and>
    (consumer d = Consumer_done \<longrightarrow>
       processed d = 10 \<and> popped (order_queue d) = map order_at [0..<10] \<and>
       pushed (order_queue d) = popped (order_queue d) \<and> last (writes (order_queue d)) = last (reads (order_queue d))) \<and>
    (\<exists>d'. (demo_step order_at)\<^sup>*\<^sup>* d d' \<and> producer d' = Producer_done \<and> consumer d' = Consumer_done)"
proof -
  have inv: "demo_inv order_at d" using assms by (rule demo_reachable_inv)
  let ?q = "order_queue d"
  note D = demo_invD [OF inv] and Q = conc_invD [OF demo_invD(1) [OF inv]]
  have "\<exists>n \<le> 10. pushed ?q = map order_at [0..<n]"
    using D(2) unfolding producer_inv_def by (cases "producer d") (auto intro: less_imp_le Suc_leI simp del: upt_Suc)
  then obtain n where n: "n \<le> 10" "pushed ?q = map order_at [0..<n]" by blast
  have le: "length (popped ?q) \<le> n" using Q(4,5) n(2) by simp
  have pre: "popped ?q = map order_at [0..<length (popped ?q)]"
  proof -
    have "popped ?q = take (length (popped ?q)) (map order_at [0..<n])" using Q(3) unfolding n(2) .
    also have "\<dots> = map order_at [0..<length (popped ?q)]" using le by (simp add: take_map)
    finally show ?thesis .
  qed
  have fin: "processed d = 10 \<and> length (popped ?q) = 10" if "consumer d = Consumer_done"
    using D(3) that by (simp add: consumer_inv_def)
  show ?thesis
  proof (intro conjI impI)
    assume "consumer d = Consumer_done"
    from fin [OF this] show "processed d = 10" "popped ?q = map order_at [0..<10]" using pre by simp_all
    moreover from this have "n = 10" using le n(1) by simp
    ultimately show same: "pushed ?q = popped ?q" using n(2) by simp
    then show "last (writes ?q) = last (reads ?q)" using Q(1,2) by simp
  qed (use pre le n(1) demo_can_end [OF assms] in auto)
qed

theorem demo_processes_all_orders_witness:
  "\<exists>d. demo_reachable (\<lambda>i. 4096 + 32 * i) (\<lambda>_. 0) d \<and> consumer d = Consumer_done \<and>
     popped (order_queue d) = map (\<lambda>i. 4096 + 32 * i) [0..<10]"
proof -
  obtain d where "demo_reachable (\<lambda>i. 4096 + 32 * i) (\<lambda>_. 0) d" "consumer d = Consumer_done"
    by (rule demo_can_finish)
  with demo_processes_all_orders [OF this(1)] show ?thesis by blast
qed

end
