(* ===== verification/Kernel.thy ===== *)
theory Kernel
  imports Prelude
begin

text \<open>
  The operating system as the servers and the optimisations see it. A program's system calls, and the calls
  of the handler that a server was given, are recorded in a trace together with the answers. The
  system itself is a parameter: any function that answers a call from the trace so far. What a proof
  needs of it (an accept queue, socket buffers) is stated as a hypothesis about that function.
\<close>

section \<open>Calls and answers\<close>

type_synonym fd = int
type_synonym bytes = string

datatype sock_type = Stream_nonblock | Datagram

datatype sock_option =
    Reuse_addr | Reuse_port | Tcp_nodelay | Busy_poll | Receive_buffer

text \<open>A set of processors, as \<open>cpu_set_t\<close> holds it, has the numbers below 1024.\<close>

datatype sys_call =
    Epoll_create
  | Socket sock_type
  | Get_flags fd
  | Set_nonblock fd int
  | Set_option fd sock_option int
  | Bind fd "16 word"
  | Join_group fd string string
  | Listen fd
  | Epoll_add fd fd bool
  | Epoll_del fd fd
  | Epoll_wait fd nat int
  | Accept fd
  | Read fd nat
  | Recvfrom fd nat
  | Recv fd nat
  | Sendto fd bytes string
  | Poll fd
  | Pause
  | Usleep nat
  | Close fd
  | Mlockall
  | Sched_setaffinity "nat set"
  | Pthread_setaffinity nat "nat set"
  | Sched_fifo int
  | Numa_available
  | Numa_node_of_cpu int
  | Numa_node_to_cpus int
  | Numa_possible_cpus
  | Numa_alloc nat int
  | Malloc nat
  | Set_mempolicy int
  | Open_file string
  | Sysconf_cpus
  | Handle_client fd bytes
  | Handle_datagram bytes string
  | Handle_packet bytes

text \<open>
  One answer serves all calls: the value returned, \<open>errno\<close>, the bytes delivered (with the sender's
  address), and the descriptors that are ready or the members of a processor mask.
\<close>

record answer =
  ret :: int
  errno :: int
  payload :: bytes
  sender :: string
  ready :: "int list"

type_synonym trace = "(sys_call \<times> answer) list"
type_synonym kernel = "trace \<Rightarrow> sys_call \<Rightarrow> answer"

definition EAGAIN :: int where "EAGAIN = 11"
definition EWOULDBLOCK :: int where "EWOULDBLOCK = 11"
definition EINTR :: int where "EINTR = 4"

definition would_block :: "answer \<Rightarrow> bool" where
  "would_block r \<longleftrightarrow> errno r = EAGAIN \<or> errno r = EWOULDBLOCK"

definition call :: "kernel \<Rightarrow> sys_call \<Rightarrow> trace \<Rightarrow> answer \<times> trace" where
  "call os c tr = (let r = os tr c in (r, tr @ [(c, r)]))"

text \<open>A call whose answer the program ignores.\<close>

definition invoke :: "kernel \<Rightarrow> sys_call \<Rightarrow> trace \<Rightarrow> trace" where
  "invoke os c tr = snd (call os c tr)"

primrec invoke_all :: "kernel \<Rightarrow> sys_call list \<Rightarrow> trace \<Rightarrow> trace" where
  "invoke_all os [] tr = tr"
| "invoke_all os (c # cs) tr = invoke_all os cs (invoke os c tr)"

section \<open>Traces\<close>

text \<open>\<open>tr'\<close> is a run of the program from \<open>tr\<close> on under this system.\<close>

inductive extends :: "kernel \<Rightarrow> trace \<Rightarrow> trace \<Rightarrow> bool" for os :: kernel where
  extends_refl: "extends os tr tr"
| extends_call: "extends os tr tr' \<Longrightarrow> extends os tr (tr' @ [(c, os tr' c)])"

inductive_cases extendsE: "extends os tr tr'"

declare extends_refl [simp, intro]

lemma extends_trans:
  assumes "extends os tr tr'" and "extends os tr' tr''"
  shows "extends os tr tr''"
  using assms(2,1) by (induction rule: extends.induct) (auto intro: extends_call)

lemma extends_invoke [intro]: "extends os tr tr' \<Longrightarrow> extends os tr (invoke os c tr')"
  by (simp add: invoke_def call_def Let_def extends_call)

lemma invoke_eq: "invoke os c tr = tr @ [(c, os tr c)]"
  by (simp add: invoke_def call_def Let_def)

lemma call_eq: "call os c tr = (os tr c, tr @ [(c, os tr c)])"
  by (simp add: call_def Let_def)

text \<open>The calls of a trace that satisfy a condition, mapped by what matters of them.\<close>

definition events :: "((sys_call \<times> answer) \<Rightarrow> 'a option) \<Rightarrow> trace \<Rightarrow> 'a list" where
  "events f tr = List.map_filter f tr"

lemma events_Nil [simp]: "events f [] = []"
  by (simp add: events_def List.map_filter_def)

lemma events_append [simp]: "events f (tr @ tr') = events f tr @ events f tr'"
  by (simp add: events_def List.map_filter_def)

lemma events_Cons [simp]: "events f (e # tr) = (case f e of None \<Rightarrow> events f tr | Some x \<Rightarrow> x # events f tr)"
  by (simp add: events_def List.map_filter_def split: option.split)

end
