(* ===== verification/Epoll_Server.thy ===== *)
theory Epoll_Server
  imports Kernel
begin

text \<open>
  \<open>include/networking/EpollServer.hpp\<close>: the edge-triggered TCP server. Its state is the pair of descriptors;
  everything else it does is a sequence of system calls and calls of the message handler.
\<close>

section \<open>The server and its set-up\<close>

record epoll_server =
  port :: "16 word"
  epoll_fd :: fd
  listen_fd :: fd

definition EpollServer_new :: "16 word \<Rightarrow> epoll_server" where
  "EpollServer_new p = \<lparr>port = p, epoll_fd = - 1, listen_fd = - 1\<rparr>"

definition close_if_open :: "kernel \<Rightarrow> fd \<Rightarrow> trace \<Rightarrow> trace" where
  "close_if_open os f tr = (if 0 \<le> f then invoke os (Close f) tr else tr)"

definition EpollServer_destroy :: "kernel \<Rightarrow> epoll_server \<Rightarrow> trace \<Rightarrow> trace" where
  "EpollServer_destroy os s tr = close_if_open os (listen_fd s) (close_if_open os (epoll_fd s) tr)"

text \<open>Binding and listening: the part of \<open>start\<close> that has both descriptors.\<close>

definition epoll_listen :: "kernel \<Rightarrow> epoll_server \<Rightarrow> trace \<Rightarrow> bool \<times> trace" where
  "epoll_listen os s tr =
     (let tr1 = invoke_all os [Set_option (listen_fd s) Reuse_addr 1, Set_option (listen_fd s) Reuse_port 1,
                  Set_option (listen_fd s) Tcp_nodelay 1] tr;
          (r2, tr2) = call os (Bind (listen_fd s) (port s)) tr1
      in if ret r2 < 0 then (False, tr2)
         else let (r3, tr3) = call os (Listen (listen_fd s)) tr2
              in if ret r3 < 0 then (False, tr3)
                 else (True, invoke os (Epoll_add (epoll_fd s) (listen_fd s) False) tr3))"

definition epoll_start :: "kernel \<Rightarrow> epoll_server \<Rightarrow> trace \<Rightarrow> bool \<times> epoll_server \<times> trace" where
  "epoll_start os s tr =
     (let (r1, tr1) = call os Epoll_create tr; s1 = s\<lparr>epoll_fd := ret r1\<rparr>
      in if ret r1 < 0 then (False, s1, tr1)
         else let (r2, tr2) = call os (Socket Stream_nonblock) tr1; s2 = s1\<lparr>listen_fd := ret r2\<rparr>
              in if ret r2 < 0 then (False, s2, tr2)
                 else let (ok, tr3) = epoll_listen os s2 tr2 in (ok, s2, tr3))"

section \<open>Connections and data\<close>

text \<open>
  The accept loop ends only at an answer that says that there is nothing more to accept; it has no
  value when that answer never comes.
\<close>

partial_function (option) handleNewConnection :: "kernel \<Rightarrow> epoll_server \<Rightarrow> trace \<Rightarrow> trace option" where
  "handleNewConnection os s tr =
     (let (r, tr1) = call os (Accept (listen_fd s)) tr
      in if ret r < 0
         then if would_block r then Some tr1 else handleNewConnection os s tr1
         else handleNewConnection os s
                (invoke_all os [Set_option (ret r) Tcp_nodelay 1, Epoll_add (epoll_fd s) (ret r) True] tr1))"

definition BUFFER_SIZE :: nat where
  "BUFFER_SIZE = 4096"

text \<open>The terminating zero goes to \<open>buffer[n]\<close>.\<close>

definition handleClientData :: "kernel \<Rightarrow> epoll_server \<Rightarrow> fd \<Rightarrow> trace \<Rightarrow> trace res" where
  "handleClientData os s f tr =
     (let (r, tr1) = call os (Read f (BUFFER_SIZE - 1)) tr
      in if ret r \<le> 0
         then if ret r = 0 \<or> \<not> would_block r
              then Inr (invoke_all os [Epoll_del (epoll_fd s) f, Close f] tr1)
              else Inr tr1
         else if int BUFFER_SIZE \<le> ret r then Inl OutOfRange
         else Inr (invoke os (Handle_client f (take (nat (ret r)) (payload r))) tr1))"

section \<open>The event loops\<close>

definition handle_event :: "kernel \<Rightarrow> epoll_server \<Rightarrow> fd \<Rightarrow> trace \<Rightarrow> trace res option" where
  "handle_event os s f tr =
     (if f = listen_fd s then map_option Inr (handleNewConnection os s tr) else Some (handleClientData os s f tr))"

primrec handle_events :: "kernel \<Rightarrow> epoll_server \<Rightarrow> fd list \<Rightarrow> trace \<Rightarrow> trace res option" where
  "handle_events os s [] tr = Some (Inr tr)"
| "handle_events os s (f # fs) tr =
     (case handle_event os s f tr of
        None \<Rightarrow> None
      | Some (Inl e) \<Rightarrow> Some (Inl e)
      | Some (Inr tr1) \<Rightarrow> handle_events os s fs tr1)"

definition MAX_EVENTS :: nat where
  "MAX_EVENTS = 64"

definition ready_fds :: "answer \<Rightarrow> fd list" where
  "ready_fds r = take (nat (ret r)) (ready r)"

definition processEvents :: "kernel \<Rightarrow> epoll_server \<Rightarrow> int \<Rightarrow> trace \<Rightarrow> trace res option" where
  "processEvents os s timeout tr =
     (let (r, tr1) = call os (Epoll_wait (epoll_fd s) MAX_EVENTS timeout) tr
      in if ret r < 0 then Some (Inr tr1) else handle_events os s (ready_fds r) tr1)"

text \<open>\<open>run\<close> returns when waiting fails for another reason than a signal.\<close>

partial_function (option) epoll_run :: "kernel \<Rightarrow> epoll_server \<Rightarrow> trace \<Rightarrow> trace res option" where
  "epoll_run os s tr =
     (let (r, tr1) = call os (Epoll_wait (epoll_fd s) MAX_EVENTS (- 1)) tr
      in if ret r < 0
         then if errno r = EINTR then epoll_run os s tr1 else Some (Inr tr1)
         else case handle_events os s (ready_fds r) tr1 of
                None \<Rightarrow> None
              | Some (Inl e) \<Rightarrow> Some (Inl e)
              | Some (Inr tr2) \<Rightarrow> epoll_run os s tr2)"

end
