(* ===== verification/Epoll_Theorems.thy ===== *)
theory Epoll_Theorems
  imports Epoll_Server
begin

text \<open>What the epoll server guarantees, and where it relies on the system.\<close>

lemma invoke_all_append: "invoke_all os (cs @ cs') tr = invoke_all os cs' (invoke_all os cs tr)"
  by (induction cs arbitrary: tr) simp_all

section \<open>Descriptors of the server\<close>

definition opened_fd :: "sys_call \<times> answer \<Rightarrow> fd option" where
  "opened_fd e =
     (case e of
        (Epoll_create, r) \<Rightarrow> if 0 \<le> ret r then Some (ret r) else None
      | (Socket _, r) \<Rightarrow> if 0 \<le> ret r then Some (ret r) else None
      | _ \<Rightarrow> None)"

definition closed_fd :: "sys_call \<times> answer \<Rightarrow> fd option" where
  "closed_fd e = (case e of (Close f, _) \<Rightarrow> Some f | _ \<Rightarrow> None)"

definition fatal :: "sys_call \<times> answer \<Rightarrow> bool" where
  "fatal e = (case e of
      (Epoll_create, r) \<Rightarrow> ret r < 0
    | (Socket _, r) \<Rightarrow> ret r < 0
    | (Bind _ _, r) \<Rightarrow> ret r < 0
    | (Listen _, r) \<Rightarrow> ret r < 0
    | (Join_group _ _ _, r) \<Rightarrow> ret r < 0
    | _ \<Rightarrow> False)"

text \<open>A server object that was started once and is then destroyed leaves no descriptor open, whatever the
  system answers: it closes exactly the descriptors that it was given, each once. \<open>start\<close> is true
  exactly when none of the four necessary calls failed.\<close>

theorem epoll_start_destroy:
  "case epoll_start os (EpollServer_new p) tr of (ok, s, tr') \<Rightarrow>
     \<exists>new. EpollServer_destroy os s tr' = tr @ new \<and> events closed_fd new = events opened_fd new \<and>
       ok = (\<not> list_ex fatal new)"
  by (simp add: epoll_start_def epoll_listen_def EpollServer_new_def EpollServer_destroy_def close_if_open_def
      call_eq invoke_eq Let_def closed_fd_def opened_fd_def fatal_def not_less)

section \<open>The accept loop\<close>

text \<open>
  What a listening socket does: \<open>backlog\<close> bounds the connections and errors that are still to come. When it
  is used up \<open>accept4\<close> says so; otherwise an accept uses it up, and other calls do not raise it.
\<close>

definition backlog_bounds :: "kernel \<Rightarrow> (trace \<Rightarrow> nat) \<Rightarrow> bool" where
  "backlog_bounds os backlog \<longleftrightarrow>
     (\<forall>tr f. if backlog tr = 0 then ret (os tr (Accept f)) < 0 \<and> would_block (os tr (Accept f))
        else backlog (invoke os (Accept f) tr) < backlog tr) \<and>
     (\<forall>tr c. backlog (invoke os c tr) \<le> backlog tr)"

lemma backlog_invoke_all: "backlog_bounds os backlog \<Longrightarrow> backlog (invoke_all os cs tr) \<le> backlog tr"
proof (induction cs arbitrary: tr)
  case (Cons c cs)
  then have "backlog (invoke_all os cs (invoke os c tr)) \<le> backlog (invoke os c tr)" by simp
  also have "\<dots> \<le> backlog tr" using Cons.prems by (simp add: backlog_bounds_def)
  finally show ?case by simp
qed simp

lemma accept_loop_returns:
  assumes "backlog_bounds os backlog"
  shows "\<exists>tr'. handleNewConnection os s tr = Some tr' \<and> backlog tr' \<le> backlog tr"
proof (induction "backlog tr" arbitrary: tr rule: less_induct)
  case less
  let ?r = "os tr (Accept (listen_fd s))" and ?tr1 = "invoke os (Accept (listen_fd s)) tr"
  have le: "backlog ?tr1 \<le> backlog tr" using assms by (simp add: backlog_bounds_def)
  show ?case
  proof (cases "ret ?r < 0 \<and> would_block ?r")
    case True
    then show ?thesis using le by (simp add: handleNewConnection.simps call_eq invoke_eq)
  next
    case False
    then have "backlog tr \<noteq> 0" using assms by (metis backlog_bounds_def)
    then have lt: "backlog ?tr1 < backlog tr" using assms unfolding backlog_bounds_def by metis
    define next_tr where "next_tr = (if ret ?r < 0 then ?tr1
      else invoke_all os [Set_option (ret ?r) Tcp_nodelay 1, Epoll_add (epoll_fd s) (ret ?r) True] ?tr1)"
    have next_le: "backlog next_tr \<le> backlog ?tr1"
      unfolding next_tr_def using backlog_invoke_all [OF assms] by (simp del: invoke_all.simps)
    have "handleNewConnection os s tr = handleNewConnection os s next_tr"
      using False unfolding next_tr_def by (subst handleNewConnection.simps) (simp add: call_eq invoke_eq)
    moreover obtain tr' where "handleNewConnection os s next_tr = Some tr'" "backlog tr' \<le> backlog next_tr"
      using less [of next_tr] next_le lt by auto
    ultimately show ?thesis using next_le lt by auto
  qed
qed

lemma handle_events_return:
  assumes "backlog_bounds os backlog"
  shows "handle_events os s fs tr \<noteq> None"
proof (induction fs arbitrary: tr)
  case (Cons f fs)
  have "handle_event os s f tr \<noteq> None"
    using accept_loop_returns [OF assms, of s tr] by (auto simp: handle_event_def)
  then show ?case using Cons by (auto split: sum.splits)
qed simp

text \<open>C31: Every call of \<open>processEvents\<close> returns when the accept queue holds finitely many connections and errors
  at a time: the accept loop comes to its end on each event.\<close>

theorem processEvents_returns:
  assumes "backlog_bounds os backlog"
  shows "processEvents os s timeout tr \<noteq> None"
  using handle_events_return [OF assms] by (auto simp: processEvents_def call_eq)

text \<open>The accept loop gives up only on \<open>EAGAIN\<close>. When \<open>accept4\<close> keeps failing for another reason, such as no
  free descriptor, one event on the listening socket keeps the server in this loop for ever.\<close>

theorem accept_error_hangs:
  assumes "\<And>tr. ret (os tr (Accept (listen_fd s))) < 0 \<and> \<not> would_block (os tr (Accept (listen_fd s)))"
    and "0 \<le> ret (os tr (Epoll_wait (epoll_fd s) MAX_EVENTS timeout))"
    and "ready_fds (os tr (Epoll_wait (epoll_fd s) MAX_EVENTS timeout)) = listen_fd s # fs"
  shows "processEvents os s timeout tr = None"
proof -
  have "handleNewConnection os s tr = None" for tr
  proof (cases "handleNewConnection os s tr")
    case (Some tr')
    have "os \<noteq> os \<or> s \<noteq> s"
    proof (rule handleNewConnection.raw_induct [where P = "\<lambda>os' s' _ _. os' \<noteq> os \<or> s' \<noteq> s", OF _ Some])
      fix loop os' s' tr tr'
      assume "\<And>os' s' tr tr'. loop os' s' tr = Some tr' \<Longrightarrow> os' \<noteq> os \<or> s' \<noteq> s"
        and "(let (r, tr1) = call os' (Accept (listen_fd s')) tr
          in if ret r < 0 then if would_block r then Some tr1 else loop os' s' tr1
             else loop os' s' (invoke_all os' [Set_option (ret r) Tcp_nodelay 1,
               Epoll_add (epoll_fd s') (ret r) True] tr1)) = Some tr'"
      then show "os' \<noteq> os \<or> s' \<noteq> s" using assms(1) by (fastforce simp: call_eq split: if_splits)
    qed
    then show ?thesis by simp
  qed
  with assms(2,3) show ?thesis by (simp add: processEvents_def call_eq handle_event_def)
qed

definition no_answer :: answer where
  "no_answer = \<lparr>ret = - 1, errno = EAGAIN, payload = [], sender = [], ready = []\<rparr>"

text \<open>A system with one event, on the listening socket 4, and no free descriptor (error 24).\<close>

definition out_of_fds :: kernel where
  "out_of_fds _ c = (case c of
      Epoll_wait _ _ _ \<Rightarrow> no_answer\<lparr>ret := 1, ready := [4]\<rparr>
    | _ \<Rightarrow> no_answer\<lparr>errno := 24\<rparr>)"

theorem accept_error_hangs_witness:
  "processEvents out_of_fds \<lparr>port = 8080, epoll_fd = 3, listen_fd = 4\<rparr> 0 [] = None"
  by (rule accept_error_hangs [where fs = "[]"])
    (simp_all add: out_of_fds_def no_answer_def would_block_def EAGAIN_def EWOULDBLOCK_def ready_fds_def)

text \<open>A system that hands out three connections, the descriptors 7, 8 and 9, and then no more.\<close>

definition accepted :: "trace \<Rightarrow> fd list" where
  "accepted = events (\<lambda>(c, r). case c of Accept _ \<Rightarrow> if 0 \<le> ret r then Some (ret r) else None | _ \<Rightarrow> None)"

definition three_connections :: kernel where
  "three_connections tr c = (case c of
      Epoll_create \<Rightarrow> no_answer\<lparr>ret := 3\<rparr>
    | Socket _ \<Rightarrow> no_answer\<lparr>ret := 4\<rparr>
    | Epoll_wait _ _ _ \<Rightarrow> no_answer\<lparr>ret := 1, ready := [4]\<rparr>
    | Accept _ \<Rightarrow> if length (accepted tr) < 3 then no_answer\<lparr>ret := 7 + int (length (accepted tr))\<rparr> else no_answer
    | _ \<Rightarrow> no_answer\<lparr>ret := 0\<rparr>)"

theorem processEvents_returns_witness:
  "processEvents three_connections \<lparr>port = 8080, epoll_fd = 3, listen_fd = 4\<rparr> 0 [] \<noteq> None"
proof (rule processEvents_returns [where backlog = "\<lambda>tr. 3 - length (accepted tr)"])
  have "3 - length (accepted (invoke three_connections c tr)) \<le> 3 - length (accepted tr)" for c tr
    by (simp add: invoke_eq accepted_def split: option.split)
  then show "backlog_bounds three_connections (\<lambda>tr. 3 - length (accepted tr))"
    unfolding backlog_bounds_def
    by (auto simp: invoke_eq three_connections_def accepted_def no_answer_def would_block_def)
qed

section \<open>Clients and their bytes\<close>

text \<open>
  After a trace: the connections that are open, those that the epoll instance watches, and those whose adding
  to it failed, which the server does not notice.
\<close>

definition open_step :: "fd set \<Rightarrow> sys_call \<times> answer \<Rightarrow> fd set" where
  "open_step S e = (case e of
      (Accept _, r) \<Rightarrow> if 0 \<le> ret r then insert (ret r) S else S
    | (Close f, _) \<Rightarrow> S - {f}
    | _ \<Rightarrow> S)"

definition watch_step :: "fd set \<Rightarrow> sys_call \<times> answer \<Rightarrow> fd set" where
  "watch_step S e = (case e of
      (Epoll_add _ f client, r) \<Rightarrow> if client \<and> ret r = 0 then insert f S else S
    | (Epoll_del _ f, _) \<Rightarrow> S - {f}
    | _ \<Rightarrow> S)"

definition unadded_step :: "fd set \<Rightarrow> sys_call \<times> answer \<Rightarrow> fd set" where
  "unadded_step S e = (case e of
      (Epoll_add _ f client, r) \<Rightarrow> if client then if ret r = 0 then S - {f} else insert f S else S
    | (Close f, _) \<Rightarrow> S - {f}
    | _ \<Rightarrow> S)"

definition open_clients :: "trace \<Rightarrow> fd set" where
  "open_clients tr = foldl open_step {} tr"

definition watched_clients :: "trace \<Rightarrow> fd set" where
  "watched_clients tr = foldl watch_step {} tr"

definition unadded_clients :: "trace \<Rightarrow> fd set" where
  "unadded_clients tr = foldl unadded_step {} tr"

definition failed_adds :: "trace \<Rightarrow> fd set" where
  "failed_adds tr = {f. \<exists>e r. (Epoll_add e f True, r) \<in> set tr \<and> ret r \<noteq> 0}"

lemma unadded_failed: "unadded_clients tr \<subseteq> failed_adds tr"
proof (induction tr rule: rev_induct)
  case (snoc e tr)
  have "unadded_clients (tr @ [e]) \<subseteq> unadded_clients tr \<union> failed_adds [e]"
    by (cases e) (auto simp: unadded_clients_def unadded_step_def failed_adds_def split: sys_call.split)
  moreover have "failed_adds (tr @ [e]) = failed_adds tr \<union> failed_adds [e]" by (auto simp: failed_adds_def)
  ultimately show ?case using snoc by blast
qed (simp add: unadded_clients_def)

text \<open>What was read from each client, and what the handler was called with.\<close>

definition bytes_read :: "sys_call \<times> answer \<Rightarrow> (fd \<times> bytes) option" where
  "bytes_read e = (case e of
      (Read f _, r) \<Rightarrow> if 0 < ret r then Some (f, take (nat (ret r)) (payload r)) else None
    | _ \<Rightarrow> None)"

definition bytes_handled :: "sys_call \<times> answer \<Rightarrow> (fd \<times> bytes) option" where
  "bytes_handled e = (case e of (Handle_client f b, _) \<Rightarrow> Some (f, b) | _ \<Rightarrow> None)"

definition clients_tracked :: "trace \<Rightarrow> bool" where
  "clients_tracked tr \<longleftrightarrow>
     open_clients tr = watched_clients tr \<union> unadded_clients tr \<and> events bytes_handled tr = events bytes_read tr"

lemmas client_defs = clients_tracked_def open_clients_def watched_clients_def open_step_def watch_step_def
  unadded_clients_def unadded_step_def bytes_read_def bytes_handled_def

lemma accept_loop_tracks:
  assumes "handleNewConnection os s tr = Some tr'" and "clients_tracked tr"
  shows "clients_tracked tr'"
proof -
  have "clients_tracked tr \<longrightarrow> clients_tracked tr'"
  proof (rule handleNewConnection.raw_induct
      [where P = "\<lambda>os s tr tr'. clients_tracked tr \<longrightarrow> clients_tracked tr'", OF _ assms(1)])
    fix loop os s tr tr'
    assume loop: "\<And>os s tr tr'. loop os s tr = Some tr' \<Longrightarrow> clients_tracked tr \<longrightarrow> clients_tracked tr'"
      and body: "(let (r, tr1) = call os (Accept (listen_fd s)) tr
        in if ret r < 0 then if would_block r then Some tr1 else loop os s tr1
           else loop os s (invoke_all os [Set_option (ret r) Tcp_nodelay 1,
             Epoll_add (epoll_fd s) (ret r) True] tr1)) = Some tr'"
    show "clients_tracked tr \<longrightarrow> clients_tracked tr'"
    proof
      assume ok: "clients_tracked tr"
      let ?r = "os tr (Accept (listen_fd s))" and ?tr1 = "tr @ [(Accept (listen_fd s), os tr (Accept (listen_fd s)))]"
      let ?tr2 = "invoke_all os [Set_option (ret ?r) Tcp_nodelay 1, Epoll_add (epoll_fd s) (ret ?r) True] ?tr1"
      have "ret ?r < 0 \<Longrightarrow> clients_tracked ?tr1" "0 \<le> ret ?r \<Longrightarrow> clients_tracked ?tr2"
        using ok by (auto simp: client_defs invoke_eq)
      then show "clients_tracked tr'"
        using body loop by (auto simp: call_eq not_less split: if_splits)
    qed
  qed
  with assms(2) show ?thesis by simp
qed

lemma client_data_tracks:
  "handleClientData os s f tr = Inr tr' \<Longrightarrow> clients_tracked tr \<Longrightarrow> clients_tracked tr'"
  by (auto simp: handleClientData_def call_eq invoke_eq client_defs split: if_splits)

lemma handle_events_track:
  "handle_events os s fs tr = Some (Inr tr') \<Longrightarrow> clients_tracked tr \<Longrightarrow> clients_tracked tr'"
  by (induction fs arbitrary: tr)
    (auto simp: handle_event_def accept_loop_tracks client_data_tracks split: option.splits sum.splits if_splits)

text \<open>The life of a server: started once, then any number of rounds of event processing.\<close>

inductive epoll_session :: "kernel \<Rightarrow> epoll_server \<Rightarrow> trace \<Rightarrow> bool" for os :: kernel where
  started: "epoll_start os (EpollServer_new p) [] = (True, s, tr) \<Longrightarrow> epoll_session os s tr"
| round: "epoll_session os s tr \<Longrightarrow> processEvents os s timeout tr = Some (Inr tr') \<Longrightarrow> epoll_session os s tr'"

text \<open>C30: In every state that a started server reaches, whatever the system answers, the open connections are those
  that the epoll instance watches and those whose adding to it failed, so that without such a failure it
  watches exactly the open connections (the code does not check the adding); and the handler has been
  called with exactly the bytes that were read, per client and in order.\<close>

theorem epoll_tracks_clients:
  assumes "epoll_session os s tr"
  shows "open_clients tr = watched_clients tr \<union> unadded_clients tr \<and>
    unadded_clients tr \<subseteq> {f. \<exists>e r. (Epoll_add e f True, r) \<in> set tr \<and> ret r \<noteq> 0} \<and>
    events bytes_handled tr = events bytes_read tr"
proof -
  have "clients_tracked tr"
    using assms
  proof induction
    case (started p s tr)
    then show ?case
      by (auto simp: epoll_start_def epoll_listen_def call_eq invoke_eq client_defs Let_def split: if_splits)
  next
    case (round s tr timeout tr')
    have "clients_tracked (tr @ [(Epoll_wait (epoll_fd s) MAX_EVENTS timeout,
        os tr (Epoll_wait (epoll_fd s) MAX_EVENTS timeout))])"
      using round.IH by (simp add: client_defs)
    with round.hyps(2) show ?case
      by (auto simp: processEvents_def call_eq handle_events_track split: if_splits)
  qed
  then show ?thesis using unadded_failed [of tr] by (simp add: clients_tracked_def failed_adds_def)
qed

lemma three_connections_accept:
  assumes "length (accepted tr) = k" and "k < 3"
  shows "\<exists>tr'. handleNewConnection three_connections s tr = handleNewConnection three_connections s tr' \<and>
    length (accepted tr') = Suc k \<and> open_clients tr' = insert (7 + int k) (open_clients tr)"
proof -
  let ?c = "Accept (listen_fd s)"
  have r: "three_connections tr ?c = no_answer\<lparr>ret := 7 + int k\<rparr>"
    using assms by (simp add: three_connections_def)
  let ?tr' = "invoke_all three_connections [Set_option (7 + int k) Tcp_nodelay 1, Epoll_add (epoll_fd s) (7 + int k) True]
      (tr @ [(?c, no_answer\<lparr>ret := 7 + int k\<rparr>)])"
  have "handleNewConnection three_connections s tr = handleNewConnection three_connections s ?tr'"
    by (subst handleNewConnection.simps) (simp add: call_eq r)
  moreover have "length (accepted ?tr') = Suc k" "open_clients ?tr' = insert (7 + int k) (open_clients tr)"
    using assms(1) by (simp_all add: invoke_eq accepted_def open_clients_def open_step_def)
  ultimately show ?thesis by blast
qed

lemma three_connections_session:
  obtains s tr where "epoll_session three_connections s tr" and "open_clients tr = {7, 8, 9}"
proof -
  let ?s = "\<lparr>port = 8080, epoll_fd = 3, listen_fd = 4\<rparr>"
  note defs = call_eq invoke_eq three_connections_def no_answer_def accepted_def open_clients_def open_step_def Let_def
  obtain tr where start: "epoll_start three_connections (EpollServer_new 8080) [] = (True, ?s, tr)"
    "accepted tr = []" "open_clients tr = {}"
    by (simp add: epoll_start_def epoll_listen_def EpollServer_new_def defs)
  let ?w = "Epoll_wait 3 MAX_EVENTS 0"
  let ?tr1 = "tr @ [(?w, three_connections tr ?w)]"
  have "length (accepted ?tr1) = 0" "open_clients ?tr1 = {}" using start(2,3) by (simp_all add: defs)
  then obtain tr2 where 2: "handleNewConnection three_connections ?s ?tr1 = handleNewConnection three_connections ?s tr2"
    "length (accepted tr2) = 1" "open_clients tr2 = {7}"
    using three_connections_accept [of ?tr1 0 ?s] by auto
  obtain tr3 where 3: "handleNewConnection three_connections ?s tr2 = handleNewConnection three_connections ?s tr3"
    "length (accepted tr3) = 2" "open_clients tr3 = {8, 7}"
    using three_connections_accept [OF 2(2), of ?s] 2(3) by auto
  obtain tr4 where 4: "handleNewConnection three_connections ?s tr3 = handleNewConnection three_connections ?s tr4"
    "length (accepted tr4) = 3" "open_clients tr4 = {9, 8, 7}"
    using three_connections_accept [OF 3(2), of ?s] 3(3) by auto
  have "three_connections tr4 (Accept 4) = no_answer" using 4(2) by (simp add: three_connections_def)
  then obtain tr' where tr': "handleNewConnection three_connections ?s ?tr1 = Some tr'" "open_clients tr' = {7, 8, 9}"
    using 4(3) unfolding 2(1) 3(1) 4(1)
    by (subst (asm) handleNewConnection.simps)
      (auto simp: call_eq no_answer_def would_block_def open_clients_def open_step_def)
  have "processEvents three_connections ?s 0 tr = Some (Inr tr')"
    using tr' by (simp add: processEvents_def call_eq three_connections_def no_answer_def ready_fds_def handle_event_def)
  with started [OF start(1)] have "epoll_session three_connections ?s tr'" by (rule round)
  with tr'(2) show thesis by (intro that)
qed

theorem epoll_tracks_clients_witness:
  "\<exists>s tr. epoll_session three_connections s tr \<and> watched_clients tr \<union> unadded_clients tr = {7, 8, 9}"
proof -
  obtain s tr where "epoll_session three_connections s tr" "open_clients tr = {7, 8, 9}"
    by (rule three_connections_session)
  with epoll_tracks_clients [of three_connections s tr] show ?thesis by auto
qed

section \<open>One read per event\<close>

text \<open>
  What a stream socket does: \<open>buf\<close> gives the bytes that wait on each descriptor. A read takes from the front,
  other calls of the server leave the bytes alone.
\<close>

definition streams :: "kernel \<Rightarrow> (trace \<Rightarrow> fd \<Rightarrow> bytes) \<Rightarrow> bool" where
  "streams os buf \<longleftrightarrow>
     (\<forall>tr f n. buf tr f \<noteq> [] \<longrightarrow> 0 < n \<longrightarrow>
        ret (os tr (Read f n)) = int (min n (length (buf tr f))) \<and> payload (os tr (Read f n)) = take n (buf tr f) \<and>
        buf (invoke os (Read f n) tr) f = drop n (buf tr f)) \<and>
     (\<forall>tr f b. buf (invoke os (Handle_client f b) tr) = buf tr)"

text \<open>A readable event makes the server read once: the handler gets at most the first 4095 of the bytes that
  wait, never more than the buffer holds, and the rest stays in the socket. The socket is registered
  edge-triggered, so no event announces this rest until the peer sends again.\<close>

theorem client_data_one_buffer:
  assumes "streams os buf" and "buf tr f \<noteq> []"
  shows "\<exists>tr'. handleClientData os s f tr = Inr tr' \<and>
    events bytes_handled tr' = events bytes_handled tr @ [(f, take 4095 (buf tr f))] \<and>
    buf tr' f = drop 4095 (buf tr f)"
proof -
  let ?n = "BUFFER_SIZE - 1" and ?tr1 = "invoke os (Read f (BUFFER_SIZE - 1)) tr"
  have r: "ret (os tr (Read f ?n)) = int (min ?n (length (buf tr f)))"
    "payload (os tr (Read f ?n)) = take ?n (buf tr f)" "buf ?tr1 f = drop ?n (buf tr f)"
    "buf (invoke os (Handle_client g b) t) = buf t" for g b t
    using assms by (simp_all add: streams_def BUFFER_SIZE_def)
  have "0 < length (buf tr f)" using assms(2) by simp
  then have "handleClientData os s f tr = Inr (invoke os (Handle_client f (take ?n (buf tr f))) ?tr1)"
    using r(1,2) by (simp add: handleClientData_def call_eq invoke_eq BUFFER_SIZE_def min_def)
  moreover have "buf (invoke os (Handle_client f (take ?n (buf tr f))) ?tr1) f = drop ?n (buf tr f)"
    using r(3,4) by simp
  ultimately show ?thesis by (simp add: invoke_eq bytes_handled_def BUFFER_SIZE_def)
qed

text \<open>A system in which 5000 bytes wait on every descriptor.\<close>

definition bytes_taken :: "fd \<Rightarrow> trace \<Rightarrow> nat" where
  "bytes_taken f tr = sum_list (events (\<lambda>(c, _). case c of Read g n \<Rightarrow> if g = f then Some n else None | _ \<Rightarrow> None) tr)"

definition burst_buf :: "trace \<Rightarrow> fd \<Rightarrow> bytes" where
  "burst_buf tr f = drop (bytes_taken f tr) (replicate 5000 CHR ''A'')"

definition burst_kernel :: kernel where
  "burst_kernel tr c = (case c of
      Read f n \<Rightarrow>
        if burst_buf tr f = [] then no_answer
        else no_answer\<lparr>ret := int (min n (length (burst_buf tr f))), payload := take n (burst_buf tr f)\<rparr>
    | _ \<Rightarrow> no_answer)"

theorem client_data_one_buffer_witness:
  "\<exists>tr'. handleClientData burst_kernel \<lparr>port = 8080, epoll_fd = 3, listen_fd = 4\<rparr> 7 [] = Inr tr' \<and>
    events bytes_handled tr' = [(7, replicate 4095 CHR ''A'')] \<and> burst_buf tr' 7 = replicate 905 CHR ''A''"
proof -
  have taken: "bytes_taken f (tr @ tr') = bytes_taken f tr + bytes_taken f tr'" for f tr tr'
    by (simp add: bytes_taken_def)
  have "streams burst_kernel burst_buf"
    by (auto simp: streams_def burst_kernel_def no_answer_def invoke_eq burst_buf_def taken fun_eq_iff)
      (simp_all add: bytes_taken_def add.commute)
  moreover have b: "burst_buf [] 7 = replicate 5000 CHR ''A''" by (simp add: burst_buf_def bytes_taken_def)
  ultimately show ?thesis
    using client_data_one_buffer [of burst_kernel burst_buf "[]" 7] by (simp add: replicate_eq_replicate)
qed

section \<open>The blocking loop\<close>

text \<open>\<open>run\<close> is the loop of \<open>processEvents\<close> without a time limit, which ends when waiting fails for another reason
  than a signal.\<close>

theorem run_is_processEvents_loop:
  "epoll_run os s tr =
     (let r = os tr (Epoll_wait (epoll_fd s) MAX_EVENTS (- 1))
      in case processEvents os s (- 1) tr of
           Some (Inr tr') \<Rightarrow> if ret r < 0 \<and> errno r \<noteq> EINTR then Some (Inr tr') else epoll_run os s tr'
         | stuck \<Rightarrow> stuck)"
  by (subst epoll_run.simps) (auto simp: processEvents_def call_eq Let_def split: option.splits sum.splits)

end
