(* ===== verification/UDP_Server.thy ===== *)
theory UDP_Server
  imports Kernel
begin

text \<open>
  \<open>include/networking/UDPServer.hpp\<close>: the UDP server and the receiver of a multicast group. Both are sequences of
  system calls; the receive loop is bounded by its argument.
\<close>

section \<open>UDPServer\<close>

record udp_server =
  udp_port :: "16 word"
  socket_fd :: fd
  busy_poll :: bool

definition UDPServer_new :: "16 word \<Rightarrow> bool \<Rightarrow> udp_server" where
  "UDPServer_new p busy = \<lparr>udp_port = p, socket_fd = - 1, busy_poll = busy\<rparr>"

definition UDPServer_destroy :: "kernel \<Rightarrow> udp_server \<Rightarrow> trace \<Rightarrow> trace" where
  "UDPServer_destroy os s tr = (if 0 \<le> socket_fd s then invoke os (Close (socket_fd s)) tr else tr)"

text \<open>The flags of the socket are read first and written back with the non-blocking flag.\<close>

definition set_nonblocking :: "kernel \<Rightarrow> fd \<Rightarrow> trace \<Rightarrow> trace" where
  "set_nonblocking os f tr = (let (r, tr1) = call os (Get_flags f) tr in invoke os (Set_nonblock f (ret r)) tr1)"

definition udp_start :: "kernel \<Rightarrow> udp_server \<Rightarrow> trace \<Rightarrow> bool \<times> udp_server \<times> trace" where
  "udp_start os s tr =
     (let (r1, tr1) = call os (Socket Datagram) tr; f = ret r1; s1 = s\<lparr>socket_fd := f\<rparr>
      in if f < 0 then (False, s1, tr1)
         else let tr2 = invoke_all os
                    ([Set_option f Reuse_addr 1, Set_option f Reuse_port 1] @
                     (if busy_poll s then [Set_option f Busy_poll 50] else []) @
                     [Set_option f Receive_buffer (1024 * 1024)])
                    (set_nonblocking os f tr1);
                  (r3, tr3) = call os (Bind f (udp_port s)) tr2
              in (\<not> ret r3 < 0, s1, tr3))"

definition DATAGRAM_SIZE :: nat where
  "DATAGRAM_SIZE = 65536"

text \<open>\<open>i\<close> rounds of the loop are left, \<open>received\<close> counts the messages so far.\<close>

primrec udp_receive_loop :: "kernel \<Rightarrow> udp_server \<Rightarrow> nat \<Rightarrow> int \<Rightarrow> trace \<Rightarrow> int \<times> trace" where
  "udp_receive_loop os s 0 received tr = (received, tr)"
| "udp_receive_loop os s (Suc i) received tr =
     (let (r, tr1) = call os (Recvfrom (socket_fd s) DATAGRAM_SIZE) tr
      in if ret r < 0
         then if would_block r then (received, tr1) else udp_receive_loop os s i received tr1
         else udp_receive_loop os s i (received + 1)
                (invoke os (Handle_datagram (take (nat (ret r)) (payload r)) (sender r)) tr1))"

definition udp_receiveMessages :: "kernel \<Rightarrow> udp_server \<Rightarrow> int \<Rightarrow> trace \<Rightarrow> int \<times> trace" where
  "udp_receiveMessages os s max_messages tr = udp_receive_loop os s (nat max_messages) 0 tr"

text \<open>One round of the endless loop of \<open>run\<close>, and \<open>n\<close> rounds of it.\<close>

definition udp_run_round :: "kernel \<Rightarrow> udp_server \<Rightarrow> trace \<Rightarrow> trace" where
  "udp_run_round os s tr =
     (let (received, tr1) = udp_receiveMessages os s 64 tr
      in if busy_poll s \<and> received = 0 then invoke_all os [Poll (socket_fd s), Pause] tr1
         else if received = 0 then invoke os (Usleep 1) tr1 else tr1)"

definition udp_run_rounds :: "kernel \<Rightarrow> udp_server \<Rightarrow> nat \<Rightarrow> trace \<Rightarrow> trace" where
  "udp_run_rounds os s n = (udp_run_round os s ^^ n)"

definition udp_sendTo :: "kernel \<Rightarrow> udp_server \<Rightarrow> bytes \<Rightarrow> string \<Rightarrow> trace \<Rightarrow> bool \<times> trace" where
  "udp_sendTo os s data to tr =
     (let (r, tr1) = call os (Sendto (socket_fd s) data to) tr in (ret r = int (length data), tr1))"

definition udp_getFd :: "udp_server \<Rightarrow> fd" where
  "udp_getFd s = socket_fd s"

section \<open>UDPMulticastReceiver\<close>

record multicast_receiver =
  multicast_group :: string
  mc_port :: "16 word"
  interface_ip :: string
  mc_fd :: fd
  mc_busy_poll :: bool

definition UDPMulticastReceiver_new :: "string \<Rightarrow> 16 word \<Rightarrow> string \<Rightarrow> bool \<Rightarrow> multicast_receiver" where
  "UDPMulticastReceiver_new grp p ip busy =
     \<lparr>multicast_group = grp, mc_port = p, interface_ip = ip, mc_fd = - 1, mc_busy_poll = busy\<rparr>"

definition UDPMulticastReceiver_destroy :: "kernel \<Rightarrow> multicast_receiver \<Rightarrow> trace \<Rightarrow> trace" where
  "UDPMulticastReceiver_destroy os s tr = (if 0 \<le> mc_fd s then invoke os (Close (mc_fd s)) tr else tr)"

definition mc_start :: "kernel \<Rightarrow> multicast_receiver \<Rightarrow> trace \<Rightarrow> bool \<times> multicast_receiver \<times> trace" where
  "mc_start os s tr =
     (let (r1, tr1) = call os (Socket Datagram) tr; f = ret r1; s1 = s\<lparr>mc_fd := f\<rparr>
      in if f < 0 then (False, s1, tr1)
         else let tr2 = invoke_all os
                    ([Set_option f Reuse_addr 1, Set_option f Reuse_port 1] @
                     (if mc_busy_poll s then [Set_option f Busy_poll 50] else []))
                    (set_nonblocking os f tr1);
                  (r3, tr3) = call os (Bind f (mc_port s)) tr2
              in if ret r3 < 0 then (False, s1, tr3)
                 else let (r4, tr4) = call os (Join_group f (multicast_group s) (interface_ip s)) tr3
                      in (\<not> ret r4 < 0, s1, tr4))"

primrec mc_receive_loop :: "kernel \<Rightarrow> multicast_receiver \<Rightarrow> nat \<Rightarrow> int \<Rightarrow> trace \<Rightarrow> int \<times> trace" where
  "mc_receive_loop os s 0 received tr = (received, tr)"
| "mc_receive_loop os s (Suc i) received tr =
     (let (r, tr1) = call os (Recv (mc_fd s) DATAGRAM_SIZE) tr
      in if ret r < 0
         then if would_block r then (received, tr1) else mc_receive_loop os s i received tr1
         else mc_receive_loop os s i (received + 1)
                (invoke os (Handle_packet (take (nat (ret r)) (payload r))) tr1))"

definition mc_receiveMessages :: "kernel \<Rightarrow> multicast_receiver \<Rightarrow> int \<Rightarrow> trace \<Rightarrow> int \<times> trace" where
  "mc_receiveMessages os s max_messages tr = mc_receive_loop os s (nat max_messages) 0 tr"

definition mc_run_round :: "kernel \<Rightarrow> multicast_receiver \<Rightarrow> trace \<Rightarrow> trace" where
  "mc_run_round os s tr =
     (let (received, tr1) = mc_receiveMessages os s 64 tr
      in if mc_busy_poll s \<and> received = 0 then invoke_all os [Poll (mc_fd s), Pause] tr1
         else if received = 0 then invoke os (Usleep 1) tr1 else tr1)"

definition mc_run_rounds :: "kernel \<Rightarrow> multicast_receiver \<Rightarrow> nat \<Rightarrow> trace \<Rightarrow> trace" where
  "mc_run_rounds os s n = (mc_run_round os s ^^ n)"

definition mc_getFd :: "multicast_receiver \<Rightarrow> fd" where
  "mc_getFd s = mc_fd s"

section \<open>Start and destruction\<close>

definition socket_opened :: "sys_call \<times> answer \<Rightarrow> fd option" where
  "socket_opened e = (case e of (Socket _, r) \<Rightarrow> if 0 \<le> ret r then Some (ret r) else None | _ \<Rightarrow> None)"

definition socket_closed :: "sys_call \<times> answer \<Rightarrow> fd option" where
  "socket_closed e = (case e of (Close f, _) \<Rightarrow> Some f | _ \<Rightarrow> None)"

definition setup_failed :: "sys_call \<times> answer \<Rightarrow> bool" where
  "setup_failed e = (case e of
      (Socket _, r) \<Rightarrow> ret r < 0 | (Bind _ _, r) \<Rightarrow> ret r < 0 | (Join_group _ _ _, r) \<Rightarrow> ret r < 0 | _ \<Rightarrow> False)"

text \<open>Both UDP classes close exactly the socket that \<open>start\<close> opened, once, on every path, and \<open>start\<close> is true
  exactly when creating and binding the socket (and joining the group) succeeded: a failing option, such
  as busy polling without the privilege, is not an error.\<close>

theorem udp_start_destroy:
  "(case udp_start os (UDPServer_new p busy) tr of (ok, s, tr') \<Rightarrow>
     \<exists>new. UDPServer_destroy os s tr' = tr @ new \<and> events socket_closed new = events socket_opened new \<and>
       ok = (\<not> list_ex setup_failed new)) \<and>
   (case mc_start os (UDPMulticastReceiver_new g p ip busy) tr of (ok, s, tr') \<Rightarrow>
     \<exists>new. UDPMulticastReceiver_destroy os s tr' = tr @ new \<and> events socket_closed new = events socket_opened new \<and>
       ok = (\<not> list_ex setup_failed new))"
  by (simp add: udp_start_def mc_start_def set_nonblocking_def UDPServer_new_def UDPServer_destroy_def
      UDPMulticastReceiver_new_def UDPMulticastReceiver_destroy_def call_eq invoke_eq Let_def socket_closed_def
      socket_opened_def setup_failed_def not_less)

section \<open>Receiving\<close>

text \<open>The datagrams that the system delivered, and those that the handler got.\<close>

definition datagram_received :: "sys_call \<times> answer \<Rightarrow> (bytes \<times> string) option" where
  "datagram_received e = (case e of
      (Recvfrom _ _, r) \<Rightarrow> if 0 \<le> ret r then Some (take (nat (ret r)) (payload r), sender r) else None
    | _ \<Rightarrow> None)"

definition datagram_handled :: "sys_call \<times> answer \<Rightarrow> (bytes \<times> string) option" where
  "datagram_handled e = (case e of (Handle_datagram b from, _) \<Rightarrow> Some (b, from) | _ \<Rightarrow> None)"

definition is_recvfrom :: "sys_call \<times> answer \<Rightarrow> answer option" where
  "is_recvfrom e = (case e of (Recvfrom _ _, r) \<Rightarrow> Some r | _ \<Rightarrow> None)"

definition exhausted :: "answer \<Rightarrow> bool" where
  "exhausted r \<longleftrightarrow> ret r < 0 \<and> would_block r"

lemma udp_receive_loop_effect:
  "\<exists>new. udp_receive_loop os s i received tr = (received + int (length (events datagram_handled new)), tr @ new) \<and>
     events datagram_handled new = events datagram_received new \<and>
     length (events is_recvfrom new) \<le> i \<and>
     (length (events is_recvfrom new) < i \<longrightarrow> list_ex exhausted (events is_recvfrom new)) \<and>
     \<not> list_ex exhausted (butlast (events is_recvfrom new))"
proof (induction i arbitrary: received tr)
  case 0
  then show ?case by (intro exI [of _ "[]"]) simp
next
  case (Suc i)
  let ?c = "Recvfrom (socket_fd s) DATAGRAM_SIZE"
  let ?r = "os tr ?c"
  let ?tr1 = "tr @ [(?c, ?r)]"
  show ?case
  proof (cases "exhausted ?r")
    case True
    then show ?thesis
      by (intro exI [of _ "[(?c, ?r)]"])
        (simp add: call_eq exhausted_def datagram_handled_def datagram_received_def is_recvfrom_def)
  next
    case False
    let ?h = "Handle_datagram (take (nat (ret ?r)) (payload ?r)) (sender ?r)"
    define added where "added = (if ret ?r < 0 then [(?c, ?r)] else [(?c, ?r), (?h, os ?tr1 ?h)])"
    obtain new where new: "udp_receive_loop os s i (received + int (length (events datagram_handled added))) (tr @ added) =
        (received + int (length (events datagram_handled added)) + int (length (events datagram_handled new)), (tr @ added) @ new)"
      "events datagram_handled new = events datagram_received new" "length (events is_recvfrom new) \<le> i"
      "length (events is_recvfrom new) < i \<longrightarrow> list_ex exhausted (events is_recvfrom new)"
      "\<not> list_ex exhausted (butlast (events is_recvfrom new))"
      using Suc by blast
    have "events datagram_handled added = events datagram_received added" "events is_recvfrom added = [?r]"
      by (simp_all add: added_def datagram_handled_def datagram_received_def is_recvfrom_def)
    moreover have "udp_receive_loop os s (Suc i) received tr =
        udp_receive_loop os s i (received + int (length (events datagram_handled added))) (tr @ added)"
      using False by (simp add: call_eq invoke_eq added_def exhausted_def datagram_handled_def)
    ultimately show ?thesis using new False
      by (intro exI [of _ "added @ new"]) (auto simp: add.assoc)
  qed
qed

text \<open>C32: \<open>receiveMessages\<close> hands every datagram that it takes from the socket to the handler, unchanged, in order and
  with its sender, and returns their number. It asks at most \<open>max_messages\<close> times, fewer only when the
  socket has nothing more, and never again after that.\<close>

theorem udp_receive_exact:
  "\<exists>new. udp_receiveMessages os s max_messages tr = (int (length (events datagram_received new)), tr @ new) \<and>
     events datagram_handled new = events datagram_received new \<and>
     int (length (events is_recvfrom new)) \<le> max 0 max_messages \<and>
     (int (length (events is_recvfrom new)) = max 0 max_messages \<or> list_ex exhausted (events is_recvfrom new)) \<and>
     \<not> list_ex exhausted (butlast (events is_recvfrom new))"
proof -
  obtain new where "udp_receive_loop os s (nat max_messages) 0 tr =
      (0 + int (length (events datagram_handled new)), tr @ new)"
    "events datagram_handled new = events datagram_received new"
    "length (events is_recvfrom new) \<le> nat max_messages"
    "length (events is_recvfrom new) < nat max_messages \<longrightarrow> list_ex exhausted (events is_recvfrom new)"
    "\<not> list_ex exhausted (butlast (events is_recvfrom new))"
    using udp_receive_loop_effect by blast
  then show ?thesis by (intro exI [of _ new]) (auto simp: udp_receiveMessages_def)
qed

section \<open>The two receivers\<close>

text \<open>What a trace of the server looks like without the senders' addresses.\<close>

definition anonymous :: "sys_call \<Rightarrow> sys_call" where
  "anonymous c = (case c of Recvfrom f n \<Rightarrow> Recv f n | Handle_datagram b _ \<Rightarrow> Handle_packet b | _ \<Rightarrow> c)"

lemma anonymous_simps [simp]:
  "anonymous (Recvfrom f n) = Recv f n" "anonymous (Recv f n) = Recv f n"
  "anonymous (Handle_datagram b a) = Handle_packet b" "anonymous (Handle_packet b) = Handle_packet b"
  "anonymous (Poll f) = Poll f" "anonymous Pause = Pause" "anonymous (Usleep n) = Usleep n"
  by (simp_all add: anonymous_def)

definition same_socket :: "udp_server \<Rightarrow> multicast_receiver \<Rightarrow> bool" where
  "same_socket s m \<longleftrightarrow> mc_fd m = socket_fd s \<and> mc_busy_poll m = busy_poll s"

abbreviation anon :: "trace \<Rightarrow> trace" where
  "anon tr \<equiv> map (\<lambda>(c, r). (anonymous c, r)) tr"

text \<open>Two systems that give the same answers, whether or not the caller asks for the sender.\<close>

definition same_answers :: "kernel \<Rightarrow> kernel \<Rightarrow> bool" where
  "same_answers os os' \<longleftrightarrow> (\<forall>tr c. os' (anon tr) (anonymous c) = os tr c)"

lemma same_answersD:
  assumes "same_answers os os'"
  shows "os' (anon tr) (Recv f n) = os tr (Recvfrom f n)" and "os' (anon tr) (Handle_packet b) = os tr (Handle_datagram b a)"
    and "os' (anon tr) (Poll f) = os tr (Poll f)" and "os' (anon tr) Pause = os tr Pause"
    and "os' (anon tr) (Usleep n) = os tr (Usleep n)"
  using assms [unfolded same_answers_def, rule_format, of tr "Recvfrom f n"]
    assms [unfolded same_answers_def, rule_format, of tr "Handle_datagram b a"]
    assms [unfolded same_answers_def, rule_format, of tr "Poll f"]
    assms [unfolded same_answers_def, rule_format, of tr Pause]
    assms [unfolded same_answers_def, rule_format, of tr "Usleep n"]
  by simp_all

lemma invoke_anon:
  assumes "os' (anon tr) c' = os tr c" and "anonymous c = c'"
  shows "invoke os' c' (anon tr) = anon (invoke os c tr)"
  using assms by (simp add: invoke_eq)

lemma mc_receive_loop_udp:
  assumes "same_answers os os'" and "same_socket s m"
  shows "mc_receive_loop os' m i received (anon tr) =
    (case udp_receive_loop os s i received tr of (n, tr') \<Rightarrow> (n, anon tr'))"
proof (induction i arbitrary: received tr)
  case (Suc i)
  let ?r = "os tr (Recvfrom (socket_fd s) DATAGRAM_SIZE)"
  let ?tr1 = "invoke os (Recvfrom (socket_fd s) DATAGRAM_SIZE) tr"
  let ?h = "Handle_datagram (take (nat (ret ?r)) (payload ?r)) (sender ?r)"
  note same = same_answersD [OF assms(1)]
  have f: "mc_fd m = socket_fd s" using assms(2) by (simp add: same_socket_def)
  have "call os' (Recv (mc_fd m) DATAGRAM_SIZE) (anon tr) = (?r, anon ?tr1)"
    by (simp add: call_eq invoke_eq same(1) f)
  moreover have "invoke os' (Handle_packet (take (nat (ret ?r)) (payload ?r))) (anon ?tr1) = anon (invoke os ?h ?tr1)"
    by (rule invoke_anon) (simp_all add: same(2))
  moreover have "call os (Recvfrom (socket_fd s) DATAGRAM_SIZE) tr = (?r, ?tr1)"
    by (simp add: call_eq invoke_eq)
  ultimately show ?case using Suc.IH by simp
qed simp

lemma mc_run_round_udp:
  assumes "same_answers os os'" and "same_socket s m"
  shows "mc_run_round os' m (anon tr) = anon (udp_run_round os s tr)"
proof -
  note same = same_answersD [OF assms(1)]
  have "mc_fd m = socket_fd s" "mc_busy_poll m = busy_poll s" using assms(2) by (simp_all add: same_socket_def)
  moreover have "invoke os' (Poll f) (anon t) = anon (invoke os (Poll f) t)"
    "invoke os' Pause (anon t) = anon (invoke os Pause t)"
    "invoke os' (Usleep n) (anon t) = anon (invoke os (Usleep n) t)" for f n t
    by (simp_all add: invoke_anon same(3-5))
  moreover obtain k t where "udp_receive_loop os s (nat 64) 0 tr = (k, t)" by fastforce
  ultimately show ?thesis
    by (simp add: mc_run_round_def udp_run_round_def mc_receiveMessages_def udp_receiveMessages_def
        mc_receive_loop_udp [OF assms])
qed

text \<open>The multicast receiver behaves exactly like the UDP server that forgets the senders: on the same answers of
  the system, both receive the same number of messages with the same bytes in each call of
  \<open>receiveMessages\<close>, and \<open>run\<close> makes the same calls in the same order, for any number of rounds.\<close>

theorem multicast_equals_udp:
  assumes "same_answers os os'" and "same_socket s m"
  shows "mc_receiveMessages os' m max_messages (anon tr) =
      (case udp_receiveMessages os s max_messages tr of (n, tr') \<Rightarrow> (n, anon tr')) \<and>
    mc_run_rounds os' m n (anon tr) = anon (udp_run_rounds os s n tr)"
proof
  show "mc_receiveMessages os' m max_messages (anon tr) =
      (case udp_receiveMessages os s max_messages tr of (n, tr') \<Rightarrow> (n, anon tr'))"
    by (simp add: mc_receiveMessages_def udp_receiveMessages_def mc_receive_loop_udp [OF assms])
  show "mc_run_rounds os' m n (anon tr) = anon (udp_run_rounds os s n tr)"
    by (induction n) (simp_all add: mc_run_rounds_def udp_run_rounds_def mc_run_round_udp [OF assms])
qed

text \<open>A system in which two datagrams wait, an error between them.\<close>

definition two_datagrams :: kernel where
  "two_datagrams tr c =
     (let r = \<lparr>ret = - 1, errno = EAGAIN, payload = [], sender = [], ready = []\<rparr>;
          n = length (events (\<lambda>(c, _). case c of Recvfrom _ _ \<Rightarrow> Some () | Recv _ _ \<Rightarrow> Some () | _ \<Rightarrow> None) tr)
      in case anonymous c of
           Recv _ _ \<Rightarrow>
             if n = 0 then r\<lparr>ret := 3, payload := ''abc'', sender := ''1.2.3.4:80''\<rparr>
             else if n = 1 then r\<lparr>errno := 111\<rparr>
             else if n = 2 then r\<lparr>ret := 2, payload := ''de'', sender := ''1.2.3.4:80''\<rparr>
             else r
         | _ \<Rightarrow> r\<lparr>ret := 0\<rparr>)"

lemma two_datagrams_same: "same_answers two_datagrams two_datagrams"
proof -
  let ?f = "\<lambda>(c, _). case c of Recvfrom _ _ \<Rightarrow> Some () | Recv _ _ \<Rightarrow> Some () | _ \<Rightarrow> None"
  have "events ?f (anon tr) = events ?f tr" for tr
    by (induction tr) (auto simp: anonymous_def split: sys_call.splits option.splits)
  moreover have "anonymous (anonymous c) = anonymous c" for c
    by (simp add: anonymous_def split: sys_call.splits)
  ultimately show ?thesis by (simp add: same_answers_def two_datagrams_def Let_def)
qed

lemma two_datagrams_received:
  "fst (udp_receiveMessages two_datagrams s 4 []) = 2"
proof -
  have 4: "nat 4 = Suc (Suc (Suc (Suc 0)))" by simp
  show ?thesis unfolding udp_receiveMessages_def 4
    by (simp add: two_datagrams_def call_eq invoke_eq would_block_def EAGAIN_def EWOULDBLOCK_def Let_def)
qed

theorem multicast_equals_udp_witness:
  "fst (mc_receiveMessages two_datagrams \<lparr>multicast_group = ''239.1.1.1'', mc_port = 9000, interface_ip = ''0.0.0.0'',
     mc_fd = 5, mc_busy_poll = True\<rparr> 4 []) = 2"
  using multicast_equals_udp [OF two_datagrams_same, of "\<lparr>udp_port = 9000, socket_fd = 5, busy_poll = True\<rparr>"
      "\<lparr>multicast_group = ''239.1.1.1'', mc_port = 9000, interface_ip = ''0.0.0.0'', mc_fd = 5, mc_busy_poll = True\<rparr>" 4 "[]" 0]
    two_datagrams_received [of "\<lparr>udp_port = 9000, socket_fd = 5, busy_poll = True\<rparr>"]
  by (simp add: same_socket_def split: prod.splits)

end
