(* ===== verification/Linux_Opts.thy ===== *)
theory Linux_Opts
  imports Kernel Cformat
begin

text \<open>
  \<open>include/utils/LinuxOptimizations.hpp\<close>: processor affinity, memory locking, real-time priority and the choice
  of a NUMA node, as sequences of system calls. \<open>numa\<close> says whether the program was compiled with the
  NUMA library (\<open>HFT_NUMA_AVAILABLE\<close>); the masks that the library allocates and frees are not modelled.
\<close>

section \<open>Processor sets\<close>

text \<open>\<open>CPU_ZERO\<close> and \<open>CPU_SET\<close>: the macro ignores a number that the set has no room for.\<close>

definition CPU_SETSIZE :: int where
  "CPU_SETSIZE = 1024"

definition cpu_set_of :: "int \<Rightarrow> nat set" where
  "cpu_set_of cpu = (if 0 \<le> cpu \<and> cpu < CPU_SETSIZE then {nat cpu} else {})"

section \<open>Single calls\<close>

definition succeeded :: "kernel \<Rightarrow> sys_call \<Rightarrow> trace \<Rightarrow> bool \<times> trace" where
  "succeeded os c tr = (let (r, tr1) = call os c tr in (ret r = 0, tr1))"

definition lockMemory :: "kernel \<Rightarrow> trace \<Rightarrow> bool \<times> trace" where
  "lockMemory os = succeeded os Mlockall"

definition setCpuAffinity :: "kernel \<Rightarrow> int \<Rightarrow> trace \<Rightarrow> bool \<times> trace" where
  "setCpuAffinity os cpu = succeeded os (Sched_setaffinity (cpu_set_of cpu))"

text \<open>Thread 0 is the calling one.\<close>

definition pinThreadToCpu :: "kernel \<Rightarrow> int \<Rightarrow> trace \<Rightarrow> bool \<times> trace" where
  "pinThreadToCpu os cpu = succeeded os (Pthread_setaffinity 0 (cpu_set_of cpu))"

definition pinOtherThreadToCpu :: "kernel \<Rightarrow> nat \<Rightarrow> int \<Rightarrow> trace \<Rightarrow> bool \<times> trace" where
  "pinOtherThreadToCpu os thread cpu = succeeded os (Pthread_setaffinity thread (cpu_set_of cpu))"

definition setRealtimePriority :: "kernel \<Rightarrow> int \<Rightarrow> trace \<Rightarrow> bool \<times> trace" where
  "setRealtimePriority os prio = succeeded os (Sched_fifo prio)"

definition enableHugePages :: bool where
  "enableHugePages = True"

definition setNetworkPriority :: bool where
  "setNetworkPriority = True"

definition getCpuCount :: "kernel \<Rightarrow> trace \<Rightarrow> int \<times> trace" where
  "getCpuCount os tr = (let (r, tr1) = call os Sysconf_cpus tr in (ret r, tr1))"

section \<open>NUMA nodes\<close>

text \<open>
  \<open>file >> node\<close>: leading white space is skipped; where nothing follows, or the file cannot be read, the
  variable keeps its indeterminate value. Otherwise the digits count, up to the limits of \<open>int\<close>, and
  a text without digits gives 0.
\<close>

definition is_space :: "char \<Rightarrow> bool" where
  "is_space c \<longleftrightarrow> c \<in> set [CHR '' '', CHR 0x09, CHR 0x0A, CHR 0x0B, CHR 0x0C, CHR 0x0D]"

definition decimal_digit :: "char \<Rightarrow> bool" where
  "decimal_digit c \<longleftrightarrow> 48 \<le> (of_char c :: nat) \<and> of_char c \<le> (57 :: nat)"

definition digits_value :: "string \<Rightarrow> int" where
  "digits_value ds = foldl (\<lambda>n c. 10 * n + (of_char c - 48)) 0 ds"

definition clamp_int :: "int \<Rightarrow> int" where
  "clamp_int n = max (- (2 ^ 31)) (min (2 ^ 31 - 1) n)"

definition stream_int :: "string \<Rightarrow> int res" where
  "stream_int text =
     (case dropWhile is_space text of
        [] \<Rightarrow> Inl Indeterminate
      | c # cs \<Rightarrow> Inr (clamp_int
          (if c = CHR ''-'' then - digits_value (takeWhile decimal_digit cs)
           else if c = CHR ''+'' then digits_value (takeWhile decimal_digit cs)
           else digits_value (takeWhile decimal_digit (c # cs)))))"

definition numa_usable :: "kernel \<Rightarrow> bool \<Rightarrow> trace \<Rightarrow> bool \<times> trace" where
  "numa_usable os numa tr =
     (if numa then let (r, tr1) = call os Numa_available tr in (0 \<le> ret r, tr1) else (False, tr))"

definition getNumaNode :: "kernel \<Rightarrow> bool \<Rightarrow> int \<Rightarrow> trace \<Rightarrow> (int \<times> trace) res" where
  "getNumaNode os numa cpu tr =
     (let (usable, tr1) = numa_usable os numa tr
      in if usable then let (r, tr2) = call os (Numa_node_of_cpu cpu) tr1 in Inr (ret r, tr2)
         else let (r, tr2) = call os (Open_file (''/sys/devices/system/cpu/cpu'' @ show_signed cpu @ ''/node0'')) tr1
              in if 0 \<le> ret r then andThen (stream_int (payload r)) (\<lambda>node. Inr (node, tr2)) else Inr (0, tr2))"

text \<open>The numbers below the number of possible processors that the mask has; without the library a guess.\<close>

definition getCpusOnNumaNode :: "kernel \<Rightarrow> bool \<Rightarrow> int \<Rightarrow> trace \<Rightarrow> (int list \<times> trace) res" where
  "getCpusOnNumaNode os numa node tr =
     (let (usable, tr1) = numa_usable os numa tr
      in if usable
         then let (r, tr2) = call os (Numa_node_to_cpus node) tr1
              in if ret r = 0
                 then let (n, tr3) = call os Numa_possible_cpus tr2
                      in Inr (filter (\<lambda>i. i \<in> set (ready r)) [0..ret n - 1], tr3)
                 else Inr ([], tr2)
         else let (r, tr2) = call os (Open_file (''/sys/devices/system/node/node'' @ show_signed node @ ''/cpulist'')) tr1
              in if 0 \<le> ret r
                 then if clamp_int (node * 8) = node * 8 then Inr ([node * 8], tr2) else Inl SignedOverflow
                 else Inr ([], tr2))"

text \<open>The address is 0 when there is no memory.\<close>

definition plain_malloc :: "kernel \<Rightarrow> nat \<Rightarrow> trace \<Rightarrow> int \<times> trace" where
  "plain_malloc os bytes tr = (let (r, tr1) = call os (Malloc bytes) tr in (ret r, tr1))"

definition allocateOnNumaNode :: "kernel \<Rightarrow> bool \<Rightarrow> nat \<Rightarrow> int \<Rightarrow> trace \<Rightarrow> int \<times> trace" where
  "allocateOnNumaNode os numa bytes node tr =
     (let (usable, tr1) = numa_usable os numa tr
      in if usable
         then let (r, tr2) = call os (Numa_alloc bytes node) tr1
              in if ret r \<noteq> 0 then (ret r, tr2) else plain_malloc os bytes tr2
         else plain_malloc os bytes tr1)"

definition setMemoryPolicy :: "kernel \<Rightarrow> bool \<Rightarrow> int \<Rightarrow> trace \<Rightarrow> bool \<times> trace" where
  "setMemoryPolicy os numa node tr =
     (let (usable, tr1) = numa_usable os numa tr
      in if usable then succeeded os (Set_mempolicy node) tr1 else (False, tr1))"

definition bindThreadToNumaNode :: "kernel \<Rightarrow> bool \<Rightarrow> int \<Rightarrow> trace \<Rightarrow> (bool \<times> trace) res" where
  "bindThreadToNumaNode os numa node tr =
     andThen (getCpusOnNumaNode os numa node tr) (\<lambda>(cpus, tr1).
       case cpus of
         [] \<Rightarrow> Inr (False, tr1)
       | cpu # _ \<Rightarrow> Inr (pinThreadToCpu os cpu tr1))"

section \<open>All optimisations\<close>

definition prepare_numa :: "kernel \<Rightarrow> bool \<Rightarrow> int \<Rightarrow> trace \<Rightarrow> trace res" where
  "prepare_numa os numa cpu tr =
     andThen (getNumaNode os numa cpu tr) (\<lambda>(node, tr1).
       andThen (bindThreadToNumaNode os numa node (snd (setMemoryPolicy os numa node tr1))) (\<lambda>(_, tr2). Inr tr2))"

definition initializeHftOptimizations ::
  "kernel \<Rightarrow> bool \<Rightarrow> int \<Rightarrow> int \<Rightarrow> bool \<Rightarrow> trace \<Rightarrow> (bool \<times> trace) res" where
  "initializeHftOptimizations os numa cpu prio numa_aware tr =
     (let (_, tr1) = lockMemory os tr
      in andThen (if numa_aware then prepare_numa os numa cpu tr1 else Inr tr1) (\<lambda>tr2.
           let (pinned, tr3) = setCpuAffinity os cpu tr2;
               (_, tr4) = pinThreadToCpu os cpu tr3;
               (_, tr5) = setRealtimePriority os prio tr4
           in Inr (pinned, tr5)))"

text \<open>
  Without the NUMA library the node number is read from \<open>.../cpuN/node0\<close>, which in sysfs is a directory: it can
  be opened but not read, and then the function returns an indeterminate value.
\<close>

lemma unreadable_node_file:
  assumes "0 \<le> ret (os tr (Open_file (''/sys/devices/system/cpu/cpu'' @ show_signed cpu @ ''/node0'')))"
    and "payload (os tr (Open_file (''/sys/devices/system/cpu/cpu'' @ show_signed cpu @ ''/node0''))) = []"
  shows "getNumaNode os False cpu tr = Inl Indeterminate"
  using assms by (simp add: getNumaNode_def numa_usable_def call_eq stream_int_def Let_def)

section \<open>What the initialisation achieves\<close>

text \<open>The calls that restrict the processors, and what they ask for.\<close>

definition affinity_call :: "sys_call \<times> answer \<Rightarrow> (sys_call \<times> bool) option" where
  "affinity_call e = (case e of
      (Sched_setaffinity _, r) \<Rightarrow> Some (fst e, ret r = 0)
    | (Pthread_setaffinity _ _, r) \<Rightarrow> Some (fst e, ret r = 0)
    | _ \<Rightarrow> None)"

definition memory_lock :: "sys_call \<times> answer \<Rightarrow> bool option" where
  "memory_lock e = (case e of (Mlockall, r) \<Rightarrow> Some (ret r = 0) | _ \<Rightarrow> None)"

lemmas linux_defs = succeeded_def call_eq Let_def

text \<open>From \<open>tr\<close> to \<open>tr'\<close> no call locked memory and at most \<open>n\<close> calls restricted processors.\<close>

definition calm :: "nat \<Rightarrow> trace \<Rightarrow> trace \<Rightarrow> bool" where
  "calm n tr tr' \<longleftrightarrow>
     (\<exists>new. tr' = tr @ new \<and> events memory_lock new = [] \<and> length (events affinity_call new) \<le> n)"

lemma calm_refl [simp]: "calm n tr tr"
  by (simp add: calm_def)

lemma calm_call: "memory_lock (c, r) = None \<Longrightarrow> affinity_call (c, r) = None \<Longrightarrow> calm n tr (tr @ [(c, r)])"
  by (simp add: calm_def)

lemma calm_trans:
  assumes "calm m tr tr'" and "calm n tr' tr''"
  shows "calm (m + n) tr tr''"
proof -
  obtain new where "tr' = tr @ new" "events memory_lock new = []" "length (events affinity_call new) \<le> m"
    using assms(1) by (auto simp: calm_def)
  moreover obtain new' where "tr'' = tr' @ new'" "events memory_lock new' = []" "length (events affinity_call new') \<le> n"
    using assms(2) by (auto simp: calm_def)
  ultimately show ?thesis unfolding calm_def by (intro exI [of _ "new @ new'"]) simp
qed

lemma calm_step: "calm n tr tr' \<Longrightarrow> memory_lock (c, r) = None \<Longrightarrow> affinity_call (c, r) = None \<Longrightarrow>
    calm n tr (tr' @ [(c, r)])"
  using calm_trans [of n tr tr' 0 "tr' @ [(c, r)]"] calm_call [of c r 0 tr'] by simp

lemma calm_step2:
  assumes "calm n tr tr'" and "memory_lock (c, r) = None" and "affinity_call (c, r) = None"
    and "memory_lock (c', r') = None" and "affinity_call (c', r') = None"
  shows "calm n tr (tr' @ [(c, r), (c', r')])"
  using calm_step [OF calm_step [OF assms(1-3)] assms(4,5)] by simp

lemma quiet_calls [simp]:
  "memory_lock (Numa_available, r) = None" "affinity_call (Numa_available, r) = None"
  "memory_lock (Numa_node_of_cpu i, r) = None" "affinity_call (Numa_node_of_cpu i, r) = None"
  "memory_lock (Numa_node_to_cpus i, r) = None" "affinity_call (Numa_node_to_cpus i, r) = None"
  "memory_lock (Numa_possible_cpus, r) = None" "affinity_call (Numa_possible_cpus, r) = None"
  "memory_lock (Open_file f, r) = None" "affinity_call (Open_file f, r) = None"
  "memory_lock (Set_mempolicy i, r) = None" "affinity_call (Set_mempolicy i, r) = None"
  "memory_lock (Sched_fifo i, r) = None" "affinity_call (Sched_fifo i, r) = None"
  "memory_lock (Pthread_setaffinity t S, r) = None" "memory_lock (Sched_setaffinity S, r) = None"
  "affinity_call (Mlockall, r) = None" "memory_lock (Mlockall, r) = Some (ret r = 0)"
  by (simp_all add: memory_lock_def affinity_call_def)

lemma numa_usable_calm: "numa_usable os numa tr = (u, tr') \<Longrightarrow> calm 0 tr tr'"
  by (auto simp: numa_usable_def linux_defs calm_call split: if_splits)

lemma getNumaNode_calm: "getNumaNode os numa cpu tr = Inr (node, tr') \<Longrightarrow> calm 0 tr tr'"
  using numa_usable_calm [of os numa tr]
  by (auto simp: getNumaNode_def linux_defs andThen_eq_Inr_iff calm_step split: prod.splits if_splits)

lemma setMemoryPolicy_calm: "calm 0 tr (snd (setMemoryPolicy os numa node tr))"
  using numa_usable_calm [of os numa tr]
  by (auto simp: setMemoryPolicy_def linux_defs calm_step split: prod.splits)

lemma getCpus_calm: "getCpusOnNumaNode os numa node tr = Inr (cpus, tr') \<Longrightarrow> calm 0 tr tr'"
  using numa_usable_calm [of os numa tr]
  by (auto simp: getCpusOnNumaNode_def linux_defs calm_step calm_step2 split: prod.splits if_splits)

lemma bindThread_calm: "bindThreadToNumaNode os numa node tr = Inr (ok, tr') \<Longrightarrow> calm 1 tr tr'"
proof -
  assume "bindThreadToNumaNode os numa node tr = Inr (ok, tr')"
  then obtain cpus tr1 where 1: "getCpusOnNumaNode os numa node tr = Inr (cpus, tr1)"
    "(case cpus of [] \<Rightarrow> Inr (False, tr1) | cpu # _ \<Rightarrow> Inr (pinThreadToCpu os cpu tr1)) = (Inr (ok, tr') :: (bool \<times> trace) res)"
    by (auto simp: bindThreadToNumaNode_def andThen_eq_Inr_iff)
  have "calm 1 tr1 tr'"
    using 1(2) by (auto simp: pinThreadToCpu_def linux_defs calm_def affinity_call_def split: list.splits)
  then show ?thesis using calm_trans [OF getCpus_calm [OF 1(1)]] by fastforce
qed

lemma prepare_numa_calm:
  assumes "prepare_numa os numa cpu tr = Inr tr'"
  shows "calm 1 tr tr'"
proof -
  obtain node tr1 ok where 1: "getNumaNode os numa cpu tr = Inr (node, tr1)"
    "bindThreadToNumaNode os numa node (snd (setMemoryPolicy os numa node tr1)) = Inr (ok, tr')"
    using assms by (auto simp: prepare_numa_def andThen_eq_Inr_iff)
  have "calm (0 + 1) (snd (setMemoryPolicy os numa node tr1)) tr'" using bindThread_calm [OF 1(2)] by simp
  with setMemoryPolicy_calm have "calm (0 + (0 + 1)) tr1 tr'" by (rule calm_trans)
  with getNumaNode_calm [OF 1(1)] have "calm (0 + (0 + (0 + 1))) tr tr'" by (rule calm_trans)
  then show ?thesis by simp
qed

text \<open>\<open>initializeHftOptimizations\<close> reports exactly whether \<open>sched_setaffinity\<close> for the requested processor succeeded.
  The last two calls that restrict processors are for that processor, whatever the binding to a NUMA
  node did before. The memory is locked with one call, whose failure the result does not show.\<close>

theorem initialize_reports_affinity:
  assumes "initializeHftOptimizations os numa cpu prio numa_aware tr = Inr (ok, tr')"
  shows "\<exists>new locked before pinned. tr' = tr @ new \<and> events memory_lock new = [locked] \<and> length before \<le> 1 \<and>
    events affinity_call new = before @
      [(Sched_setaffinity (cpu_set_of cpu), ok), (Pthread_setaffinity 0 (cpu_set_of cpu), pinned)]"
proof -
  let ?tr1 = "tr @ [(Mlockall, os tr Mlockall)]"
  obtain tr2 where tr2: "(if numa_aware then prepare_numa os numa cpu ?tr1 else Inr ?tr1) = Inr tr2"
    and res: "(let (pinned, tr3) = setCpuAffinity os cpu tr2; (_, tr4) = pinThreadToCpu os cpu tr3;
        (_, tr5) = setRealtimePriority os prio tr4 in Inr (pinned, tr5)) = (Inr (ok, tr') :: (bool \<times> trace) res)"
    using assms by (auto simp: initializeHftOptimizations_def lockMemory_def linux_defs andThen_eq_Inr_iff)
  have "calm 1 ?tr1 tr2" using tr2 prepare_numa_calm by (cases numa_aware) auto
  then obtain new where "tr2 = ?tr1 @ new" "events memory_lock new = []" "length (events affinity_call new) \<le> 1"
    by (auto simp: calm_def)
  then show ?thesis
    using res by (intro exI [of _ "drop (length tr) tr'"])
      (auto simp: setCpuAffinity_def pinThreadToCpu_def setRealtimePriority_def linux_defs affinity_call_def memory_lock_def)
qed

text \<open>A system on which only the processor of the caller may be chosen: nothing else succeeds.\<close>

definition unprivileged :: kernel where
  "unprivileged _ c = \<lparr>ret = (case c of Sched_setaffinity _ \<Rightarrow> 0 | _ \<Rightarrow> - 1), errno = 1, payload = [], sender = [], ready = []\<rparr>"

lemma unprivileged_initialize:
  obtains tr where "initializeHftOptimizations unprivileged False 0 50 True [] = Inr (True, tr)"
    and "events memory_lock tr = [False]"
  by (simp add: initializeHftOptimizations_def lockMemory_def prepare_numa_def getNumaNode_def numa_usable_def
      setMemoryPolicy_def bindThreadToNumaNode_def getCpusOnNumaNode_def setCpuAffinity_def pinThreadToCpu_def
      setRealtimePriority_def linux_defs unprivileged_def memory_lock_def)

theorem initialize_reports_affinity_witness:
  "\<exists>tr before pinned. initializeHftOptimizations unprivileged False 0 50 True [] = Inr (True, tr) \<and>
    events memory_lock tr = [False] \<and>
    events affinity_call tr = before @ [(Sched_setaffinity {0}, True), (Pthread_setaffinity 0 {0}, pinned)]"
proof -
  obtain tr where tr: "initializeHftOptimizations unprivileged False 0 50 True [] = Inr (True, tr)"
    "events memory_lock tr = [False]" by (rule unprivileged_initialize)
  with initialize_reports_affinity [OF tr(1)] show ?thesis by (auto simp: cpu_set_of_def CPU_SETSIZE_def)
qed

end
