(* ===== verification/Main_Setup.thy ===== *)
theory Main_Setup
  imports Linux_Opts Main_Output
begin

text \<open>
  The part of \<open>src/main.cpp\<close> that tunes the system: which calls stand behind the lines about it in the log. The
  statements of \<open>Main_Session\<close> take the two answers as parameters.
\<close>

text \<open>\<open>initializeHftOptimizations(0, 50)\<close> and, after the lines about it, \<open>getCpuCount()\<close>.\<close>

definition optimize_system :: "kernel \<Rightarrow> bool \<Rightarrow> trace \<Rightarrow> (bool \<times> int \<times> trace) res" where
  "optimize_system os numa tr =
     andThen (initializeHftOptimizations os numa 0 50 True tr) (\<lambda>(optimized, tr1).
       let (cpu_count, tr2) = getCpuCount os tr1 in Inr (optimized, cpu_count, tr2))"

abbreviation affinity_line :: string where
  "affinity_line \<equiv> ''  '' @ check_mark @ '' CPU affinity set''"

abbreviation locked_line :: string where
  "locked_line \<equiv> ''  '' @ check_mark @ '' Memory locked''"

text \<open>What the set-up has logged, and whether one of the two lines is among it.\<close>

lemma stored_setup:
  "map stored_text (setup_texts optimized n) =
     butlast (setup_texts optimized n) @ [stored_text (''  CPU cores: '' @ show_signed n)]"
  by (simp add: setup_texts_def check_mark_def warning_sign_def banner_def stored_text_def c_str_def)

lemma stored_setup_claims:
  "affinity_line \<in> set (map stored_text (setup_texts optimized n)) \<longleftrightarrow> optimized"
  "locked_line \<in> set (map stored_text (setup_texts optimized n)) \<longleftrightarrow> optimized"
  "last (map stored_text (setup_texts optimized n)) = stored_text (''  CPU cores: '' @ show_signed n)"
  unfolding stored_setup
  by (simp_all add: setup_texts_def check_mark_def warning_sign_def banner_def stored_text_def c_str_def)

lemma setup_logs:
  assumes "clocks_ok c" and "opens ''market_engine.log''" and "0 \<le> ival lf0"
    and "statements_of es = map always (setup_actions opens optimized cpu_count tid)"
  obtains s lf written where "run_schedule lt es (main_start N b h c out, lf0) = Some (Inr (s, lf))"
    and "files (sink (logger_of (engine s))) ''market_engine.log'' = files out ''market_engine.log'' @ lines lt written"
    and "map message (written @ pending (logger_of (engine s))) = map stored_text (setup_texts optimized cpu_count)"
proof -
  from leads_setup [where opens = opens, OF assms(1,2)] assms(4) refl assms(3) obtain s lf where
    run: "run_schedule lt es (main_start N b h c out, lf0) = Some (Inr (s, lf))"
    and sc: "scene lt (market_log out) (at_stage c N 0 {([], [])} {}) (setup_texts optimized cpu_count) s"
    by (rule leadsE)
  from sc obtain written where w: "sink (logger_of (engine s)) = emit lt written (market_log out)"
    "map message (written @ pending (logger_of (engine s))) = map stored_text (setup_texts optimized cpu_count)"
    by (auto simp only: scene_def told_def Let_def)
  show thesis by (rule that [OF run _ w(2)]) (simp only: w(1) market_log_written)
qed

text \<open>C39: What \<open>main\<close> logs about the system, against the calls that were made. Run the statements of the set-up with the
  answers that the calls gave, with turns of the logger's thread between them as it likes: in what is written to
  the log file or still queued, the line about the affinity is there exactly if \<open>sched_setaffinity\<close> for processor
  0 succeeded, and the last two restrictions of the processors are for processor 0, whatever the binding to a NUMA
  node did before; the last line has the number of processors, which is the answer of \<open>sysconf\<close>. The line that
  the memory is locked appears under the condition of the affinity, not under that of the one call that
  locks memory. The log file is taken to open.\<close>

theorem main_reports_the_system:
  assumes "optimize_system os numa [] = Inr (optimized, cpu_count, tr)"
    and "clocks_ok c" and "opens ''market_engine.log''" and "0 \<le> ival last_flush"
    and "statements_of es = map always (setup_actions opens optimized cpu_count tid)"
  shows "\<exists>locked before pinned r new s last_flush' written msgs.
    tr = new @ [(Sysconf_cpus, r)] \<and> ret r = cpu_count \<and>
    events affinity_call tr = before @ [(Sched_setaffinity {0}, optimized), (Pthread_setaffinity 0 {0}, pinned)] \<and>
    length before \<le> 1 \<and> events memory_lock tr = [locked] \<and>
    run_schedule localtime es (main_start N b h c out, last_flush) = Some (Inr (s, last_flush')) \<and>
    files (sink (logger_of (engine s))) ''market_engine.log'' =
      files out ''market_engine.log'' @ lines localtime written \<and>
    msgs = map message (written @ pending (logger_of (engine s))) \<and>
    (affinity_line \<in> set msgs \<longleftrightarrow> optimized) \<and> (locked_line \<in> set msgs \<longleftrightarrow> optimized) \<and>
    last msgs = stored_text (''  CPU cores: '' @ show_signed cpu_count)"
proof -
  obtain tr1 where init: "initializeHftOptimizations os numa 0 50 True [] = Inr (optimized, tr1)"
    and count: "getCpuCount os tr1 = (cpu_count, tr)"
    using assms(1) by (auto simp: optimize_system_def andThen_eq_Inr_iff split: prod.splits)
  obtain new locked before pinned where e: "tr1 = [] @ new" "events memory_lock new = [locked]" "length before \<le> 1"
    "events affinity_call new = before @
      [(Sched_setaffinity (cpu_set_of 0), optimized), (Pthread_setaffinity 0 (cpu_set_of 0), pinned)]"
    using initialize_reports_affinity [OF init] by blast
  have t: "tr = new @ [(Sysconf_cpus, os new Sysconf_cpus)]" "ret (os new Sysconf_cpus) = cpu_count"
    using count e(1) by (simp_all add: getCpuCount_def call_eq Let_def)
  have cpu: "cpu_set_of 0 = {0}" by (simp add: cpu_set_of_def CPU_SETSIZE_def)
  have none: "memory_lock (Sysconf_cpus, r) = None" "affinity_call (Sysconf_cpus, r) = None" for r
    by (simp_all add: memory_lock_def affinity_call_def)
  obtain s lf written where log: "run_schedule localtime es (main_start N b h c out, last_flush) = Some (Inr (s, lf))"
    "files (sink (logger_of (engine s))) ''market_engine.log'' = files out ''market_engine.log'' @ lines localtime written"
    "map message (written @ pending (logger_of (engine s))) = map stored_text (setup_texts optimized cpu_count)"
    using assms(2-5) by (rule setup_logs)
  have kernel: "events affinity_call tr = before @ [(Sched_setaffinity {0}, optimized), (Pthread_setaffinity 0 {0}, pinned)]"
    "events memory_lock tr = [locked]"
    using e(2,4) t(1) cpu none by simp_all
  show ?thesis
    using t kernel e(3) log(1,2) stored_setup_claims [of optimized cpu_count, folded log(3)]
    by (intro exI conjI) (assumption | rule refl)+
qed

text \<open>On a system where only the affinity may be chosen, \<open>main\<close> logs that the memory is locked.\<close>

theorem main_reports_the_system_witness:
  "\<exists>tr s lf written. optimize_system unprivileged False [] = Inr (True, -1, tr) \<and> events memory_lock tr = [False] \<and>
    run_schedule test_calendar (map (Statement \<circ> always) (setup_actions (\<lambda>_. True) True (-1) 1))
      (main_start 1024 4096 (\<lambda>_. None) example_clocks example_output, 0) = Some (Inr (s, lf)) \<and>
    files (sink (logger_of (engine s))) ''market_engine.log'' = lines test_calendar written \<and>
    locked_line \<in> set (map message (written @ pending (logger_of (engine s))))"
proof -
  obtain tr where "initializeHftOptimizations unprivileged False 0 50 True [] = Inr (True, tr)"
    "events memory_lock tr = [False]" by (rule unprivileged_initialize)
  then have run: "optimize_system unprivileged False [] = Inr (True, -1, tr @ [(Sysconf_cpus, unprivileged tr Sysconf_cpus)])"
    "events memory_lock (tr @ [(Sysconf_cpus, unprivileged tr Sysconf_cpus)]) = [False]"
    by (simp_all add: optimize_system_def getCpuCount_def call_eq Let_def unprivileged_def memory_lock_def)
  have st: "statements_of (map (Statement \<circ> always) as) = map always as" for as
    by (induction as) simp_all
  have "files example_output ''market_engine.log'' = []" by (simp add: example_output_def)
  moreover have "0 \<le> ival 0" by simp
  from main_reports_the_system [where opens = "\<lambda>_. True", OF run(1) example_clocks_ok TrueI this st]
  obtain s lf written where
    "run_schedule test_calendar (map (Statement \<circ> always) (setup_actions (\<lambda>_. True) True (-1) 1))
      (main_start 1024 4096 (\<lambda>_. None) example_clocks example_output, 0) = Some (Inr (s, lf))"
    "files (sink (logger_of (engine s))) ''market_engine.log'' = files example_output ''market_engine.log'' @ lines test_calendar written"
    "locked_line \<in> set (map message (written @ pending (logger_of (engine s))))" by metis
  ultimately show ?thesis using run by (intro exI conjI) (assumption | simp only: append_Nil)+
qed

end
