(* ===== verification/Bench_Stats.thy ===== *)
theory Bench_Stats
  imports Float_Rank Float_Format Timestamp
begin

text \<open>
  \<open>include/utils/Benchmark.hpp\<close>: statistics of latency measurements, and the helper that takes them. The
  length of a vector is a natural number here; \<open>size_t\<close> holds it.
\<close>

section \<open>Statistics\<close>

record latency_stats =
  min_us :: i64
  max_us :: i64
  mean_us :: float64
  median_us :: float64
  p50_us :: float64
  p90_us :: float64
  p95_us :: float64
  p99_us :: float64
  p99_9_us :: float64
  sample_count :: nat

definition LatencyStats_default :: latency_stats where
  "LatencyStats_default = \<lparr>min_us = 0, max_us = 0, mean_us = 0, median_us = 0, p50_us = 0, p90_us = 0,
     p95_us = 0, p99_us = 0, p99_9_us = 0, sample_count = 0\<rparr>"

text \<open>\<open>std::accumulate\<close> with a \<open>long long\<close>.\<close>

primrec accumulate :: "i64 \<Rightarrow> i64 list \<Rightarrow> i64 res" where
  "accumulate acc [] = Inr acc"
| "accumulate acc (x # xs) = andThen (i64_add acc x) (\<lambda>s. accumulate s xs)"

definition float_of_i64 :: "i64 \<Rightarrow> float64" where
  "float_of_i64 x = float_of_int (ival x)"

definition median :: "i64 list \<Rightarrow> float64 res" where
  "median samples =
     (let mid = length samples div 2
      in if length samples mod 2 = 0
         then andThen (i64_add (samples ! (mid - 1)) (samples ! mid)) (\<lambda>s. Inr (fdiv (float_of_i64 s) 2))
         else Inr (float_of_i64 (samples ! mid)))"

text \<open>The index is truncated from a product of two doubles.\<close>

definition percentile :: "i64 list \<Rightarrow> float64 \<Rightarrow> float64" where
  "percentile samples p =
     (let n = length samples;
          idx = nat (trunc_float (fmul p (float_of_int (int n))));
          idx' = (if n \<le> idx then n - 1 else idx)
      in float_of_i64 (samples ! idx'))"

definition calculateStats :: "i64 list \<Rightarrow> latency_stats res" where
  "calculateStats latencies =
     (if latencies = [] then Inr LatencyStats_default
      else let samples = sort latencies
           in andThen (accumulate 0 samples) (\<lambda>total.
                andThen (median samples) (\<lambda>med.
                  Inr \<lparr>min_us = hd samples, max_us = last samples,
                    mean_us = fdiv (float_of_i64 total) (float_of_int (int (length samples))),
                    median_us = med,
                    p50_us = percentile samples (fround (1 / 2)), p90_us = percentile samples (fround (9 / 10)),
                    p95_us = percentile samples (fround (19 / 20)), p99_us = percentile samples (fround (99 / 100)),
                    p99_9_us = percentile samples (fround (999 / 1000)), sample_count = length latencies\<rparr>)))"

text \<open>The text that \<open>print\<close> writes; the unit is the two bytes of the Greek letter and \<open>s\<close>.\<close>

definition microseconds :: string where
  "microseconds = '' '' @ [CHR 0xCE, CHR 0xBC] @ ''s'' @ [CHR 0x0A]"

definition print_stats :: "latency_stats \<Rightarrow> string" where
  "print_stats st =
     ''Latency Statistics (microseconds):'' @ [CHR 0x0A] @
     ''  Count:     '' @ show_unsigned (sample_count st) @ [CHR 0x0A] @
     ''  Min:       '' @ show_signed (ival (min_us st)) @ microseconds @
     ''  Max:       '' @ show_signed (ival (max_us st)) @ microseconds @
     ''  Mean:      '' @ show_fixed2 (mean_us st) @ microseconds @
     ''  Median:    '' @ show_fixed2 (median_us st) @ microseconds @
     ''  P50:       '' @ show_fixed2 (p50_us st) @ microseconds @
     ''  P90:       '' @ show_fixed2 (p90_us st) @ microseconds @
     ''  P95:       '' @ show_fixed2 (p95_us st) @ microseconds @
     ''  P99:       '' @ show_fixed2 (p99_us st) @ microseconds @
     ''  P99.9:     '' @ show_fixed2 (p99_9_us st) @ microseconds"

section \<open>The benchmark helper\<close>

record benchmark =
  bench_name :: string
  bench_start :: i64
  latencies :: "i64 list"

definition Benchmark_new :: "string \<Rightarrow> benchmark" where
  "Benchmark_new name = \<lparr>bench_name = name, bench_start = 0, latencies = []\<rparr>"

definition bench_begin :: "benchmark \<Rightarrow> clocks \<Rightarrow> (benchmark \<times> clocks) res" where
  "bench_begin b c = andThen (getMonotonicNs c) (\<lambda>(t, c'). Inr (b\<lparr>bench_start := t\<rparr>, c'))"

definition bench_stop :: "benchmark \<Rightarrow> clocks \<Rightarrow> (benchmark \<times> clocks) res" where
  "bench_stop b c =
     andThen (getMonotonicNs c) (\<lambda>(t, c').
       andThen (i64_sub t (bench_start b)) (\<lambda>d.
         Inr (b\<lparr>latencies := latencies b @ [i64_quot d 1000]\<rparr>, c')))"

definition bench_getStats :: "benchmark \<Rightarrow> latency_stats res" where
  "bench_getStats b = calculateStats (latencies b)"

definition bench_printResults :: "benchmark \<Rightarrow> string res" where
  "bench_printResults b =
     andThen (bench_getStats b) (\<lambda>st.
       Inr ([CHR 0x0A] @ ''=== Benchmark: '' @ bench_name b @ '' ==='' @ [CHR 0x0A] @ print_stats st @ [CHR 0x0A]))"

definition bench_reset :: "benchmark \<Rightarrow> benchmark" where
  "bench_reset b = b\<lparr>latencies := []\<rparr>"

section \<open>Percentiles\<close>

lemma percentile_rank:
  assumes "fine_fraction a b p" and "samples \<noteq> []" and "length samples < 2 ^ 40"
  shows "percentile samples p = float_of_i64 (samples ! (a * length samples div b))"
    and "a * length samples div b < length samples"
proof -
  let ?n = "length samples"
  have "float_of_int (int ?n) = of_nat ?n"
    using fround_int [of "int ?n"] assms(3) by (simp add: float_of_int_def)
  then have "trunc_float (fmul p (float_of_int (int ?n))) = int (a * ?n div b)"
    using rank_exact [OF assms(1,3)] by (simp add: fmul_def)
  moreover have "a < b" using assms(1) by (simp add: fine_fraction_def)
  then show less: "a * ?n div b < ?n"
    using assms(2) by (simp add: div_less_iff_less_mult mult.commute)
  ultimately show "percentile samples p = float_of_i64 (samples ! (a * ?n div b))"
    by (simp add: percentile_def Let_def)
qed

lemma calculateStats_cases:
  assumes "calculateStats xs = Inr st" and "xs \<noteq> []"
  obtains total med where "accumulate 0 (sort xs) = Inr total" and "median (sort xs) = Inr med"
    and "min_us st = hd (sort xs)" and "max_us st = last (sort xs)"
    and "p50_us st = percentile (sort xs) (fround (1 / 2))" and "p90_us st = percentile (sort xs) (fround (9 / 10))"
    and "p95_us st = percentile (sort xs) (fround (19 / 20))" and "p99_us st = percentile (sort xs) (fround (99 / 100))"
    and "p99_9_us st = percentile (sort xs) (fround (999 / 1000))" and "sample_count st = length xs"
    and "median_us st = med" and "mean_us st = fdiv (float_of_i64 total) (float_of_int (int (length xs)))"
  using assms by (auto simp: calculateStats_def Let_def andThen_eq_Inr_iff)

section \<open>Absence of overflow\<close>

lemma sum_insort: "sum_list (map f (insort x xs)) = (f x + sum_list (map f xs) :: int)"
  by (induction xs) simp_all

lemma sum_sort: "sum_list (map f (sort xs)) = (sum_list (map f xs) :: int)"
  by (induction xs) (simp_all add: sum_insort)

lemma accumulate_exact:
  assumes "\<bar>ival acc\<bar> + sum_list (map (\<lambda>x. \<bar>ival x\<bar>) xs) < 2 ^ 62"
  shows "\<exists>s. accumulate acc xs = Inr s \<and> ival s = ival acc + sum_list (map ival xs)"
  using assms
proof (induction xs arbitrary: acc)
  case (Cons x xs)
  have nonneg: "0 \<le> sum_list (map (\<lambda>x. \<bar>ival x\<bar>) xs)" by (induction xs) simp_all
  then have "\<bar>ival acc\<bar> + \<bar>ival x\<bar> \<le> 2 ^ 62" using Cons.prems by simp
  then have "in_i64 (ival acc + ival x)" by (intro in_i64_small order_trans [OF abs_triangle_ineq])
  moreover from this have "\<bar>ival (i64_of (ival acc + ival x))\<bar> + sum_list (map (\<lambda>x. \<bar>ival x\<bar>) xs) < 2 ^ 62"
    using Cons.prems abs_triangle_ineq [of "ival acc" "ival x"] by simp
  ultimately show ?case using Cons.IH [of "i64_of (ival acc + ival x)"] by (auto simp: i64_add_def)
qed simp

lemma median_total:
  assumes "xs \<noteq> []" and "\<And>x. x \<in> set xs \<Longrightarrow> \<bar>ival x\<bar> < 2 ^ 53"
  shows "\<exists>med. median xs = Inr med"
proof -
  have "length xs div 2 < length xs" using assms(1) by simp
  then have "xs ! (length xs div 2 - 1) \<in> set xs" "xs ! (length xs div 2) \<in> set xs" by simp_all
  then have "\<bar>ival (xs ! (length xs div 2 - 1))\<bar> < 2 ^ 53" "\<bar>ival (xs ! (length xs div 2))\<bar> < 2 ^ 53"
    using assms(2) by blast+
  then have "in_i64 (ival (xs ! (length xs div 2 - 1)) + ival (xs ! (length xs div 2)))"
    by (intro in_i64_small order_trans [OF abs_triangle_ineq]) simp
  then show ?thesis by (simp add: median_def Let_def i64_add_def)
qed

lemma calculateStats_total:
  assumes "xs \<noteq> []" and "sum_list (map (\<lambda>x. \<bar>ival x\<bar>) xs) < 2 ^ 62"
    and "\<And>x. x \<in> set xs \<Longrightarrow> \<bar>ival x\<bar> < 2 ^ 53"
  obtains st where "calculateStats xs = Inr st"
proof -
  have "sort xs \<noteq> []" using assms(1) by (simp flip: length_greater_0_conv)
  then obtain med where "median (sort xs) = Inr med" using median_total [of "sort xs"] assms(3) by auto
  moreover obtain total where "accumulate 0 (sort xs) = Inr total"
    using accumulate_exact [of 0 "sort xs"] assms(2) by (auto simp: sum_sort)
  ultimately show thesis using that assms(1) by (simp add: calculateStats_def Let_def)
qed

lemma float_of_i64_exact: "\<bar>ival x\<bar> < 2 ^ 53 \<Longrightarrow> float_of_i64 x = of_int (ival x)"
  by (simp add: float_of_i64_def float_of_int_def fround_int)

lemma three_samples:
  "[i64_of 30, i64_of 10, i64_of 20] \<noteq> []" "length [i64_of 30, i64_of 10, i64_of 20] < 2 ^ 40"
  "sum_list (map (\<lambda>x. \<bar>ival x\<bar>) [i64_of 30, i64_of 10, i64_of 20]) < 2 ^ 62"
  "x \<in> set [i64_of 30, i64_of 10, i64_of 20] \<Longrightarrow> \<bar>ival x\<bar> < 2 ^ 53"
proof -
  have v: "ival (i64_of 30) = 30" "ival (i64_of 10) = 10" "ival (i64_of 20) = 20" by (simp_all add: in_i64_def)
  show "[i64_of 30, i64_of 10, i64_of 20] \<noteq> []" "length [i64_of 30, i64_of 10, i64_of 20] < 2 ^ 40"
    "sum_list (map (\<lambda>x. \<bar>ival x\<bar>) [i64_of 30, i64_of 10, i64_of 20]) < 2 ^ 62"
    "x \<in> set [i64_of 30, i64_of 10, i64_of 20] \<Longrightarrow> \<bar>ival x\<bar> < 2 ^ 53"
    by (auto simp: v)
qed

section \<open>Exact percentiles\<close>

text \<open>C33: In spite of two roundings per percentile the statistics equal their definition on exact numbers: the
  percentile of a fraction \<open>p\<close> is the sample whose rank in the sorted list, counted from 0, is \<open>p n\<close> rounded
  down, for up to \<open>2 ^ 40\<close> samples. The clamp of the index is never needed.\<close>

theorem percentiles_exact:
  assumes "calculateStats xs = Inr st" and "xs \<noteq> []" and "length xs < 2 ^ 40"
  shows "p50_us st = float_of_i64 (sort xs ! (length xs div 2)) \<and>
    p90_us st = float_of_i64 (sort xs ! (9 * length xs div 10)) \<and>
    p95_us st = float_of_i64 (sort xs ! (19 * length xs div 20)) \<and>
    p99_us st = float_of_i64 (sort xs ! (99 * length xs div 100)) \<and>
    p99_9_us st = float_of_i64 (sort xs ! (999 * length xs div 1000))"
proof -
  have "sort xs \<noteq> []" "length (sort xs) < 2 ^ 40" using assms(2,3) by (simp_all flip: length_greater_0_conv)
  note rank = percentile_rank(1) [OF _ this]
  show ?thesis
    using assms(1,2)
    by (rule calculateStats_cases) (simp add: rank [OF fine_fractions(1)] rank [OF fine_fractions(2)]
        rank [OF fine_fractions(3)] rank [OF fine_fractions(4)] rank [OF fine_fractions(5)])
qed

theorem percentiles_exact_witness:
  "\<exists>st. calculateStats [i64_of 30, i64_of 10, i64_of 20] = Inr st \<and> p99_us st = float_of_i64 (i64_of 30)"
proof -
  have v: "ival (i64_of 30) = 30" "ival (i64_of 10) = 10" "ival (i64_of 20) = 20" by (simp_all add: in_i64_def)
  obtain st where st: "calculateStats [i64_of 30, i64_of 10, i64_of 20] = Inr st"
    by (rule calculateStats_total [OF three_samples(1,3,4)])
  from percentiles_exact [OF this] show ?thesis by (simp add: st less_eq_i64_def v)
qed

section \<open>Order of the statistics\<close>

lemma sorted_map_ranks:
  assumes "sorted ks" and "\<And>i j. i \<le> j \<Longrightarrow> j < (n :: nat) \<Longrightarrow> f i \<le> (f j :: 'b :: linorder)" and "\<And>i. i \<in> set ks \<Longrightarrow> i < n"
  shows "sorted (map f ks)"
  using assms(1,3) by (induction ks) (auto intro: assms(2))

lemma rank_mono:
  assumes "a * d \<le> c * b" and "0 < b" and "0 < d"
  shows "a * n div b \<le> c * n div (d :: nat)"
proof -
  have "a * n div b = (a * d) * n div (b * d)" using assms(3) by (metis div_mult_mult2 mult.assoc mult.commute neq0_conv)
  also have "\<dots> \<le> (c * b) * n div (b * d)" using assms(1) by (intro div_le_mono mult_le_mono1)
  also have "\<dots> = c * n div d" using assms(2) by (metis div_mult_mult1 mult.assoc mult.commute neq0_conv)
  finally show ?thesis .
qed

lemma percentile_ranks:
  fixes n :: nat
  assumes "0 < n"
  shows "sorted [0, n div 2, 9 * n div 10, 19 * n div 20, 99 * n div 100, 999 * n div 1000, n - 1]"
    and "i \<in> set [0, n div 2, 9 * n div 10, 19 * n div 20, 99 * n div 100, 999 * n div 1000, n - 1] \<Longrightarrow> i < n"
proof -
  have "1 * n div 2 \<le> 9 * n div 10" "9 * n div 10 \<le> 19 * n div 20"
    "19 * n div 20 \<le> 99 * n div 100" "99 * n div 100 \<le> 999 * n div 1000"
    by (rule rank_mono; simp)+
  moreover have "999 * n div 1000 < n" using assms by (simp add: div_less_iff_less_mult)
  then have "999 * n div 1000 \<le> n - 1" by linarith
  ultimately have chain: "n div 2 \<le> 9 * n div 10" "9 * n div 10 \<le> 19 * n div 20"
    "19 * n div 20 \<le> 99 * n div 100" "99 * n div 100 \<le> 999 * n div 1000" "999 * n div 1000 \<le> n - 1"
    by simp_all
  then show "sorted [0, n div 2, 9 * n div 10, 19 * n div 20, 99 * n div 100, 999 * n div 1000, n - 1]"
    by (simp only: sorted2 sorted1 le0 simp_thms)
  assume "i \<in> set [0, n div 2, 9 * n div 10, 19 * n div 20, 99 * n div 100, 999 * n div 1000, n - 1]"
  then have "i = 0 \<or> i = n div 2 \<or> i = 9 * n div 10 \<or> i = 19 * n div 20 \<or> i = 99 * n div 100 \<or>
      i = 999 * n div 1000 \<or> i = n - 1" by simp
  then show "i < n" using chain assms by linarith
qed

text \<open>The statistics of samples below \<open>2 ^ 53\<close> whose absolute values sum up to less than \<open>2 ^ 62\<close> come without an
  overflow, and they are in order: the minimum and the maximum are samples that bound all others, and
  from the minimum over the five percentiles to the maximum no value decreases.\<close>

theorem stats_in_order:
  assumes "xs \<noteq> []" and "length xs < 2 ^ 40" and "sum_list (map (\<lambda>x. \<bar>ival x\<bar>) xs) < 2 ^ 62"
    and "\<And>x. x \<in> set xs \<Longrightarrow> \<bar>ival x\<bar> < 2 ^ 53"
  shows "\<exists>st. calculateStats xs = Inr st \<and> sample_count st = length xs \<and>
    min_us st \<in> set xs \<and> max_us st \<in> set xs \<and> (\<forall>x \<in> set xs. min_us st \<le> x \<and> x \<le> max_us st) \<and>
    sorted [float_of_i64 (min_us st), p50_us st, p90_us st, p95_us st, p99_us st, p99_9_us st, float_of_i64 (max_us st)]"
proof -
  let ?s = "sort xs" and ?n = "length xs"
  have ne: "?s \<noteq> []" "length ?s < 2 ^ 40" and n: "0 < ?n"
    using assms(1,2) by (simp_all flip: length_greater_0_conv)
  obtain st where st: "calculateStats xs = Inr st" by (rule calculateStats_total [OF assms(1,3,4)])
  note val = calculateStats_cases [OF st assms(1)]
  note rank5 = fine_fractions [THEN percentile_rank(1) [OF _ ne]]
  have sel: "min_us st = ?s ! 0" "max_us st = ?s ! (?n - 1)" "sample_count st = ?n"
    "p50_us st = float_of_i64 (?s ! (1 * ?n div 2))" "p90_us st = float_of_i64 (?s ! (9 * ?n div 10))"
    "p95_us st = float_of_i64 (?s ! (19 * ?n div 20))" "p99_us st = float_of_i64 (?s ! (99 * ?n div 100))"
    "p99_9_us st = float_of_i64 (?s ! (999 * ?n div 1000))"
    by (rule val, use ne(1) in \<open>simp add: hd_conv_nth last_conv_nth rank5\<close>)+
  have mono: "float_of_i64 (?s ! i) \<le> float_of_i64 (?s ! j)" if "i \<le> j" "j < ?n" for i j
  proof -
    have "?s ! i \<in> set xs" "?s ! j \<in> set xs" using that nth_mem [of i ?s] nth_mem [of j ?s] by simp_all
    moreover have "?s ! i \<le> ?s ! j" using that by (intro sorted_nth_mono) simp_all
    ultimately show ?thesis using assms(4) by (simp add: float_of_i64_exact less_eq_i64_def)
  qed
  have "sorted (map (\<lambda>i. float_of_i64 (?s ! i))
      [0, ?n div 2, 9 * ?n div 10, 19 * ?n div 20, 99 * ?n div 100, 999 * ?n div 1000, ?n - 1])"
    by (rule sorted_map_ranks [OF percentile_ranks(1) [OF n] mono percentile_ranks(2) [OF n]])
  then have "sorted [float_of_i64 (min_us st), p50_us st, p90_us st, p95_us st, p99_us st, p99_9_us st,
      float_of_i64 (max_us st)]" by (simp only: sel list.map mult_1)
  moreover have "min_us st \<in> set xs" "max_us st \<in> set xs"
    using n nth_mem [of 0 ?s] nth_mem [of "?n - 1" ?s] by (simp_all add: sel)
  moreover have "min_us st \<le> x \<and> x \<le> max_us st" if "x \<in> set xs" for x
  proof -
    have "x \<in> set ?s" using that by simp
    then obtain i where "i < ?n" "x = ?s ! i" unfolding in_set_conv_nth by auto
    moreover from this(1) have "?s ! 0 \<le> ?s ! i" "?s ! i \<le> ?s ! (?n - 1)"
      by (intro sorted_nth_mono; simp)+
    ultimately show ?thesis unfolding sel by blast
  qed
  ultimately show ?thesis using st sel(3) by blast
qed

theorem stats_in_order_witness:
  "\<exists>st. calculateStats [i64_of 30, i64_of 10, i64_of 20] = Inr st \<and> sample_count st = 3 \<and>
    sorted [float_of_i64 (min_us st), p50_us st, p90_us st, p95_us st, p99_us st, p99_9_us st, float_of_i64 (max_us st)]"
  using stats_in_order [OF three_samples] by (metis length_Cons list.size(3) numeral_3_eq_3)

end
