(* ===== verification/Simulation.thy ===== *)
theory Simulation
  imports Main
begin

text \<open>
  Runs of systems whose steps may report an event, and refinement by an abstraction function: every step of
  the detailed system is a step of the abstract one that reports the same, so every run is a run of it.
\<close>

inductive run :: "('e option \<Rightarrow> 's \<Rightarrow> 's \<Rightarrow> bool) \<Rightarrow> 's \<Rightarrow> 'e list \<Rightarrow> 's \<Rightarrow> bool"
  for step :: "'e option \<Rightarrow> 's \<Rightarrow> 's \<Rightarrow> bool" and s :: 's where
  run_start: "run step s [] s"
| run_silent: "run step s es s' \<Longrightarrow> step None s' s'' \<Longrightarrow> run step s es s''"
| run_event: "run step s es s' \<Longrightarrow> step (Some e) s' s'' \<Longrightarrow> run step s (es @ [e]) s''"

locale simulation =
  fixes detailed :: "'e option \<Rightarrow> 's \<Rightarrow> 's \<Rightarrow> bool"
    and inv :: "'s \<Rightarrow> bool"
    and abstract :: "'e option \<Rightarrow> 'a \<Rightarrow> 'a \<Rightarrow> bool"
    and abs :: "'s \<Rightarrow> 'a"
  assumes keeps: "inv s \<Longrightarrow> detailed e s s' \<Longrightarrow> inv s'"
    and simulates: "inv s \<Longrightarrow> detailed e s s' \<Longrightarrow> abstract e (abs s) (abs s')"
begin

lemma run_keeps: "run detailed s es s' \<Longrightarrow> inv s \<Longrightarrow> inv s'"
  by (induction rule: run.induct) (auto intro: keeps)

lemma run_simulates: "run detailed s es s' \<Longrightarrow> inv s \<Longrightarrow> run abstract (abs s) es (abs s')"
proof (induction rule: run.induct)
  case (run_silent es s' s'')
  with simulates [of s' None s''] run_keeps show ?case by (blast intro: run.run_silent)
next
  case (run_event es s' e s'')
  with simulates [of s' "Some e" s''] run_keeps show ?case by (blast intro: run.run_event)
qed (rule run.run_start)

end

end
