(* ===== verification/SPSC_Refinement.thy ===== *)
theory SPSC_Refinement
  imports Simulation SPSC_Access
begin

text \<open>
  What a program may think of \<open>SPSCQueue\<close> when one thread pushes while another pops: an abstract bounded
  queue whose \<open>push\<close> and \<open>pop\<close> happen at one moment each, and each call run alone is the sequential operation of
  \<open>SPSC_Queue\<close>. Acquire loads may be stale, so the abstract queue lets each side learn late what the other did: a
  \<open>push\<close> may be refused for places that are free but not yet noticed, a \<open>pop\<close> may miss an item that is
  there.
\<close>

section \<open>The abstract queue\<close>

text \<open>
  \<open>items\<close> is the queue. Of the removals the last \<open>freed\<close>, of the insertions the last \<open>fresh\<close> need not be known to
  the other side.
\<close>

record 'a fifo =
  items :: "'a list"
  freed :: nat
  fresh :: nat

datatype 'a queue_event = Enqueued 'a | Refused 'a | Dequeued 'a | Found_empty

inductive fifo_step :: "nat \<Rightarrow> 'a queue_event option \<Rightarrow> 'a fifo \<Rightarrow> 'a fifo \<Rightarrow> bool" for capacity :: nat where
  notice: "m \<le> freed f \<Longrightarrow> n \<le> fresh f \<Longrightarrow> fifo_step capacity None f (f\<lparr>freed := m, fresh := n\<rparr>)"
| enqueue: "length (items f) + freed f < capacity \<Longrightarrow>
    fifo_step capacity (Some (Enqueued x)) f (f\<lparr>items := items f @ [x], fresh := Suc (fresh f)\<rparr>)"
| refuse: "m \<le> freed f \<Longrightarrow> length (items f) + m = capacity \<Longrightarrow>
    fifo_step capacity (Some (Refused x)) f (f\<lparr>freed := m\<rparr>)"
| dequeue: "items f = x # xs \<Longrightarrow> fresh f \<le> length xs \<Longrightarrow>
    fifo_step capacity (Some (Dequeued x)) f (f\<lparr>items := xs, freed := Suc (freed f)\<rparr>)"
| find_empty: "n \<le> fresh f \<Longrightarrow> length (items f) = n \<Longrightarrow>
    fifo_step capacity (Some Found_empty) f (f\<lparr>fresh := n\<rparr>)"

fun enqueued :: "'a queue_event \<Rightarrow> 'a list" where
  "enqueued (Enqueued x) = [x]"
| "enqueued e = []"

fun dequeued :: "'a queue_event \<Rightarrow> 'a list" where
  "dequeued (Dequeued x) = [x]"
| "dequeued e = []"

lemma fifo_run_order:
  "run (fifo_step capacity) \<lparr>items = [], freed = 0, fresh = 0\<rparr> es f \<Longrightarrow>
   concat (map enqueued es) = concat (map dequeued es) @ items f \<and> length (items f) \<le> capacity"
  by (induction rule: run.induct) (auto elim!: fifo_step.cases)

section \<open>What the threads are told\<close>

text \<open>\<open>push\<close> and \<open>pop\<close> return with the last of their accesses: that step reports their result.\<close>

definition reports :: "'a conc \<Rightarrow> 'a conc \<Rightarrow> 'a queue_event option" where
  "reports s s' =
     (case (pushing s 0, pushing s' 0) of
        (Push_store x _, Push_idle) \<Rightarrow> Some (Enqueued x)
      | (Push_check x _, Push_idle) \<Rightarrow> Some (Refused x)
      | _ \<Rightarrow>
        (case (popping s 0, popping s' 0) of
           (Pop_store x _, Pop_idle) \<Rightarrow> Some (Dequeued x)
         | (Pop_check _, Pop_idle) \<Rightarrow> Some Found_empty
         | _ \<Rightarrow> None))"

definition observed_step :: "64 word \<Rightarrow> 'a queue_event option \<Rightarrow> 'a conc \<Rightarrow> 'a conc \<Rightarrow> bool" where
  "observed_step sz e s s' \<longleftrightarrow> conc_step sz {0} {0} s s' \<and> e = reports s s'"

definition fifo_of :: "'a conc \<Rightarrow> 'a fifo" where
  "fifo_of s = \<lparr>items = drop (length (popped s)) (pushed s), freed = length (popped s) - seen_reads s 0,
     fresh = length (pushed s) - seen_writes s 0\<rparr>"

lemma fifo_of_new: "fifo_of (conc_new b) = \<lparr>items = [], freed = 0, fresh = 0\<rparr>"
  by (simp add: fifo_of_def conc_new_def)

section \<open>Every access is a step of the abstract queue\<close>

lemma reports_idle:
  "popping s' 0 = popping s 0 \<Longrightarrow> pushing s 0 = Push_check x cw \<Longrightarrow> pushing s' 0 = Push_idle \<Longrightarrow> reports s s' = Some (Refused x)"
  "popping s' 0 = popping s 0 \<Longrightarrow> pushing s 0 = Push_store x cw \<Longrightarrow> pushing s' 0 = Push_idle \<Longrightarrow> reports s s' = Some (Enqueued x)"
  "pushing s' 0 = pushing s 0 \<Longrightarrow> popping s 0 = Pop_check cr \<Longrightarrow> popping s' 0 = Pop_idle \<Longrightarrow> reports s s' = Some Found_empty"
  "pushing s' 0 = pushing s 0 \<Longrightarrow> popping s 0 = Pop_store y cr \<Longrightarrow> popping s' 0 = Pop_idle \<Longrightarrow> reports s s' = Some (Dequeued y)"
  by (simp_all add: reports_def split: push_state.split)

lemma reports_silent:
  "popping s' 0 = popping s 0 \<Longrightarrow> pushing s 0 = Push_idle \<or> pushing s' 0 \<noteq> Push_idle \<Longrightarrow> reports s s' = None"
  "pushing s' 0 = pushing s 0 \<Longrightarrow> popping s 0 = Pop_idle \<or> popping s' 0 \<noteq> Pop_idle \<Longrightarrow> reports s s' = None"
  by (auto simp: reports_def split: push_state.split pop_state.split)

lemma silent_steps:
  assumes "pushed s' = pushed s" and "popped s' = popped s" and "reports s s' = None"
    and "seen_reads s 0 \<le> seen_reads s' 0" and "seen_writes s 0 \<le> seen_writes s' 0"
  shows "fifo_step capacity (reports s s') (fifo_of s) (fifo_of s')"
proof -
  have "fifo_of s' = (fifo_of s)\<lparr>freed := freed (fifo_of s'), fresh := fresh (fifo_of s')\<rparr>"
    using assms(1,2) by (simp add: fifo_of_def)
  moreover have "freed (fifo_of s') \<le> freed (fifo_of s)" "fresh (fifo_of s') \<le> fresh (fifo_of s)"
    using assms by (simp_all add: fifo_of_def)
  ultimately show ?thesis unfolding assms(3) using fifo_step.notice by metis
qed

lemma push_store_step:
  assumes inv: "conc_inv sz s" and p: "pushing s 0 = Push_store x cw"
    and s': "s' = s\<lparr>writes := ws, pushing := (pushing s)(0 := Push_idle), pushed := pushed s @ [x]\<rparr>"
  shows "fifo_step (unat sz - 1) (reports s s') (fifo_of s) (fifo_of s')"
proof -
  note D = conc_invD [OF inv] conc_inv_order [OF inv]
  have "Suc (length (pushed s)) < seen_reads s 0 + unat sz" using D(9) p by simp
  then have "length (items (fifo_of s)) + freed (fifo_of s) < unat sz - 1"
    using conc_inv_order(1) [OF inv] D(6) by (simp add: fifo_of_def)
  moreover have "fifo_of s' = (fifo_of s)\<lparr>items := items (fifo_of s) @ [x], fresh := Suc (fresh (fifo_of s))\<rparr>"
    using conc_inv_order(1) [OF inv] D(5) by (simp add: fifo_of_def s' Suc_diff_le)
  moreover have "reports s s' = Some (Enqueued x)" by (rule reports_idle) (simp_all add: s' p)
  ultimately show ?thesis using fifo_step.enqueue by metis
qed

lemma push_full_step:
  assumes v: "valid_size sz" and inv: "conc_inv sz s" and p: "pushing s 0 = Push_check x cw"
    and k: "seen_reads s 0 \<le> k" "k < length (reads s)" "next_pos sz cw = reads s ! k"
    and s': "s' = s\<lparr>pushing := (pushing s)(0 := Push_idle), seen_reads := (seen_reads s)(0 := k)\<rparr>"
  shows "fifo_step (unat sz - 1) (reports s s') (fifo_of s) (fifo_of s')"
proof -
  note D = conc_invD [OF inv]
  let ?w = "length (pushed s)" and ?r = "length (popped s)"
  note order = conc_inv_order [OF inv]
  have kr: "k \<le> ?r" using k(2) order(4) by simp
  have cw: "cw = slot sz ?w" using D(9) p by simp
  have "slot sz (Suc ?w) = slot sz k" using k(3) kr D(2) nth_history [of k ?r sz] by (simp add: cw next_slot [OF v])
  then have "\<not> Suc ?w < k + unat sz" using slot_eq_iff [OF v, of k "Suc ?w"] kr order(1) by auto
  then have full: "Suc ?w = k + unat sz" using D(7) k(1) by linarith
  have "length (items (fifo_of s)) + (?r - k) = unat sz - 1" using full kr order(1) by (simp add: fifo_of_def)
  moreover have "?r - k \<le> freed (fifo_of s)" using k(1) by (simp add: fifo_of_def)
  moreover have "fifo_of s' = (fifo_of s)\<lparr>freed := ?r - k\<rparr>" by (simp add: fifo_of_def s')
  moreover have "reports s s' = Some (Refused x)" by (rule reports_idle) (simp_all add: s' p)
  ultimately show ?thesis using fifo_step.refuse by metis
qed

lemma pop_store_step:
  assumes inv: "conc_inv sz s" and p: "popping s 0 = Pop_store x cr"
    and s': "s' = s\<lparr>reads := rs, popping := (popping s)(0 := Pop_idle), popped := popped s @ [x]\<rparr>"
  shows "fifo_step (unat sz - 1) (reports s s') (fifo_of s) (fifo_of s')"
proof -
  note D = conc_invD [OF inv]
  let ?w = "length (pushed s)" and ?r = "length (popped s)"
  have r: "?r < seen_writes s 0" "x = pushed s ! ?r" using D(10) p by simp_all
  then have "?r < ?w" using D(5) by simp
  then have "items (fifo_of s) = x # drop (Suc ?r) (pushed s)" by (simp add: fifo_of_def r(2) Cons_nth_drop_Suc)
  moreover have "fresh (fifo_of s) \<le> length (drop (Suc ?r) (pushed s))" using r(1) by (simp add: fifo_of_def)
  moreover have "fifo_of s' = (fifo_of s)\<lparr>items := drop (Suc ?r) (pushed s), freed := Suc (freed (fifo_of s))\<rparr>"
    using D(6) by (simp add: fifo_of_def s' Suc_diff_le)
  moreover have "reports s s' = Some (Dequeued x)" by (rule reports_idle) (simp_all add: s' p)
  ultimately show ?thesis using fifo_step.dequeue by metis
qed

lemma pop_empty_step:
  assumes v: "valid_size sz" and inv: "conc_inv sz s" and p: "popping s 0 = Pop_check cr"
    and k: "seen_writes s 0 \<le> k" "k < length (writes s)" "cr = writes s ! k"
    and s': "s' = s\<lparr>popping := (popping s)(0 := Pop_idle), seen_writes := (seen_writes s)(0 := k)\<rparr>"
  shows "fifo_step (unat sz - 1) (reports s s') (fifo_of s) (fifo_of s')"
proof -
  note D = conc_invD [OF inv]
  note order = conc_inv_order [OF inv]
  let ?w = "length (pushed s)" and ?r = "length (popped s)"
  have kw: "k \<le> ?w" using k(2) order(3) by simp
  have "slot sz ?r = slot sz k" using D(1,10) p k(3) nth_history [OF kw, of sz] by simp
  then have "k = ?r" using slot_eq_iff [OF v, of ?r k] D(4) k(1) kw order(2) by simp
  then have "length (items (fifo_of s)) = ?w - k" "?w - k \<le> fresh (fifo_of s)"
    "fifo_of s' = (fifo_of s)\<lparr>fresh := ?w - k\<rparr>"
    using k(1) by (simp_all add: fifo_of_def s')
  moreover have "reports s s' = Some Found_empty" by (rule reports_idle) (simp_all add: s' p)
  ultimately show ?thesis using fifo_step.find_empty by metis
qed

lemma conc_step_refines:
  assumes v: "valid_size sz" and inv: "conc_inv sz s" and step: "conc_step sz {0} {0} s s'"
  shows "fifo_step (unat sz - 1) (reports s s') (fifo_of s) (fifo_of s')"
proof -
  note T = conc_inv_thread [OF inv]
  from step show ?thesis
  proof (cases rule: conc_step.cases)
    case (push_begin t item)
    then show ?thesis by (intro silent_steps reports_silent(1)) simp_all
  next
    case (push_full t item cw k)
    then have "t = 0" using T(1) [of t] by simp
    with push_full show ?thesis by (intro push_full_step [OF v inv]) simp_all
  next
    case (push_room t item cw k)
    then have "t = 0" using T(1) [of t] by simp
    with push_room show ?thesis by (intro silent_steps reports_silent(1)) simp_all
  next
    case (push_write t item cw)
    then have "t = 0" using T(1) [of t] by simp
    with push_write show ?thesis by (intro silent_steps reports_silent(1)) simp_all
  next
    case (push_store t item cw)
    then have "t = 0" using T(1) [of t] by simp
    with push_store show ?thesis by (intro push_store_step [OF inv]) simp_all
  next
    case (pop_begin t)
    then show ?thesis by (intro silent_steps reports_silent(2)) simp_all
  next
    case (pop_empty t cr k)
    then have "t = 0" using T(2) [of t] by simp
    with pop_empty show ?thesis by (intro pop_empty_step [OF v inv]) simp_all
  next
    case (pop_some t cr k)
    then have "t = 0" using T(2) [of t] by simp
    with pop_some show ?thesis by (intro silent_steps reports_silent(2)) simp_all
  next
    case (pop_read t cr)
    then have "t = 0" using T(2) [of t] by simp
    with pop_read show ?thesis by (intro silent_steps reports_silent(2)) simp_all
  next
    case (pop_store t item cr)
    then have "t = 0" using T(2) [of t] by simp
    with pop_store show ?thesis by (intro pop_store_step [OF inv]) simp_all
  qed
qed

interpretation queue_sim: simulation "observed_step sz" "\<lambda>s. conc_inv sz s \<and> valid_size sz"
    "fifo_step (unat sz - 1)" fifo_of for sz
  by unfold_locales (use conc_inv_step conc_step_refines in \<open>blast dest: observed_step_def [THEN iffD1]\<close>)+

lemma reachable_observed:
  "conc_reachable sz {0} {0} b s \<longleftrightarrow> (\<exists>es. run (observed_step sz) (conc_new b) es s)"
proof
  show "conc_reachable sz {0} {0} b s \<Longrightarrow> \<exists>es. run (observed_step sz) (conc_new b) es s"
  proof (induction rule: conc_reachable.induct)
    case (conc_next s s')
    then obtain es where "run (observed_step sz) (conc_new b) es s" by blast
    moreover have "observed_step sz (reports s s') s s'" using conc_next(2) by (simp add: observed_step_def)
    ultimately show ?case by (cases "reports s s'") (auto intro: run_silent run_event)
  qed (blast intro: run_start)
  have "run (observed_step sz) (conc_new b) es s \<Longrightarrow> conc_reachable sz {0} {0} b s" for es
    by (induction rule: run.induct) (auto simp: observed_step_def intro: conc_initial conc_next)
  then show "\<exists>es. run (observed_step sz) (conc_new b) es s \<Longrightarrow> conc_reachable sz {0} {0} b s" by blast
qed

lemma report_recorded:
  assumes step: "conc_step sz {0} {0} s s'" and inv: "conc_inv sz s"
  shows "pushed s' = pushed s @ concat (map enqueued (case_option [] (\<lambda>e. [e]) (reports s s'))) \<and>
    popped s' = popped s @ concat (map dequeued (case_option [] (\<lambda>e. [e]) (reports s s')))"
proof -
  note T = conc_inv_thread [OF inv]
  from step show ?thesis
  proof (cases rule: conc_step.cases)
    case (push_begin t item)
    then show ?thesis by (simp add: reports_def split: push_state.split pop_state.split)
  next
    case (pop_begin t)
    then show ?thesis by (simp add: reports_def split: push_state.split pop_state.split)
  next
    case (push_full t item cw k)
    then have "t = 0" using T(1) [of t] by simp
    with push_full show ?thesis by (simp add: reports_def split: push_state.split)
  next
    case (push_room t item cw k)
    then have "t = 0" using T(1) [of t] by simp
    with push_room show ?thesis by (simp add: reports_def split: pop_state.split)
  next
    case (push_write t item cw)
    then have "t = 0" using T(1) [of t] by simp
    with push_write show ?thesis by (simp add: reports_def split: pop_state.split)
  next
    case (push_store t item cw)
    then have "t = 0" using T(1) [of t] by simp
    with push_store show ?thesis by (simp add: reports_def split: push_state.split)
  next
    case (pop_empty t cr k)
    then have "t = 0" using T(2) [of t] by simp
    with pop_empty show ?thesis by (simp add: reports_def split: push_state.split)
  next
    case (pop_some t cr k)
    then have "t = 0" using T(2) [of t] by simp
    with pop_some show ?thesis by (simp add: reports_def split: push_state.split)
  next
    case (pop_read t cr)
    then have "t = 0" using T(2) [of t] by simp
    with pop_read show ?thesis by (simp add: reports_def split: push_state.split)
  next
    case (pop_store t item cr)
    then have "t = 0" using T(2) [of t] by simp
    with pop_store show ?thesis by (simp add: reports_def split: push_state.split)
  qed
qed

lemma events_recorded:
  assumes "run (observed_step sz) (conc_new b) es s" and v: "valid_size sz"
  shows "pushed s = concat (map enqueued es) \<and> popped s = concat (map dequeued es)"
  using assms(1)
proof (induction rule: run.induct)
  case run_start
  then show ?case by (simp add: conc_new_def)
next
  case (run_silent es s s')
  have "conc_inv sz s" using queue_sim.run_keeps [OF run_silent(1)] conc_inv_new v by blast
  moreover have "conc_step sz {0} {0} s s'" "reports s s' = None" using run_silent(2) by (simp_all add: observed_step_def)
  ultimately show ?case using report_recorded [of sz s s'] run_silent(3) by simp
next
  case (run_event es s e s')
  have "conc_inv sz s" using queue_sim.run_keeps [OF run_event(1)] conc_inv_new v by blast
  moreover have "conc_step sz {0} {0} s s'" "reports s s' = Some e" using run_event(2) by (auto simp: observed_step_def)
  ultimately show ?case using report_recorded [of sz s s'] run_event(3) by simp
qed

section \<open>The refinement\<close>

text \<open>C12: With one producing and one consuming thread, whatever the interleaving of their accesses and however
  stale their loads, the results that the calls return are those of the abstract bounded queue in some
  order of whole calls: a successful push appends its item and there was a place for it, a successful pop
  takes the first item, a push is refused only when the places that the producer knows to be free are used up, a pop
  reports an empty queue only when all items that the consumer can know of are taken. What was enqueued
  is what was dequeued followed by what is in the queue.\<close>

theorem spsc_refines_bounded_fifo:
  assumes "valid_size sz" and "run (observed_step sz) (conc_new b) es s"
  shows "run (fifo_step (unat sz - 1)) \<lparr>items = [], freed = 0, fresh = 0\<rparr> es (fifo_of s) \<and>
    pushed s = concat (map enqueued es) \<and> popped s = concat (map dequeued es) \<and>
    concat (map enqueued es) = concat (map dequeued es) @ items (fifo_of s) \<and>
    length (items (fifo_of s)) \<le> unat sz - 1"
proof -
  have abstract: "run (fifo_step (unat sz - 1)) \<lparr>items = [], freed = 0, fresh = 0\<rparr> es (fifo_of s)"
    using queue_sim.run_simulates [OF assms(2)] conc_inv_new [OF assms(1), of b] assms(1) by (simp add: fifo_of_new)
  from abstract fifo_run_order [OF abstract] events_recorded [OF assms(2,1)] show ?thesis by blast
qed

text \<open>A pop that finds nothing, then a push and a pop.\<close>

lemma observed_one_push:
  "\<exists>es. run (observed_step 4) (conc_new b) es
     ((conc_new b)\<lparr>writes := [0, 1], cells := b(0 := x), pushed := [x]\<rparr>)"
  using one_push_reachable [of b x] unfolding reachable_observed .

theorem spsc_refines_bounded_fifo_witness:
  "\<exists>es s. run (observed_step 4) (conc_new (\<lambda>_. CHR ''-'')) es s \<and> pushed s = ''x'' \<and>
     concat (map enqueued es) = ''x'' \<and> run (fifo_step 3) \<lparr>items = [], freed = 0, fresh = 0\<rparr> es (fifo_of s)"
proof -
  define s :: "char conc" where
    "s = (conc_new (\<lambda>_. CHR ''-''))\<lparr>writes := [0, 1], cells := (\<lambda>_. CHR ''-'')(0 := CHR ''x''), pushed := ''x''\<rparr>"
  have pushed: "pushed s = ''x''" by (simp add: s_def)
  obtain es where observed: "run (observed_step 4) (conc_new (\<lambda>_. CHR ''-'')) es s"
    using observed_one_push [of "\<lambda>_. CHR ''-''" "CHR ''x''"] unfolding s_def by blast
  have "unat (4 :: 64 word) - 1 = 3" by simp
  with spsc_refines_bounded_fifo [OF valid_size_4 observed] observed pushed show ?thesis by metis
qed

section \<open>A call that runs alone is the sequential operation\<close>

definition flat :: "'a conc \<Rightarrow> 'a spsc" where
  "flat s = \<lparr>write_pos = last (writes s), buffer = cells s, read_pos = last (reads s)\<rparr>"

lemma ring_difference:
  fixes r d n :: nat
  assumes "d < n"
  shows "((r + d) mod n + n - r mod n) mod n = d"
proof -
  have r: "r mod n < n" using assms by simp
  have eq: "(r + d) mod n = (r mod n + d) mod n" by (simp add: mod_add_left_eq)
  show ?thesis
  proof (cases "r mod n + d < n")
    case True
    then have "(r mod n + d) mod n + n - r mod n = d + n" by simp
    then show ?thesis unfolding eq using assms by simp
  next
    case False
    then have "(r mod n + d) mod n = r mod n + d - n"
      using le_mod_geq [of n "r mod n + d"] r assms by simp
    then have "(r mod n + d) mod n + n - r mod n = d" using False by linarith
    then show ?thesis unfolding eq using assms by simp
  qed
qed

lemma flat_contents:
  assumes v: "valid_size sz" and inv: "conc_inv sz s"
  shows "spsc_wf sz (flat s)" and "spsc_contents sz (flat s) = items (fifo_of s)"
proof -
  note D = conc_invD [OF inv]
  note order = conc_inv_order [OF inv]
  let ?w = "length (pushed s)" and ?r = "length (popped s)" and ?n = "unat sz"
  have pos: "write_pos (flat s) = slot sz ?w" "read_pos (flat s) = slot sz ?r" by (simp_all add: flat_def D(1,2))
  then show "spsc_wf sz (flat s)" by (simp add: spsc_wf_def slot_less [OF v])
  obtain d where d: "?w = ?r + d" "d < ?n" using order(1,2) le_Suc_ex by fastforce
  have count: "spsc_count sz (flat s) = d"
    using ring_difference [OF d(2), of ?r] by (simp add: spsc_count_def pos unat_slot [OF v] d(1))
  have "buffer (flat s) (of_nat ((unat (slot sz ?r) + i) mod ?n)) = pushed s ! (?r + i)" if "i < d" for i
  proof -
    have "of_nat ((unat (slot sz ?r) + i) mod ?n) = slot sz (?r + i)"
      by (simp add: unat_slot [OF v]) (simp add: slot_def mod_add_left_eq)
    then show ?thesis using D(8) [of "?r + i"] that d(1) by (simp add: flat_def)
  qed
  then show "spsc_contents sz (flat s) = items (fifo_of s)"
    by (intro nth_equalityI) (simp_all add: count spsc_contents_def pos fifo_of_def d(1))
qed

lemma conc_path_step:
  "(conc_step sz P C)\<^sup>*\<^sup>* s s' \<Longrightarrow> conc_step sz P C s' t \<Longrightarrow> t = t' \<Longrightarrow> (conc_step sz P C)\<^sup>*\<^sup>* s t'"
  by simp

lemma push_alone:
  assumes inv: "conc_inv sz s" and idle: "pushing s 0 = Push_idle"
  obtains s' where "(conc_step sz {0} {0})\<^sup>*\<^sup>* s s'" and "pushing s' = pushing s" and "popping s' = popping s"
    and "flat s' = snd (spsc_push sz x (flat s))"
    and "pushed s' = pushed s @ (if fst (spsc_push sz x (flat s)) then [x] else [])" and "popped s' = popped s"
proof -
  let ?cw = "last (writes s)" and ?k = "length (popped s)"
  let ?s1 = "s\<lparr>pushing := (pushing s)(0 := Push_check x ?cw)\<rparr>"
  have k: "seen_reads s 0 \<le> ?k" "?k < length (reads s)" "reads s ! ?k = last (reads s)"
    using conc_invD(6) [OF inv] conc_inv_order(4) [OF inv] by (simp_all add: last_conv_nth flip: length_greater_0_conv)
  have start: "(conc_step sz {0} {0})\<^sup>*\<^sup>* s ?s1" using conc_step.push_begin [of 0 "{0}" s] idle by auto
  have quiet: "(pushing s)(0 := Push_idle) = pushing s" using idle by (simp add: fun_eq_iff)
  show thesis
  proof (cases "next_pos sz ?cw = last (reads s)")
    case True
    have "(conc_step sz {0} {0})\<^sup>*\<^sup>* s (s\<lparr>seen_reads := (seen_reads s)(0 := ?k)\<rparr>)"
      by (rule conc_path_step [OF start conc_step.push_full [where t = 0 and k = ?k and item = x and cw = ?cw]])
        (use k True in \<open>simp_all add: quiet\<close>)
    then show thesis by (rule that) (use True in \<open>simp_all add: flat_def spsc_push_def Let_def\<close>)
  next
    case False
    have "(conc_step sz {0} {0})\<^sup>*\<^sup>* s
        (s\<lparr>pushing := (pushing s)(0 := Push_write x ?cw), seen_reads := (seen_reads s)(0 := ?k)\<rparr>)"
      by (rule conc_path_step [OF start conc_step.push_room [where t = 0 and k = ?k and item = x and cw = ?cw]])
        (use k False in simp_all)
    then have "(conc_step sz {0} {0})\<^sup>*\<^sup>* s (s\<lparr>cells := (cells s)(?cw := x),
        pushing := (pushing s)(0 := Push_store x ?cw), seen_reads := (seen_reads s)(0 := ?k)\<rparr>)"
      by (rule conc_path_step [OF _ conc_step.push_write [where t = 0 and item = x and cw = ?cw]]) simp_all
    then have "(conc_step sz {0} {0})\<^sup>*\<^sup>* s (s\<lparr>writes := writes s @ [next_pos sz ?cw], cells := (cells s)(?cw := x),
        seen_reads := (seen_reads s)(0 := ?k), pushed := pushed s @ [x]\<rparr>)"
      by (rule conc_path_step [OF _ conc_step.push_store [where t = 0 and item = x and cw = ?cw]]) (simp_all add: quiet)
    then show thesis by (rule that) (use False in \<open>simp_all add: flat_def spsc_push_def Let_def\<close>)
  qed
qed

lemma pop_alone:
  assumes inv: "conc_inv sz s" and idle: "popping s 0 = Pop_idle"
  obtains s' where "(conc_step sz {0} {0})\<^sup>*\<^sup>* s s'" and "pushing s' = pushing s" and "popping s' = popping s"
    and "flat s' = snd (spsc_pop sz (flat s))"
    and "popped s' = popped s @ (case fst (spsc_pop sz (flat s)) of None \<Rightarrow> [] | Some x \<Rightarrow> [x])" and "pushed s' = pushed s"
proof -
  let ?cr = "last (reads s)" and ?k = "length (pushed s)"
  let ?s1 = "s\<lparr>popping := (popping s)(0 := Pop_check ?cr)\<rparr>"
  have k: "seen_writes s 0 \<le> ?k" "?k < length (writes s)" "writes s ! ?k = last (writes s)"
    using conc_invD(5) [OF inv] conc_inv_order(3) [OF inv] by (simp_all add: last_conv_nth flip: length_greater_0_conv)
  have start: "(conc_step sz {0} {0})\<^sup>*\<^sup>* s ?s1" using conc_step.pop_begin [of 0 "{0}" s] idle by auto
  have quiet: "(popping s)(0 := Pop_idle) = popping s" using idle by (simp add: fun_eq_iff)
  show thesis
  proof (cases "?cr = last (writes s)")
    case True
    have "(conc_step sz {0} {0})\<^sup>*\<^sup>* s (s\<lparr>seen_writes := (seen_writes s)(0 := ?k)\<rparr>)"
      by (rule conc_path_step [OF start conc_step.pop_empty [where t = 0 and k = ?k and cr = ?cr]])
        (use k True in \<open>simp_all add: quiet\<close>)
    then show thesis by (rule that) (use True in \<open>simp_all add: flat_def spsc_pop_def Let_def\<close>)
  next
    case False
    have "(conc_step sz {0} {0})\<^sup>*\<^sup>* s
        (s\<lparr>popping := (popping s)(0 := Pop_read ?cr), seen_writes := (seen_writes s)(0 := ?k)\<rparr>)"
      by (rule conc_path_step [OF start conc_step.pop_some [where t = 0 and k = ?k and cr = ?cr]])
        (use k False in simp_all)
    then have "(conc_step sz {0} {0})\<^sup>*\<^sup>* s (s\<lparr>popping := (popping s)(0 := Pop_store (cells s ?cr) ?cr),
        seen_writes := (seen_writes s)(0 := ?k)\<rparr>)"
      by (rule conc_path_step [OF _ conc_step.pop_read [where t = 0 and cr = ?cr]]) simp_all
    then have "(conc_step sz {0} {0})\<^sup>*\<^sup>* s (s\<lparr>reads := reads s @ [next_pos sz ?cr],
        seen_writes := (seen_writes s)(0 := ?k), popped := popped s @ [cells s ?cr]\<rparr>)"
      by (rule conc_path_step [OF _ conc_step.pop_store [where t = 0 and cr = ?cr and item = "cells s ?cr"]])
        (simp_all add: quiet)
    then show thesis by (rule that) (use False in \<open>simp_all add: flat_def spsc_pop_def Let_def\<close>)
  qed
qed

text \<open>C13: The access-by-access model of push and pop and the sequential one agree: from every state that the two
  threads can reach, a call that makes its accesses without delay and loads the newest values changes
  positions and buffer exactly as the sequential function, returns its result, and leaves the other thread where it was; what the
  positions and the buffer hold as a ring is the content of the abstract queue.\<close>

theorem spsc_calls_alone:
  assumes "valid_size sz" and "conc_reachable sz {0} {0} b s"
  shows "spsc_contents sz (flat s) = items (fifo_of s) \<and>
    (pushing s 0 = Push_idle \<longrightarrow> (\<exists>s'. (conc_step sz {0} {0})\<^sup>*\<^sup>* s s' \<and>
       flat s' = snd (spsc_push sz x (flat s)) \<and> pushing s' = pushing s \<and> popping s' = popping s \<and> popped s' = popped s \<and>
       pushed s' = pushed s @ (if fst (spsc_push sz x (flat s)) then [x] else []))) \<and>
    (popping s 0 = Pop_idle \<longrightarrow> (\<exists>s'. (conc_step sz {0} {0})\<^sup>*\<^sup>* s s' \<and>
       flat s' = snd (spsc_pop sz (flat s)) \<and> pushing s' = pushing s \<and> popping s' = popping s \<and> pushed s' = pushed s \<and>
       popped s' = popped s @ (case fst (spsc_pop sz (flat s)) of None \<Rightarrow> [] | Some y \<Rightarrow> [y])))"
proof -
  have inv: "conc_inv sz s" using conc_reachable_inv [OF assms(2,1)] .
  from flat_contents(2) [OF assms(1) inv] push_alone [OF inv, of x] pop_alone [OF inv] show ?thesis
    by (intro conjI impI) (assumption, metis+)
qed

theorem spsc_calls_alone_witness:
  "\<exists>s s'. conc_reachable 4 {0} {0} (\<lambda>_. CHR ''-'') s \<and> (conc_step 4 {0} {0})\<^sup>*\<^sup>* s s' \<and> popped s' = ''x''"
proof -
  define s :: "char conc" where
    "s = (conc_new (\<lambda>_. CHR ''-''))\<lparr>writes := [0, 1], cells := (\<lambda>_. CHR ''-'')(0 := CHR ''x''), pushed := ''x''\<rparr>"
  have reach: "conc_reachable 4 {0} {0} (\<lambda>_. CHR ''-'') s"
    using one_push_reachable [of "\<lambda>_. CHR ''-''" "CHR ''x''"] by (simp add: s_def)
  have "popping s 0 = Pop_idle" "popped s = []" "fst (spsc_pop 4 (flat s)) = Some CHR ''x''"
    by (simp_all add: s_def conc_new_def spsc_pop_def flat_def Let_def)
  with spsc_calls_alone [OF valid_size_4 reach] reach show ?thesis by fastforce
qed

end
