(* ===== verification/Spec2Isabelle.thy ===== *)
theory Spec2Isabelle
  imports Book_Theorems Match_Theorems Hazards SPSC_Queue SPSC_Concurrent Logger_Session Memory_Pool
    Logger_Concurrent Network_Mains Main_Theorems Main_Log_File Queue_Demo Epoll_Theorems UDP_Server Main_Setup Bench_Stats Http_Client
    SPSC_Refinement
begin

text \<open>
  A verification development of the trading matcher: an in-memory order book with price-time priority,
  the matcher that trades it, and what the program builds around them: a lock-free queue, an
  asynchronous logger, clocks and cycle counters, an object pool, TCP and UDP servers, the tuning of
  the operating system, latency statistics, an HTTP client and a JSON server.

  \<^bold>\<open>How the parts interact.\<close> \<open>OrderBook\<close> keeps two ladders of \<open>PriceLevel\<close>s and a table from ids to \<open>Order\<close>s;
  orders are objects in memory that the book, the pool and the caller share by address. \<open>Matcher\<close> reads
  the best orders of a book, reduces their quantities in memory, cancels what is filled and reports
  each trade to the \<open>AsyncLogger\<close>, whose queue is an \<open>SPSCQueue\<close> that a background thread drains. Time
  stamps come from \<open>Timestamp.hpp\<close>. \<open>main\<close> composes all of this.

  \<^bold>\<open>Theories and sources\<close> (under \<open>src/include\<close> unless a path is given).

  \<^item> \<open>Prelude\<close>: faults (dangling pointer, signed overflow, conversion out of range, indeterminate value),
    the sequencing of fallible operations, lemmas on lists. \<open>Int64\<close>: \<open>int64_t\<close> as an own type with
    checked arithmetic and its signed order. \<open>Cformat\<close>: decimal text as \<open>printf\<close> writes it.
  \<^item> \<open>Binary64\<close>, \<open>Float_Format\<close>, \<open>Float_Rank\<close>: \<open>double\<close> as the rationals with rounding to 53 bits, half to
    even; its text with two decimals; when a rounded product still truncates to the exact rank.
  \<^item> \<open>Timestamp\<close>, \<open>Rdtsc_Calibration\<close> (\<open>utils/Timestamp.hpp\<close>): clocks as sequences of readings, timers, the
    calibration of the cycle counter. \<open>Orders\<close>, \<open>Price_Conversion\<close> (\<open>order_matching/Order.hpp\<close>).
  \<^item> \<open>Ladder\<close>, \<open>Price_Level\<close>, \<open>Order_Book\<close> (\<open>order_matching/OrderBook.hpp\<close>): \<open>std::map\<close> as a sorted association
    list, the operations of a level and of the book on an explicit heap. \<open>Book_Invariant\<close>,
    \<open>Book_Operations\<close>: the well-formedness of a book and its abstraction, two queues of orders; every
    operation keeps the one and implements its counterpart on the other.
  \<^item> \<open>Matcher\<close> (\<open>order_matching/Matcher.hpp\<close>): the loop, a partial function, since it may run for ever.
    \<open>Match_Spec\<close> states matching on the abstract book alone; \<open>Match_Refinement\<close> proves that the loop
    implements it. \<open>Book_Session\<close>: all calls of an owner in any order. \<open>Book_Theorems\<close>, \<open>Match_Theorems\<close>:
    the properties. \<open>Hazards\<close>: what happens outside the owner's rules. \<open>Examples\<close>: a concrete session.
  \<^item> \<open>Bounded_Queue\<close>, \<open>SPSC_Queue\<close>, \<open>SPSC_Concurrent\<close> (\<open>utils/SPSCQueue.hpp\<close>): the interface of a bounded queue
    as a locale, the ring as an interpretation of it, and the same operations split into single
    accesses with stale loads, for any interleaving.
    \<open>Progress\<close>, \<open>SPSC_Access\<close>: a locale of systems that can always finish, and what one access to the queue
    can change, for the programs whose threads share a queue. \<open>Simulation\<close>, \<open>SPSC_Refinement\<close>: runs that report
    events and refinement along them, as a locale; the accesses of the two threads implement an abstract bounded queue
    with one event for each call, and a call that runs alone is the sequential operation.
  \<^item> \<open>Async_Logger\<close>, \<open>Logger_Session\<close> (\<open>utils/AsyncLogger.hpp\<close>): the calls, the background thread in whole
    turns, delivery of all messages. \<open>Logger_Concurrent\<close>: the thread that logs and stops and the background
    thread as steps of single accesses with stale loads. \<open>Memory_Pool\<close> (\<open>utils/MemoryPool.hpp\<close>).
  \<^item> \<open>Main_Program\<close>, \<open>Main_Theorems\<close> (\<open>src/src/main.cpp\<close>): the program's run up to its matching as actions on one
    state. \<open>Queue_Demo\<close>: the two threads of the queue demonstration. \<open>Main_Session\<close>: \<open>main\<close> up to the
    demonstration as a list of statements with turns of the logger's thread between them; \<open>Price_Text\<close>,
    \<open>Main_Log\<close>, \<open>Main_Output\<close>, \<open>Main_Log_File\<close>: the text of prices, assertions that hold under every schedule, the
    stages of \<open>main\<close>, and what it has logged by then. \<open>Main_Setup\<close>: the system calls behind the lines about the system.
  \<^item> \<open>Kernel\<close>: the operating system as a function that answers each call from the trace so far.
    \<open>Epoll_Server\<close>, \<open>Epoll_Theorems\<close> (\<open>networking/EpollServer.hpp\<close>), \<open>UDP_Server\<close> (\<open>networking/UDPServer.hpp\<close>),
    \<open>Linux_Opts\<close> (\<open>utils/LinuxOptimizations.hpp\<close>): their operations as sequences of such calls. The message
    handlers are events of the trace.
  \<^item> \<open>Bench_Stats\<close> (\<open>utils/Benchmark.hpp\<close>); \<open>Http_Client\<close> (\<open>src/src/networking/client.cpp\<close>).
  \<^item> \<open>Cpp_Outcome\<close>: values, exceptions and undefined behaviour; the JSON library as a record of operations with
    the documented laws, and a small instance. \<open>Trading_Server\<close>, \<open>Server_Theorems\<close> (\<open>src/src/networking/server.cpp\<close>):
    a client's thread, requests and accepts. \<open>Market_Data\<close> (\<open>src/src/market_data/MarketDataHandler.cpp\<close>).
    \<open>Network_Mains\<close> (\<open>src/src/networking/Server_main.cpp\<close>, \<open>Client_main.cpp\<close>).

  \<^bold>\<open>What the lemmas show.\<close> Book: each operation refines its counterpart on two sorted queues, on every
  branch, and every session keeps the invariant and always returns. Matcher: it terminates on every
  well-formed book, implements the abstract matching, uncrosses a book of positive prices, conserves quantity,
  trades in price-time priority at the older order's price. Queue: a bounded FIFO sequentially, and without
  loss, duplication or race for one producer and one consumer, whose calls refine those of an abstract
  queue; two of either break it. Logger: every
  accepted message is written once and in order, also in every interleaving of single accesses, and
  \<open>stop\<close> can return from every state. The queue demonstration processes all orders and can always end. Prices: exact to \<open>double\<close> and back below \<open>2 ^ 50\<close>; negative
  ones are off by one. Cycle counter: the conversions undo one another up to two nanoseconds. Main: the sample orders
  trade as expected under every clock, and up to the demonstration exactly the expected lines are logged under every
  schedule. Servers: the open connections are the watched descriptors and those that could not be added, bytes and datagrams reach the handler unchanged, start and
  destruction are balanced, and the accept loop ends exactly when the accept queue does. Statistics:
  the floating-point percentiles have exact ranks. Client: the environment file. JSON server: lines are
  answered once and in order until one is not JSON, undefined or cannot be answered, accepting goes on, and which
  errors become answers. Market data: what a reply leads to.

  \<^bold>\<open>Bounds and partiality.\<close> Machine integers have their width (\<open>w word\<close>, \<open>i64\<close>); a signed overflow is a fault,
  an unsigned one wraps. Loops that may not end are partial functions with the value \<open>None\<close> then, and the
  theorems prove that a result exists; the two endless loops over UDP sockets are given by their first
  \<open>n\<close> rounds for every \<open>n\<close>. No fuel is used elsewhere. The clocks' seconds are assumed to be such that the
  nanoseconds fit into 63 bits, which holds until 2262; the percentiles' ranks are proved for fewer
  than \<open>2 ^ 40\<close> samples. The log of \<open>main\<close> is proved for a calibration of at most a second and a matching
  of fewer than \<open>2 ^ 32\<close> cycles: beyond such bounds the conversion of cycles to nanoseconds can leave its
  range.

  \<^bold>\<open>Rules that the code relies on and does not check\<close> are hypotheses: the owner of a book places only orders
  whose id is new and reuses an object only when it is out of the book; \<open>malloc\<close> returns an unused
  address; only live objects are deallocated, and once; a socket delivers its bytes in order.

  \<^bold>\<open>Code outside the repository\<close> is a parameter: the operating system, libcurl's transfer, the JSON library, and
  for \<open>server.cpp\<close> also Boost.Asio and the order interface it was written for, which the repository no longer
  has, so that this file does not compile.

  \<^bold>\<open>Not modelled.\<close> \<open>src/src/order_matching/*.cpp\<close> hold an include each. \<open>SPSCQueueExample.hpp\<close> is one comment.
  Of \<open>main\<close>: what the two threads of the demonstration log and the \<open>flush\<close> after it. There two threads log at once,
  a pool is destroyed while its orders are read, and two threads take messages out of the logger's queue: races
  that C++ gives no meaning. What two producers or two consumers do to the queue itself is shown in \<open>SPSC_Concurrent\<close>,
  that the orders can outlive their pool in \<open>Queue_Demo\<close>.
  \<open>disableCpuFrequencyScaling\<close> is empty. The client threads of the JSON server share one book without a
  lock; each is modelled for itself, since C++ gives their races no meaning.
  Weak memory is modelled where threads share data (queue positions, the demonstration's flag, the logger's
  \<open>running_\<close>); the log of \<open>main\<close> is proved for a background thread that takes whole turns between its calls, which
  is one producer and one consumer, and \<open>Logger_Concurrent\<close> splits both into single accesses. Sleeping only passes the turn. Infinities and NaN do not occur: the
  conversions to integers are out of range long before.
\<close>

end
